(* ===== verification/Prelude.thy ===== *)
theory Prelude
  imports Main "HOL-Library.Word"
begin

text \<open>
  Shared vocabulary of the development: the result of one atomic step of a program
  (\<open>outcome\<close>), runs and reachable states of a machine given by an executable step
  function, the compare-and-exchange and exchange primitives of \<open>std::atomic\<close>, and the
  abstraction of a singly linked list in memory (\<open>chain\<close>).  The locales
  \<open>invariant_machine\<close>, \<open>safe_machine\<close>, \<open>refining_machine\<close> and \<open>parking_machine\<close> are the contracts the
  concurrent components of the library are checked against.
\<close>

named_theorems outcome_simps "unfolding of the step functions"

section \<open>Outcomes of one atomic step\<close>

text \<open>
  A step is \<open>Blocked\<close> when the program cannot take it in this state, a \<open>Fault\<close> when it
  goes wrong in the way named, and \<open>Next s\<close> otherwise.  The faults are the ways in which
  the C++ code can leave its contract: an \<open>assert\<close> that fails, a null pointer that is
  dereferenced, an object or coroutine frame that is used after it was destroyed, a coroutine
  that is resumed while it is not suspended, an \<open>optional\<close> read while empty, a signed
  integer that overflows, a frame destroyed twice, and an access outside an array.
\<close>

datatype fault =
    AssertFailed
  | NullDeref
  | UseAfterFree
  | BadResume
  | BadOptionalAccess
  | SignedOverflow
  | DoubleDestroy
  | OutOfBounds

datatype 's outcome = Blocked | Fault fault | Next 's

fun bind_outcome :: "'s outcome \<Rightarrow> ('s \<Rightarrow> 't outcome) \<Rightarrow> 't outcome" where
  "bind_outcome Blocked k = Blocked"
| "bind_outcome (Fault f) k = Fault f"
| "bind_outcome (Next s) k = k s"

fun map_next :: "('s \<Rightarrow> 't) \<Rightarrow> 's outcome \<Rightarrow> 't outcome" where
  "map_next g Blocked = Blocked"
| "map_next g (Fault f) = Fault f"
| "map_next g (Next s) = Next (g s)"

lemma bind_outcome_Next [simp]:
  "bind_outcome r k = Next t \<longleftrightarrow> (\<exists>s. r = Next s \<and> k s = Next t)"
  by (cases r) auto

lemma map_next_Next [simp]: "map_next g r = Next t \<longleftrightarrow> (\<exists>s. r = Next s \<and> t = g s)"
  by (cases r) auto

lemma map_next_Fault [simp]: "map_next g r = Fault f \<longleftrightarrow> r = Fault f"
  by (cases r) auto

text \<open>A run takes the steps of a schedule (a list of events) one after the other.\<close>

fun run :: "('e \<Rightarrow> 's \<Rightarrow> 's outcome) \<Rightarrow> 'e list \<Rightarrow> 's \<Rightarrow> 's outcome" where
  "run ex [] s = Next s"
| "run ex (e # es) s = bind_outcome (ex e s) (run ex es)"

lemma run_append:
  "run ex (es @ fs) s = bind_outcome (run ex es s) (run ex fs)"
proof (induction es arbitrary: s)
  case (Cons e es)
  then show ?case by (cases "ex e s") auto
qed simp

inductive reach :: "('e \<Rightarrow> 's \<Rightarrow> 's outcome) \<Rightarrow> 's \<Rightarrow> 's \<Rightarrow> bool"
  for ex :: "'e \<Rightarrow> 's \<Rightarrow> 's outcome" and s0 :: 's where
  reach_init: "reach ex s0 s0"
| reach_step: "reach ex s0 s \<Longrightarrow> ex e s = Next s' \<Longrightarrow> reach ex s0 s'"

lemma run_reach: "reach ex s0 s \<Longrightarrow> run ex es s = Next t \<Longrightarrow> reach ex s0 t"
  by (induction es arbitrary: s) (auto intro: reach_step)

lemma reach_run: "reach ex s0 s \<longleftrightarrow> (\<exists>es. run ex es s0 = Next s)"
proof
  assume "reach ex s0 s"
  then show "\<exists>es. run ex es s0 = Next s"
  proof induction
    case reach_init
    have "run ex [] s0 = Next s0" by simp
    then show ?case by blast
  next
    case (reach_step s e s')
    then obtain es where "run ex es s0 = Next s" by blast
    with reach_step.hyps(2) have "run ex (es @ [e]) s0 = Next s'" by (simp add: run_append)
    then show ?case by blast
  qed
next
  assume "\<exists>es. run ex es s0 = Next s"
  then show "reach ex s0 s" by (auto intro: run_reach reach.reach_init)
qed

section \<open>The contract of a safe component\<close>

text \<open>
  A component promises an invariant that holds initially and is kept by every step
  (\<open>invariant_machine\<close>); a safe one has an invariant that also excludes every fault, and its
  client may use that no schedule whatsoever makes it fault.
\<close>

locale invariant_machine =
  fixes init :: 's
    and exec :: "'e \<Rightarrow> 's \<Rightarrow> 's outcome"
    and inv :: "'s \<Rightarrow> bool"
  assumes inv_init: "inv init"
    and inv_step: "inv s \<Longrightarrow> exec e s = Next s' \<Longrightarrow> inv s'"
begin

lemma reach_inv: "reach exec init s \<Longrightarrow> inv s"
  by (induction rule: reach.induct) (auto intro: inv_init inv_step)

lemma run_inv: "inv s \<Longrightarrow> run exec es s = Next t \<Longrightarrow> inv t"
  by (induction es arbitrary: s) (auto dest: inv_step)

end

locale safe_machine = invariant_machine init exec inv
  for init :: 's
    and exec :: "'e \<Rightarrow> 's \<Rightarrow> 's outcome"
    and inv :: "'s \<Rightarrow> bool" +
  assumes inv_no_fault: "inv s \<Longrightarrow> exec e s \<noteq> Fault f"
begin

lemma reach_no_fault: "reach exec init s \<Longrightarrow> exec e s \<noteq> Fault f"
  by (blast dest: reach_inv inv_no_fault)

lemma run_from_inv: "inv s \<Longrightarrow> run exec es s \<noteq> Fault f"
proof (induction es arbitrary: s)
  case (Cons e es)
  then show ?case
    by (cases "exec e s") (auto dest: inv_step inv_no_fault)
qed simp

lemma run_no_fault: "run exec es init \<noteq> Fault f"
  using run_from_inv inv_init by blast

end

text \<open>
  A component refines an abstract specification (a step relation \<open>astep\<close>) when its
  invariant is witnessed by an abstract state and every concrete step is matched by an abstract
  step or leaves the abstract state alone.
\<close>

inductive reach_spec :: "('a \<Rightarrow> 'a \<Rightarrow> bool) \<Rightarrow> 'a \<Rightarrow> 'a \<Rightarrow> bool"
  for astep :: "'a \<Rightarrow> 'a \<Rightarrow> bool" and a0 :: 'a where
  spec_init: "reach_spec astep a0 a0"
| spec_step: "reach_spec astep a0 a \<Longrightarrow> astep a a' \<Longrightarrow> reach_spec astep a0 a'"

locale refining_machine =
  fixes init :: 's
    and exec :: "'e \<Rightarrow> 's \<Rightarrow> 's outcome"
    and rep :: "'s \<Rightarrow> 'a \<Rightarrow> bool"
    and astep :: "'a \<Rightarrow> 'a \<Rightarrow> bool"
    and ainit :: 'a
  assumes rep_init: "rep init ainit"
    and rep_step: "rep s a \<Longrightarrow> exec e s = Next s' \<Longrightarrow>
      \<exists>a'. (a' = a \<or> astep a a') \<and> rep s' a'"
    and rep_no_fault: "rep s a \<Longrightarrow> exec e s \<noteq> Fault f"
begin

lemma reach_rep: "reach exec init s \<Longrightarrow> \<exists>a. reach_spec astep ainit a \<and> rep s a"
proof (induction rule: reach.induct)
  case reach_init
  then show ?case using rep_init by (blast intro: spec_init)
next
  case (reach_step s e s')
  then obtain a where a: "reach_spec astep ainit a" "rep s a" by blast
  from rep_step [OF a(2) reach_step.hyps(2)]
  obtain a' where "a' = a \<or> astep a a'" "rep s' a'" by blast
  with a(1) show ?case by (blast intro: spec_step)
qed

end

sublocale refining_machine \<subseteq> safe_machine init exec "\<lambda>s. \<exists>a. rep s a"
  by unfold_locales (use rep_init rep_step rep_no_fault in blast)+

context refining_machine begin

lemma run_never_faults: "run exec es init \<noteq> Fault f"
  by (rule run_no_fault)

end

text \<open>
  A component that suspends coroutines takes their core offline for RCU first: it keeps the log
  of these calls, and a coroutine starts to wait in a step that enters it in the log.
\<close>

locale parking_machine =
  fixes init :: 's
    and exec :: "'e \<Rightarrow> 's \<Rightarrow> 's outcome"
    and parked :: "'s \<Rightarrow> nat \<Rightarrow> bool"
    and offline_log :: "'s \<Rightarrow> nat list"
  assumes none_parked: "\<not> parked init t"
    and park_logged: "exec e s = Next s' \<Longrightarrow> \<not> parked s t \<Longrightarrow> parked s' t \<Longrightarrow>
      offline_log s' = t # offline_log s"
    and log_kept: "exec e s = Next s' \<Longrightarrow> set (offline_log s) \<subseteq> set (offline_log s')"
begin

lemma parked_offline: "reach exec init s \<Longrightarrow> parked s t \<Longrightarrow> t \<in> set (offline_log s)"
proof (induction rule: reach.induct)
  case (reach_step s e s')
  then show ?case using park_logged log_kept by (cases "parked s t") fastforce+
qed (use none_parked in blast)

end

section \<open>Atomic read-modify-write operations\<close>

text \<open>
  \<open>compare_exchange_weak\<close> may fail although the cell holds the expected value
  (\<open>spurious\<close>); on failure the expected value is overwritten by the value observed.
  The result is the success flag, the new cell and the new expected value.
\<close>

definition cas_weak :: "bool \<Rightarrow> 'a \<Rightarrow> 'a \<Rightarrow> 'a \<Rightarrow> bool \<times> 'a \<times> 'a" where
  "cas_weak spurious cell expected desired =
     (if cell = expected \<and> \<not> spurious then (True, desired, expected) else (False, cell, cell))"

definition cas_strong :: "'a \<Rightarrow> 'a \<Rightarrow> 'a \<Rightarrow> bool \<times> 'a \<times> 'a" where
  "cas_strong cell expected desired = cas_weak False cell expected desired"

text \<open>\<open>exchange\<close>: the old value and the new cell.\<close>

definition xchg :: "'a \<Rightarrow> 'a \<Rightarrow> 'a \<times> 'a" where
  "xchg cell desired = (cell, desired)"

lemmas atomic_defs = cas_weak_def cas_strong_def xchg_def

section \<open>Null-terminated lists in memory\<close>

primrec chain :: "('a \<Rightarrow> 'a option) \<Rightarrow> 'a option \<Rightarrow> 'a list \<Rightarrow> bool" where
  "chain nx p [] \<longleftrightarrow> p = None"
| "chain nx p (a # as) \<longleftrightarrow> p = Some a \<and> chain nx (nx a) as"

lemma chain_None [simp]: "chain nx None as \<longleftrightarrow> as = []"
  by (cases as) auto

lemma chain_Some: "chain nx (Some a) as \<longleftrightarrow> (\<exists>bs. as = a # bs \<and> chain nx (nx a) bs)"
  by (cases as) auto

lemma chain_fun_upd [simp]: "u \<notin> set as \<Longrightarrow> chain (nx(u := v)) p as = chain nx p as"
  by (induction as arbitrary: p) auto

lemma chain_push: "u \<notin> set as \<Longrightarrow> chain nx p as \<Longrightarrow> chain (nx(u := p)) (Some u) (u # as)"
  by simp

lemma chain_unique: "chain nx p as \<Longrightarrow> chain nx p bs \<Longrightarrow> as = bs"
  by (induction as arbitrary: p bs) (auto simp: chain_Some)

lemma chain_append: "chain nx p (as @ bs) \<Longrightarrow> \<exists>q. chain nx q bs"
  by (induction as arbitrary: p) auto

lemma chain_not_in_tail: "chain nx (nx a) bs \<Longrightarrow> a \<notin> set bs"
proof
  assume bs: "chain nx (nx a) bs" and "a \<in> set bs"
  then obtain cs ds where split: "bs = cs @ a # ds" by (meson split_list)
  have tail: "chain nx (nx a) ds" if "chain nx p (es @ a # ds)" for p es
    using that by (induction es arbitrary: p) auto
  from bs split tail have "chain nx (nx a) ds" by blast
  from chain_unique [OF bs this] have "length bs = length ds" by simp
  with split show False by simp
qed

lemma chain_distinct: "chain nx p as \<Longrightarrow> distinct as"
  by (induction as arbitrary: p) (auto dest: chain_not_in_tail)

section \<open>Counting\<close>

lemma unat_succ_64: "unat (w :: 64 word) < 2 ^ 64 - 1 \<Longrightarrow> unat (w + 1) = Suc (unat w)"
  by (simp add: unat_word_ariths)

lemma card_insert_new: "finite A \<Longrightarrow> x \<notin> A \<Longrightarrow> card (insert x A) = Suc (card A)"
  by simp

lemma Collect_fun_upd:
  "{t. P ((f(u := v)) t)} = (if P v then insert u {t. P (f t)} else {t. P (f t)} - {u})"
  by auto

end
