(* ===== verification/CoMutex.thy ===== *)
theory CoMutex
  imports Prelude
begin

text \<open>
  \<open>async_simple::coro::Mutex\<close> of \<^verbatim>\<open>include/mutex.hpp\<close>, one atomic operation per step.

  A coroutine is a number; the \<open>LockAwaiter\<close> of a coroutine lives in its frame from the
  \<open>co_await\<close> until the lock is acquired, and a coroutine awaits one mutex at a time, so the
  awaiter's address is the coroutine's number.  \<open>m_next\<close> is the field \<open>_next\<close> of
  every awaiter.  The word \<open>_state\<close> is \<open>Self\<close> (unlocked), \<open>Null\<close> (locked, no new
  waiter) or \<open>Aw a\<close> (locked, \<open>a\<close> the newest awaiter of a LIFO list).  The program counter
  of a coroutine says which atomic operation of \<open>coLock\<close> or \<open>unlock\<close> it takes next.

  Resuming a waiter at the end of \<open>unlock\<close> runs that coroutine on the unlocker's thread
  until it suspends; here both are runnable from then on, which has more interleavings than the
  code.  The memory orders are sequentially consistent.
\<close>

section \<open>State\<close>

datatype mword = Self | Null | Aw nat

datatype mutex_pc =
    M_Idle                  \<comment> \<open>not in a mutex operation\<close>
  | M_Ready                 \<comment> \<open>\<open>await_ready\<close>: before \<open>tryLock\<close>\<close>
  | M_Load                  \<comment> \<open>\<open>lockAsyncImpl\<close>: before the relaxed load\<close>
  | M_Loop mword            \<comment> \<open>head of \<open>while (true)\<close>, with \<open>oldValue\<close>\<close>
  | M_Parked                \<comment> \<open>suspended, queued\<close>
  | M_Owner                 \<comment> \<open>the \<open>co_await\<close> has returned\<close>
  | M_Unlock                \<comment> \<open>entry of \<open>unlock\<close>\<close>
  | M_ULoad                 \<comment> \<open>\<open>_waiters\<close> was null: before loading \<open>currentState\<close>\<close>
  | M_UCas                  \<comment> \<open>\<open>currentState\<close> was null: before the compare-exchange\<close>
  | M_UXchg                 \<comment> \<open>before the exchange with null\<close>
  | M_URev nat "nat option" \<comment> \<open>the reversal loop: \<open>waiter\<close> and \<open>waitersHead\<close>\<close>
  | M_UHand "nat option"    \<comment> \<open>after the loop: \<open>waitersHead\<close>\<close>

record mutex =
  m_state :: mword
  m_waiters :: "nat option"

record mutex_sys = mutex +
  m_next :: "nat \<Rightarrow> nat option"
  m_pc :: "nat \<Rightarrow> mutex_pc"
  m_offline :: "nat list"   \<comment> \<open>coroutines whose thread called \<open>rcu_offline\<close>, latest first\<close>

definition mutex_init :: mutex_sys where
  "mutex_init = \<lparr>m_state = Self, m_waiters = None, m_next = (\<lambda>_. None),
     m_pc = (\<lambda>_. M_Idle), m_offline = []\<rparr>"

fun as_awaiter :: "mword \<Rightarrow> nat option" where
  "as_awaiter (Aw a) = Some a"
| "as_awaiter Null = None"
| "as_awaiter Self = None"

abbreviation m_goto :: "nat \<Rightarrow> mutex_pc \<Rightarrow> mutex_sys \<Rightarrow> mutex_sys" where
  "m_goto t p s \<equiv> s\<lparr>m_pc := (m_pc s)(t := p)\<rparr>"

section \<open>Operations\<close>

definition tryLock :: "'a mutex_scheme \<Rightarrow> bool \<times> 'a mutex_scheme" where
  "tryLock m = (let (ok, st, _) = cas_strong (m_state m) Self Null in (ok, m\<lparr>m_state := st\<rparr>))"

definition lock_await_ready :: "nat \<Rightarrow> mutex_sys \<Rightarrow> mutex_sys outcome" where
  "lock_await_ready t s =
     (let (ok, s') = tryLock s in Next (m_goto t (if ok then M_Owner else M_Load) s'))"

definition lock_async_load :: "nat \<Rightarrow> mutex_sys \<Rightarrow> mutex_sys outcome" where
  "lock_async_load t s = Next (m_goto t (M_Loop (m_state s)) s)"

definition lock_async_loop :: "nat \<Rightarrow> mword \<Rightarrow> bool \<Rightarrow> mutex_sys \<Rightarrow> mutex_sys outcome" where
  "lock_async_loop t old spurious s =
     (if old = Self then
        (let (ok, st, old') = cas_weak spurious (m_state s) old Null
         in Next (m_goto t (if ok then M_Owner else M_Loop old') (s\<lparr>m_state := st\<rparr>)))
      else
        (let s1 = s\<lparr>m_next := (m_next s)(t := as_awaiter old)\<rparr>;
             (ok, st, old') = cas_weak spurious (m_state s1) old (Aw t)
         in if ok then Next (m_goto t M_Parked (s1\<lparr>m_state := st, m_offline := t # m_offline s1\<rparr>))
            else Next (m_goto t (M_Loop old') (s1\<lparr>m_state := st\<rparr>))))"

text \<open>An awaiter may be read or written while its coroutine is suspended on it.\<close>

abbreviation m_live :: "mutex_sys \<Rightarrow> nat \<Rightarrow> bool" where
  "m_live s a \<equiv> m_pc s a = M_Parked"

definition unlock_enter :: "nat \<Rightarrow> mutex_sys \<Rightarrow> mutex_sys outcome" where
  "unlock_enter t s =
     (if m_state s = Self then Fault AssertFailed
      else Next (m_goto t (if m_waiters s = None then M_ULoad else M_UHand (m_waiters s)) s))"

definition unlock_load :: "nat \<Rightarrow> mutex_sys \<Rightarrow> mutex_sys outcome" where
  "unlock_load t s = Next (m_goto t (if m_state s = Null then M_UCas else M_UXchg) s)"

definition unlock_cas :: "nat \<Rightarrow> mutex_sys \<Rightarrow> mutex_sys outcome" where
  "unlock_cas t s =
     (let (released, st, _) = cas_strong (m_state s) Null Self
      in Next (m_goto t (if released then M_Idle else M_UXchg) (s\<lparr>m_state := st\<rparr>)))"

definition unlock_xchg :: "nat \<Rightarrow> mutex_sys \<Rightarrow> mutex_sys outcome" where
  "unlock_xchg t s =
     (let (cur, st) = xchg (m_state s) Null; s1 = s\<lparr>m_state := st\<rparr>
      in case cur of
           Self \<Rightarrow> Fault AssertFailed
         | Null \<Rightarrow> Fault AssertFailed
         | Aw a \<Rightarrow> Next (m_goto t (M_URev a (m_waiters s1)) s1))"

definition unlock_reverse :: "nat \<Rightarrow> nat \<Rightarrow> nat option \<Rightarrow> mutex_sys \<Rightarrow> mutex_sys outcome" where
  "unlock_reverse t waiter waitersHead s =
     (if \<not> m_live s waiter then Fault UseAfterFree
      else let temp = m_next s waiter;
               s1 = s\<lparr>m_next := (m_next s)(waiter := waitersHead)\<rparr>
           in Next (m_goto t (case temp of None \<Rightarrow> M_UHand (Some waiter)
                                         | Some w \<Rightarrow> M_URev w (Some waiter)) s1))"

definition unlock_handover :: "nat \<Rightarrow> nat option \<Rightarrow> mutex_sys \<Rightarrow> mutex_sys outcome" where
  "unlock_handover t waitersHead s =
     (case waitersHead of
        None \<Rightarrow> Fault AssertFailed
      | Some h \<Rightarrow>
          if \<not> m_live s h then Fault UseAfterFree
          else let s1 = m_goto t M_Idle (s\<lparr>m_waiters := m_next s h\<rparr>)
               in Next (m_goto h M_Owner s1))"

text \<open>
  The events of the machine: a coroutine that is idle calls \<open>co_await coLock()\<close> (or
  \<open>coScopedLock()\<close>, whose awaiter is the same) or \<open>tryLock()\<close>, the coroutine that owns the
  lock calls \<open>unlock()\<close>, or a coroutine inside an operation takes its next atomic step (the flag
  makes a weak compare-exchange fail spuriously).
\<close>

datatype mutex_event = CoLock nat | TryLock nat | Unlock nat | MStep nat bool

fun mutex_step :: "nat \<Rightarrow> bool \<Rightarrow> mutex_pc \<Rightarrow> mutex_sys \<Rightarrow> mutex_sys outcome" where
  "mutex_step t b M_Idle s = Blocked"
| "mutex_step t b M_Ready s = lock_await_ready t s"
| "mutex_step t b M_Load s = lock_async_load t s"
| "mutex_step t b (M_Loop old) s = lock_async_loop t old b s"
| "mutex_step t b M_Parked s = Blocked"
| "mutex_step t b M_Owner s = Blocked"
| "mutex_step t b M_Unlock s = unlock_enter t s"
| "mutex_step t b M_ULoad s = unlock_load t s"
| "mutex_step t b M_UCas s = unlock_cas t s"
| "mutex_step t b M_UXchg s = unlock_xchg t s"
| "mutex_step t b (M_URev w h) s = unlock_reverse t w h s"
| "mutex_step t b (M_UHand h) s = unlock_handover t h s"

fun mutex_exec :: "mutex_event \<Rightarrow> mutex_sys \<Rightarrow> mutex_sys outcome" where
  "mutex_exec (CoLock t) s = (if m_pc s t = M_Idle then Next (m_goto t M_Ready s) else Blocked)"
| "mutex_exec (TryLock t) s =
     (if m_pc s t = M_Idle then
        (let (ok, s') = tryLock s in Next (m_goto t (if ok then M_Owner else M_Idle) s'))
      else Blocked)"
| "mutex_exec (Unlock t) s = (if m_pc s t = M_Owner then Next (m_goto t M_Unlock s) else Blocked)"
| "mutex_exec (MStep t b) s = mutex_step t b (m_pc s t) s"

lemmas mutex_step_defs =
  lock_await_ready_def lock_async_load_def lock_async_loop_def unlock_enter_def unlock_load_def
  unlock_cas_def unlock_xchg_def unlock_reverse_def unlock_handover_def tryLock_def
  cas_weak_def cas_strong_def xchg_def Let_def

text \<open>A coroutine whose awaiter is queued has taken its core offline.\<close>

lemma mutex_step_park:
  assumes "mutex_step t b (m_pc s t) s = Next s'"
  shows "set (m_offline s) \<subseteq> set (m_offline s')"
    "m_pc s x \<noteq> M_Parked \<Longrightarrow> m_pc s' x = M_Parked \<Longrightarrow> m_offline s' = x # m_offline s"
  using assms by (cases "m_pc s t"; auto simp: mutex_step_defs split: if_splits option.splits mword.splits)+

interpretation mutex_park: parking_machine mutex_init mutex_exec "\<lambda>s t. m_pc s t = M_Parked" m_offline
proof
  fix e s s' t assume "mutex_exec e s = Next s'" "m_pc s t \<noteq> M_Parked" "m_pc s' t = M_Parked"
  then show "m_offline s' = t # m_offline s"
    using mutex_step_park(2) by (cases e) (fastforce simp: tryLock_def Let_def split: if_splits prod.splits)+
next
  fix e s s' assume "mutex_exec e s = Next s'"
  then show "set (m_offline s) \<subseteq> set (m_offline s')"
    using mutex_step_park(1) by (cases e) (auto simp: tryLock_def Let_def split: if_splits prod.splits)
qed (simp add: mutex_init_def)

text \<open>The assertions of the destructor.\<close>

definition mutex_destroy :: "'a mutex_scheme \<Rightarrow> 'a mutex_scheme outcome" where
  "mutex_destroy m =
     (if m_state m \<noteq> Self \<and> m_state m \<noteq> Null then Fault AssertFailed
      else if m_waiters m \<noteq> None then Fault AssertFailed
      else Next m)"

section \<open>The abstract lock: an owner and a FIFO queue\<close>

record fifo_lock =
  fl_owner :: "nat option"
  fl_queue :: "nat list"

definition fifo_init :: fifo_lock where
  "fifo_init = \<lparr>fl_owner = None, fl_queue = []\<rparr>"

inductive fifo_step :: "fifo_lock \<Rightarrow> fifo_lock \<Rightarrow> bool" where
  fifo_acquire: "fl_owner a = None \<Longrightarrow> fl_queue a = [] \<Longrightarrow>
    fifo_step a (a\<lparr>fl_owner := Some t\<rparr>)"
| fifo_enqueue: "fl_owner a = Some o' \<Longrightarrow> t \<noteq> o' \<Longrightarrow> t \<notin> set (fl_queue a) \<Longrightarrow>
    fifo_step a (a\<lparr>fl_queue := fl_queue a @ [t]\<rparr>)"
| fifo_handover: "fl_owner a = Some o' \<Longrightarrow> fl_queue a = h # q \<Longrightarrow>
    fifo_step a (a\<lparr>fl_owner := Some h, fl_queue := q\<rparr>)"
| fifo_release: "fl_owner a = Some o' \<Longrightarrow> fl_queue a = [] \<Longrightarrow>
    fifo_step a (a\<lparr>fl_owner := None\<rparr>)"

lemma fifo_step_order:
  assumes "fifo_step a a'" and "fl_queue a = us @ x # vs @ y # ws"
    and "distinct (fl_queue a)" and "fl_owner a \<noteq> Some y"
  shows "fl_owner a' \<noteq> Some y \<and>
    (fl_owner a' = Some x \<or> (\<exists>us' ws'. fl_queue a' = us' @ x # vs @ y # ws'))"
  using assms(1)
proof cases
  case (fifo_acquire t)
  with assms(2) show ?thesis by simp
next
  case (fifo_enqueue o' t)
  then have "fl_queue a' = us @ x # vs @ y # (ws @ [t])" using assms(2) by simp
  then show ?thesis using fifo_enqueue assms(4) by auto
next
  case (fifo_handover o' h q)
  show ?thesis
  proof (cases us)
    case Nil
    with fifo_handover assms(2,3) show ?thesis by auto
  next
    case (Cons u us')
    with fifo_handover assms(2,3) have "fl_queue a' = us' @ x # vs @ y # ws"
      "fl_owner a' = Some u" "u \<noteq> y" by auto
    then show ?thesis by auto
  qed
next
  case (fifo_release o')
  with assms(2) show ?thesis by simp
qed

text \<open>A coroutine owns the lock from its acquisition to the end of its \<open>unlock\<close>.\<close>

fun m_owns :: "mutex_pc \<Rightarrow> bool" where
  "m_owns M_Idle = False"
| "m_owns M_Ready = False"
| "m_owns M_Load = False"
| "m_owns (M_Loop _) = False"
| "m_owns M_Parked = False"
| "m_owns M_Owner = True"
| "m_owns M_Unlock = True"
| "m_owns M_ULoad = True"
| "m_owns M_UCas = True"
| "m_owns M_UXchg = True"
| "m_owns (M_URev _ _) = True"
| "m_owns (M_UHand _) = True"

text \<open>
  What the owner knows of the waiters taken from \<open>_state\<close> so far: \<open>fifo\<close> is their order.
\<close>

fun m_taken :: "mutex_sys \<Rightarrow> mutex_pc \<Rightarrow> nat list \<Rightarrow> bool" where
  "m_taken s M_ULoad fifo \<longleftrightarrow> m_waiters s = None \<and> fifo = []"
| "m_taken s M_UCas fifo \<longleftrightarrow> m_waiters s = None \<and> fifo = []"
| "m_taken s M_UXchg fifo \<longleftrightarrow> m_waiters s = None \<and> fifo = [] \<and> m_state s \<noteq> Null"
| "m_taken s (M_URev w h) fifo \<longleftrightarrow> m_waiters s = None \<and>
     (\<exists>pending rest. chain (m_next s) (Some w) pending \<and> chain (m_next s) h rest \<and>
        fifo = rev pending @ rest)"
| "m_taken s (M_UHand h) fifo \<longleftrightarrow> chain (m_next s) h fifo \<and> fifo \<noteq> []"
| "m_taken s _ fifo \<longleftrightarrow> chain (m_next s) (m_waiters s) fifo"

definition mutex_rep :: "mutex_sys \<Rightarrow> fifo_lock \<Rightarrow> bool" where
  "mutex_rep s a \<longleftrightarrow>
     (\<exists>stk fifo. chain (m_next s) (as_awaiter (m_state s)) stk \<and>
        (case fl_owner a of
           None \<Rightarrow> m_state s = Self \<and> m_waiters s = None \<and> fifo = []
         | Some t \<Rightarrow> m_state s \<noteq> Self \<and> m_taken s (m_pc s t) fifo) \<and>
        fl_queue a = fifo @ rev stk \<and> distinct (fl_queue a) \<and>
        set (fl_queue a) = {t. m_pc s t = M_Parked}) \<and>
     (\<forall>t. m_owns (m_pc s t) \<longleftrightarrow> fl_owner a = Some t)"

text \<open>What a whole \<open>unlock\<close> does to the abstract lock.\<close>

definition fifo_unlock :: "fifo_lock \<Rightarrow> fifo_lock" where
  "fifo_unlock a = (case fl_queue a of
      [] \<Rightarrow> a\<lparr>fl_owner := None\<rparr>
    | h # q \<Rightarrow> a\<lparr>fl_owner := Some h, fl_queue := q\<rparr>)"

lemma fifo_step_unlock: "fl_owner a = Some t \<Longrightarrow> fifo_step a (fifo_unlock a)"
  by (auto simp: fifo_unlock_def split: list.split intro: fifo_step.intros)

section \<open>The representation is kept by every step\<close>

lemma mutex_rep_init: "mutex_rep mutex_init fifo_init"
  by (auto simp: mutex_rep_def mutex_init_def fifo_init_def)

lemma mutex_repE:
  assumes "mutex_rep s a"
  obtains stk fifo where "chain (m_next s) (as_awaiter (m_state s)) stk"
    "fl_queue a = fifo @ rev stk" "distinct (fifo @ rev stk)"
    "\<And>t. m_pc s t = M_Parked \<longleftrightarrow> t \<in> set fifo \<or> t \<in> set stk"
    "\<And>t. m_owns (m_pc s t) \<longleftrightarrow> fl_owner a = Some t"
    "fl_owner a = None \<Longrightarrow> m_state s = Self \<and> m_waiters s = None \<and> fifo = []"
    "\<And>t. fl_owner a = Some t \<Longrightarrow> m_state s \<noteq> Self \<and> m_taken s (m_pc s t) fifo"
  using assms unfolding mutex_rep_def by (force split: option.splits)

lemma mutex_repI:
  assumes "chain (m_next s) (as_awaiter (m_state s)) stk"
    "fl_queue a = fifo @ rev stk" "distinct (fifo @ rev stk)"
    "\<And>t. m_pc s t = M_Parked \<longleftrightarrow> t \<in> set fifo \<or> t \<in> set stk"
    "\<And>t. m_owns (m_pc s t) \<longleftrightarrow> fl_owner a = Some t"
    "fl_owner a = None \<Longrightarrow> m_state s = Self \<and> m_waiters s = None \<and> fifo = []"
    "\<And>t. fl_owner a = Some t \<Longrightarrow> m_state s \<noteq> Self \<and> m_taken s (m_pc s t) fifo"
  shows "mutex_rep s a"
  unfolding mutex_rep_def
proof (intro conjI exI)
  show "chain (m_next s) (as_awaiter (m_state s)) stk" by fact
  show "fl_queue a = fifo @ rev stk" by fact
qed (use assms in \<open>auto split: option.splits\<close>)

lemma m_taken_cong:
  assumes "m_waiters s' = m_waiters s" "\<And>x. x \<noteq> u \<Longrightarrow> m_next s' x = m_next s x"
   "m_state s' \<noteq> Null \<or> m_state s = Null" "u \<notin> set fifo"
  shows "m_taken s p fifo \<Longrightarrow> m_taken s' p fifo"
proof -
  have "m_next s' = (m_next s)(u := m_next s' u)" using assms(2) by auto
  then obtain v where v: "m_next s' = (m_next s)(u := v)" by blast
  assume "m_taken s p fifo" 
  then show ?thesis
  proof (cases p)
    case (M_URev w h)
    with \<open>m_taken s p fifo\<close> obtain pending rest where
      "m_waiters s = None" "chain (m_next s) (Some w) pending" "chain (m_next s) h rest"
      "fifo = rev pending @ rest" by auto
    moreover from this assms(4) have "u \<notin> set pending" "u \<notin> set rest" by auto
    ultimately have "chain (m_next s') (Some w) pending" "chain (m_next s') h rest"
      by (auto simp: v)
    with \<open>fifo = _\<close> \<open>m_waiters s = None\<close> assms(1) M_URev show ?thesis by auto
  qed (use assms(1,3,4) in \<open>auto simp: v\<close>)
qed

text \<open>A coroutine that neither owns nor waits may move and write its own awaiter.\<close>

lemma mutex_rep_outside:
  assumes rep: "mutex_rep s a"
    and "\<not> m_owns (m_pc s t)" "m_pc s t \<noteq> M_Parked" "\<not> m_owns p" "p \<noteq> M_Parked"
  shows "mutex_rep (m_goto t p (s\<lparr>m_next := (m_next s)(t := v)\<rparr>)) a"
  using rep
proof (rule mutex_repE)
  fix stk fifo
  assume *: "chain (m_next s) (as_awaiter (m_state s)) stk"
    "fl_queue a = fifo @ rev stk" "distinct (fifo @ rev stk)"
    "\<And>t. m_pc s t = M_Parked \<longleftrightarrow> t \<in> set fifo \<or> t \<in> set stk"
    "\<And>t. m_owns (m_pc s t) \<longleftrightarrow> fl_owner a = Some t"
    "fl_owner a = None \<Longrightarrow> m_state s = Self \<and> m_waiters s = None \<and> fifo = []"
    "\<And>t. fl_owner a = Some t \<Longrightarrow> m_state s \<noteq> Self \<and> m_taken s (m_pc s t) fifo"
  have t: "t \<notin> set fifo" "t \<notin> set stk" using *(4) [of t] assms(3) by auto
  show ?thesis
  proof (rule mutex_repI [where stk = stk and fifo = fifo])
    fix o' assume o: "fl_owner a = Some o'"
    then have "o' \<noteq> t" using *(5) assms(2) by auto
    with *(7) [OF o] t show "m_state (m_goto t p (s\<lparr>m_next := (m_next s)(t := v)\<rparr>)) \<noteq> Self \<and>
        m_taken (m_goto t p (s\<lparr>m_next := (m_next s)(t := v)\<rparr>)) (m_pc (m_goto t p (s\<lparr>m_next := (m_next s)(t := v)\<rparr>)) o') fifo"
     by (auto intro: m_taken_cong [of _ s t])
  qed (use * t assms(2-) in auto)
qed

lemma mutex_rep_outside_pc:
  assumes "mutex_rep s a" "\<not> m_owns (m_pc s t)" "m_pc s t \<noteq> M_Parked"
    "\<not> m_owns p" "p \<noteq> M_Parked"
  shows "mutex_rep (m_goto t p s) a"
  using mutex_rep_outside [OF assms, of "m_next s t"] by simp

lemma mutex_repD:
  assumes "mutex_rep s a"
  shows "m_owns (m_pc s t) \<longleftrightarrow> fl_owner a = Some t"
    and "m_pc s t = M_Parked \<longleftrightarrow> t \<in> set (fl_queue a)"
    and "m_state s = Self \<longleftrightarrow> fl_owner a = None"
  using assms by (rule mutex_repE, force)+

lemma mutex_rep_ownerE:
  assumes "mutex_rep s a" "m_owns (m_pc s t)"
  obtains stk fifo where "m_taken s (m_pc s t) fifo" "m_state s \<noteq> Self"
    "chain (m_next s) (as_awaiter (m_state s)) stk" "fl_queue a = fifo @ rev stk"
    "fl_owner a = Some t" "distinct (fifo @ rev stk)"
    "\<And>x. m_pc s x = M_Parked \<longleftrightarrow> x \<in> set fifo \<or> x \<in> set stk"
    "\<And>x. m_owns (m_pc s x) \<longleftrightarrow> x = t"
  using assms(1)
proof (rule mutex_repE)
  fix stk fifo
  assume *: "chain (m_next s) (as_awaiter (m_state s)) stk"
    "fl_queue a = fifo @ rev stk" "distinct (fifo @ rev stk)"
    "\<And>t. m_pc s t = M_Parked \<longleftrightarrow> t \<in> set fifo \<or> t \<in> set stk"
    "\<And>t. m_owns (m_pc s t) \<longleftrightarrow> fl_owner a = Some t"
    "\<And>t. fl_owner a = Some t \<Longrightarrow> m_state s \<noteq> Self \<and> m_taken s (m_pc s t) fifo"
  from *(5) assms(2) have o: "fl_owner a = Some t" by simp
  have owns: "m_owns (m_pc s x) \<longleftrightarrow> x = t" for x using *(5) [of x] o by auto
  from *(6) [OF o] show ?thesis
    by (intro that [where stk = stk and fifo = fifo]) (use * o owns in auto)
qed

lemma mutex_rep_acquire:
  assumes rep: "mutex_rep s a" and free: "m_state s = Self"
    and t: "\<not> m_owns (m_pc s t)" "m_pc s t \<noteq> M_Parked"
  shows "mutex_rep (m_goto t M_Owner (s\<lparr>m_state := Null\<rparr>)) (a\<lparr>fl_owner := Some t\<rparr>)"
    and "fifo_step a (a\<lparr>fl_owner := Some t\<rparr>)"
proof -
  from mutex_repD(3) [OF rep] free have no: "fl_owner a = None" by simp
  with rep have "fl_queue a = []" using free by (auto elim!: mutex_repE)
  with no show "fifo_step a (a\<lparr>fl_owner := Some t\<rparr>)" by (rule fifo_acquire)
  from rep show "mutex_rep (m_goto t M_Owner (s\<lparr>m_state := Null\<rparr>)) (a\<lparr>fl_owner := Some t\<rparr>)"
  proof (rule mutex_repE)
    fix stk fifo
    assume *: "chain (m_next s) (as_awaiter (m_state s)) stk"
      "fl_queue a = fifo @ rev stk" "distinct (fifo @ rev stk)"
      "\<And>t. m_pc s t = M_Parked \<longleftrightarrow> t \<in> set fifo \<or> t \<in> set stk"
      "\<And>t. m_owns (m_pc s t) \<longleftrightarrow> fl_owner a = Some t"
      "fl_owner a = None \<Longrightarrow> m_state s = Self \<and> m_waiters s = None \<and> fifo = []"
    have "fifo = []" "stk = []" "m_waiters s = None" using * no free by auto
    then show ?thesis
      by (intro mutex_repI [where stk = "[]" and fifo = "[]"]) (use * no t in auto)
  qed
qed

lemma mutex_rep_enqueue:
  assumes rep: "mutex_rep s a" and locked: "m_state s \<noteq> Self"
    and t: "\<not> m_owns (m_pc s t)" "m_pc s t \<noteq> M_Parked"
  shows "mutex_rep (m_goto t M_Parked (s\<lparr>m_next := (m_next s)(t := as_awaiter (m_state s)),
            m_state := Aw t, m_offline := os\<rparr>)) (a\<lparr>fl_queue := fl_queue a @ [t]\<rparr>)"
    and "fifo_step a (a\<lparr>fl_queue := fl_queue a @ [t]\<rparr>)"
proof -
  from mutex_repD(3) [OF rep] locked obtain o' where o': "fl_owner a = Some o'" by auto
  have "t \<noteq> o'" using mutex_repD(1) [OF rep] t(1) o' by auto
  moreover have "t \<notin> set (fl_queue a)" using mutex_repD(2) [OF rep] t(2) by auto
  ultimately show "fifo_step a (a\<lparr>fl_queue := fl_queue a @ [t]\<rparr>)"
    using o' by (intro fifo_enqueue)
  from rep show "mutex_rep (m_goto t M_Parked (s\<lparr>m_next := (m_next s)(t := as_awaiter (m_state s)),
            m_state := Aw t, m_offline := os\<rparr>)) (a\<lparr>fl_queue := fl_queue a @ [t]\<rparr>)" (is "mutex_rep ?s ?a")
  proof (rule mutex_repE)
    fix stk fifo
    assume *: "chain (m_next s) (as_awaiter (m_state s)) stk"
      "fl_queue a = fifo @ rev stk" "distinct (fifo @ rev stk)"
      "\<And>t. m_pc s t = M_Parked \<longleftrightarrow> t \<in> set fifo \<or> t \<in> set stk"
      "\<And>t. m_owns (m_pc s t) \<longleftrightarrow> fl_owner a = Some t"
      "\<And>t. fl_owner a = Some t \<Longrightarrow> m_state s \<noteq> Self \<and> m_taken s (m_pc s t) fifo"
    have new: "t \<notin> set fifo" "t \<notin> set stk" using *(4) [of t] t by auto
    have "m_taken ?s (m_pc s o') fifo"
      using *(6) [OF o'] new by (auto intro: m_taken_cong [of _ s t])
    with o' \<open>t \<noteq> o'\<close> have taken: "\<And>x. fl_owner a = Some x \<Longrightarrow> m_taken ?s (m_pc ?s x) fifo" by auto
    show ?thesis
    proof (rule mutex_repI [where stk = "t # stk" and fifo = fifo])
      show "chain (m_next ?s) (as_awaiter (m_state ?s)) (t # stk)"
        using *(1) new by simp
      show "\<And>x. fl_owner ?a = Some x \<Longrightarrow> m_state ?s \<noteq> Self \<and> m_taken ?s (m_pc ?s x) fifo"
        using taken by simp
    qed (use * new t o' in auto)
  qed
qed

text \<open>The owner moves inside \<open>unlock\<close> without changing the queue.\<close>

lemma mutex_rep_owner:
  assumes rep: "mutex_rep s a" and t: "m_owns (m_pc s t)" and p: "m_owns p"
   and st: "\<And>stk fifo. chain (m_next s) (as_awaiter (m_state s)) stk \<Longrightarrow>
     m_state s \<noteq> Self \<Longrightarrow> m_taken s (m_pc s t) fifo \<Longrightarrow> distinct (fifo @ rev stk) \<Longrightarrow>
     \<exists>stk' fifo'. chain (m_next s') (as_awaiter (m_state s')) stk' \<and> m_state s' \<noteq> Self \<and>
       m_taken s' p fifo' \<and> fifo' @ rev stk' = fifo @ rev stk"
   and pc: "m_pc s' = (m_pc s)(t := p)"
  shows "mutex_rep s' a"
  using rep
proof (rule mutex_repE)
    fix stk fifo
    assume *: "chain (m_next s) (as_awaiter (m_state s)) stk"
      "fl_queue a = fifo @ rev stk" "distinct (fifo @ rev stk)"
      "\<And>t. m_pc s t = M_Parked \<longleftrightarrow> t \<in> set fifo \<or> t \<in> set stk"
      "\<And>t. m_owns (m_pc s t) \<longleftrightarrow> fl_owner a = Some t"
      "\<And>t. fl_owner a = Some t \<Longrightarrow> m_state s \<noteq> Self \<and> m_taken s (m_pc s t) fifo"
   from t *(5) have o: "fl_owner a = Some t" by simp
   from st [OF *(1) _ _ *(3)] *(6) [OF o] obtain stk' fifo' where
     n: "chain (m_next s') (as_awaiter (m_state s')) stk'" "m_state s' \<noteq> Self"
       "m_taken s' p fifo'" "fifo' @ rev stk' = fifo @ rev stk" by blast
   have "set fifo' \<union> set stk' = set fifo \<union> set stk"
     using n(4) by (metis set_append set_rev)
   then have mem: "\<And>x. x \<in> set fifo' \<or> x \<in> set stk' \<longleftrightarrow> x \<in> set fifo \<or> x \<in> set stk" by auto
   show ?thesis
   proof (rule mutex_repI [where stk = stk' and fifo = fifo'])
     fix x
     have "p \<noteq> M_Parked" "m_pc s t \<noteq> M_Parked" using p t by auto
     then show "m_pc s' x = M_Parked \<longleftrightarrow> x \<in> set fifo' \<or> x \<in> set stk'"
       unfolding mem using *(4) [of x] pc by (cases "x = t") auto
   next
     show "fl_queue a = fifo' @ rev stk'" by (simp only: n(4) *(2))
     show "distinct (fifo' @ rev stk')" by (simp only: n(4) *(3))
     fix x
     show "m_owns (m_pc s' x) \<longleftrightarrow> fl_owner a = Some x"
       using *(5) [of x] o p pc by (cases "x = t") auto
   qed (use n(1-3) o pc in auto)
qed

lemma unlock_enter_rep:
  assumes "mutex_rep s a" "m_pc s t = M_Unlock" "unlock_enter t s = Next s'"
  shows "mutex_rep s' a"
proof (rule mutex_rep_owner [OF assms(1)])
  show "m_owns (if m_waiters s = None then M_ULoad else M_UHand (m_waiters s))" by simp
  fix stk fifo assume "chain (m_next s) (as_awaiter (m_state s)) stk" "m_state s \<noteq> Self" "m_taken s (m_pc s t) fifo"
  with assms(2,3) show "\<exists>stk' fifo'. chain (m_next s') (as_awaiter (m_state s')) stk' \<and> m_state s' \<noteq> Self \<and>
       m_taken s' (if m_waiters s = None then M_ULoad else M_UHand (m_waiters s)) fifo' \<and> fifo' @ rev stk' = fifo @ rev stk"
   by (intro exI [of _ stk] exI [of _ fifo]) (auto simp: unlock_enter_def chain_Some)
qed (use assms in \<open>auto simp: unlock_enter_def split: if_splits\<close>)

lemma unlock_load_rep:
  assumes "mutex_rep s a" "m_pc s t = M_ULoad" "unlock_load t s = Next s'"
  shows "mutex_rep s' a"
proof (rule mutex_rep_owner [OF assms(1)])
  show "m_owns (if m_state s = Null then M_UCas else M_UXchg)" by simp
  fix stk fifo assume "chain (m_next s) (as_awaiter (m_state s)) stk" "m_state s \<noteq> Self" "m_taken s (m_pc s t) fifo"
  with assms(2,3) show "\<exists>stk' fifo'. chain (m_next s') (as_awaiter (m_state s')) stk' \<and> m_state s' \<noteq> Self \<and>
       m_taken s' (if m_state s = Null then M_UCas else M_UXchg) fifo' \<and> fifo' @ rev stk' = fifo @ rev stk"
   by (intro exI [of _ stk] exI [of _ fifo]) (auto simp: unlock_load_def)
qed (use assms in \<open>auto simp: unlock_load_def\<close>)

lemma unlock_cas_rep:
  assumes rep: "mutex_rep s a" and t: "m_pc s t = M_UCas" and s': "unlock_cas t s = Next s'"
  shows "m_state s \<noteq> Null \<Longrightarrow> mutex_rep s' a"
    and "m_state s = Null \<Longrightarrow> fl_owner a = Some t \<and> mutex_rep s' (fifo_unlock a)"
proof -
  assume False: "m_state s \<noteq> Null"
  show "mutex_rep s' a"
  proof (rule mutex_rep_owner [OF rep])
    fix stk fifo assume "chain (m_next s) (as_awaiter (m_state s)) stk" "m_state s \<noteq> Self" "m_taken s (m_pc s t) fifo"
    with False t s' show "\<exists>stk' fifo'. chain (m_next s') (as_awaiter (m_state s')) stk' \<and> m_state s' \<noteq> Self \<and>
       m_taken s' M_UXchg fifo' \<and> fifo' @ rev stk' = fifo @ rev stk"
      by (intro exI [of _ stk] exI [of _ fifo]) (auto simp: unlock_cas_def atomic_defs)
  qed (use t s' False in \<open>auto simp: unlock_cas_def atomic_defs\<close>)
next
  assume True: "m_state s = Null"
  have owns: "m_owns (m_pc s t)" using t by simp
  from rep owns show "fl_owner a = Some t \<and> mutex_rep s' (fifo_unlock a)"
  proof (rule mutex_rep_ownerE)
    fix stk fifo
    assume *: "chain (m_next s) (as_awaiter (m_state s)) stk" "m_taken s (m_pc s t) fifo"
      "fl_queue a = fifo @ rev stk" "fl_owner a = Some t"
      "\<And>x. m_pc s x = M_Parked \<longleftrightarrow> x \<in> set fifo \<or> x \<in> set stk"
      "\<And>x. m_owns (m_pc s x) \<longleftrightarrow> x = t"
    have e: "fifo = []" "stk = []" "m_waiters s = None" using *(1,2) True t by auto
    have "mutex_rep s' (fifo_unlock a)"
      by (rule mutex_repI [where stk = "[]" and fifo = "[]"])
        (use * e t s' True in
         \<open>auto simp: unlock_cas_def atomic_defs fifo_unlock_def split: if_splits\<close>)
    with *(4) show ?thesis by blast
  qed
qed

lemma unlock_xchg_rep:
  assumes rep: "mutex_rep s a" and t: "m_pc s t = M_UXchg"
  shows "unlock_xchg t s \<noteq> Fault f"
    and "unlock_xchg t s = Next s' \<Longrightarrow> mutex_rep s' a"
proof -
  have "m_owns (m_pc s t)" using t by simp
  with rep obtain fifo where "m_taken s (m_pc s t) fifo" "m_state s \<noteq> Self"
    by (rule mutex_rep_ownerE)
  with t obtain w where w: "m_state s = Aw w" "m_waiters s = None"
    by (cases "m_state s") auto
  then show "unlock_xchg t s \<noteq> Fault f" by (auto simp: unlock_xchg_def atomic_defs)
  assume s': "unlock_xchg t s = Next s'"
  show "mutex_rep s' a"
  proof (rule mutex_rep_owner [OF rep])
    fix stk fifo assume "chain (m_next s) (as_awaiter (m_state s)) stk" "m_taken s (m_pc s t) fifo"
    with w t s' show "\<exists>stk' fifo'. chain (m_next s') (as_awaiter (m_state s')) stk' \<and> m_state s' \<noteq> Self \<and>
       m_taken s' (M_URev w None) fifo' \<and> fifo' @ rev stk' = fifo @ rev stk"
      by (intro exI [of _ "[]"] exI [of _ "rev stk"])
        (auto simp: unlock_xchg_def atomic_defs)
  qed (use w t s' in \<open>auto simp: unlock_xchg_def atomic_defs\<close>)
qed

lemma unlock_reverse_rep:
  assumes rep: "mutex_rep s a" and t: "m_pc s t = M_URev w h"
  shows "unlock_reverse t w h s \<noteq> Fault f"
    and "unlock_reverse t w h s = Next s' \<Longrightarrow> mutex_rep s' a"
proof -
  from rep t have live: "m_pc s w = M_Parked"
    by (auto elim!: mutex_rep_ownerE [of s a t] simp: chain_Some)
  then show "unlock_reverse t w h s \<noteq> Fault f" by (auto simp: unlock_reverse_def Let_def)
  assume s': "unlock_reverse t w h s = Next s'"
  define p where "p = (case m_next s w of None \<Rightarrow> M_UHand (Some w) | Some v \<Rightarrow> M_URev v (Some w))"
  have s'_eq: "s' = m_goto t p (s\<lparr>m_next := (m_next s)(w := h)\<rparr>)"
    using s' live by (simp add: unlock_reverse_def Let_def p_def)
  show "mutex_rep s' a"
  proof (rule mutex_rep_owner [OF rep])
    fix stk fifo
    assume c: "chain (m_next s) (as_awaiter (m_state s)) stk" "m_state s \<noteq> Self"
      and tk: "m_taken s (m_pc s t) fifo" and d: "distinct (fifo @ rev stk)"
    from tk t obtain pending rest where
      pr: "m_waiters s = None" "chain (m_next s) (m_next s w) pending"
        "chain (m_next s) h rest" "fifo = rev pending @ w # rest"
      by (auto simp: chain_Some)
    with d have w: "w \<notin> set pending" "w \<notin> set rest" "w \<notin> set stk" by auto
    have n: "chain (m_next s') (Some w) (w # rest)" "chain (m_next s') (m_next s w) pending"
      using pr w s'_eq by auto
    have "m_taken s' p fifo"
    proof (cases "m_next s w")
      case None
      with n(1) pr show ?thesis by (simp add: p_def)
    next
      case (Some v)
      from pr(4) have "fifo = rev pending @ (w # rest)" by simp
      with n pr(1) Some s'_eq show ?thesis by (simp add: p_def del: chain.simps) blast
    qed
    with c w s'_eq show "\<exists>stk' fifo'. chain (m_next s') (as_awaiter (m_state s')) stk' \<and>
        m_state s' \<noteq> Self \<and> m_taken s' p fifo' \<and> fifo' @ rev stk' = fifo @ rev stk"
      by (intro exI [of _ stk] exI [of _ fifo]) auto
  qed (use t s'_eq in \<open>auto simp: p_def split: option.splits\<close>)
qed

lemma unlock_handover_rep:
  assumes rep: "mutex_rep s a" and t: "m_pc s t = M_UHand h"
  shows "unlock_handover t h s \<noteq> Fault f"
    and "unlock_handover t h s = Next s' \<Longrightarrow>
           fl_owner a = Some t \<and> fl_queue a \<noteq> [] \<and> mutex_rep s' (fifo_unlock a)"
proof -
  from rep t obtain stk fifo where *: "chain (m_next s) h fifo" "fifo \<noteq> []" "m_state s \<noteq> Self"
    "chain (m_next s) (as_awaiter (m_state s)) stk" "fl_queue a = fifo @ rev stk"
    "fl_owner a = Some t" "distinct (fifo @ rev stk)"
    "\<And>x. m_pc s x = M_Parked \<longleftrightarrow> x \<in> set fifo \<or> x \<in> set stk"
    "\<And>x. m_owns (m_pc s x) \<longleftrightarrow> x = t"
    by (auto elim!: mutex_rep_ownerE [of s a t])
  then obtain w rest where w: "h = Some w" "fifo = w # rest" "chain (m_next s) (m_next s w) rest"
    by (cases fifo) auto
  have live: "m_pc s w = M_Parked" using *(8) w by simp
  then show "unlock_handover t h s \<noteq> Fault f" by (auto simp: unlock_handover_def Let_def w)
  assume s': "unlock_handover t h s = Next s'"
  have t': "t \<noteq> w" "t \<notin> set rest" "t \<notin> set stk" using *(8) [of t] w t by auto
  have "mutex_rep s' (fifo_unlock a)"
    by (rule mutex_repI [where stk = stk and fifo = rest])
      (use * w live s' t' in
       \<open>auto simp: unlock_handover_def fifo_unlock_def Let_def split: if_splits\<close>)
  with *(2,5,6) show "fl_owner a = Some t \<and> fl_queue a \<noteq> [] \<and> mutex_rep s' (fifo_unlock a)"
    by simp
qed

lemma unlock_enter_no_fault:
  "mutex_rep s a \<Longrightarrow> m_pc s t = M_Unlock \<Longrightarrow> unlock_enter t s \<noteq> Fault f"
  by (auto elim!: mutex_rep_ownerE [of s a t] simp: unlock_enter_def)


lemma lock_await_ready_rep:
  assumes rep: "mutex_rep s a" and t: "m_pc s t = M_Ready"
    and s': "lock_await_ready t s = Next s'"
  shows "\<exists>a'. (a' = a \<or> fifo_step a a') \<and> mutex_rep s' a'"
proof (cases "m_state s = Self")
  case True
  with s' have "s' = m_goto t M_Owner (s\<lparr>m_state := Null\<rparr>)"
    by (simp add: lock_await_ready_def tryLock_def atomic_defs)
  with mutex_rep_acquire [OF rep True, of t] t show ?thesis by auto
next
  case False
  with s' have "s' = m_goto t M_Load s"
    by (simp add: lock_await_ready_def tryLock_def atomic_defs)
  with mutex_rep_outside_pc [OF rep, of t M_Load] t have "mutex_rep s' a" by simp
  then show ?thesis by blast
qed

lemma lock_async_load_rep:
  assumes rep: "mutex_rep s a" and t: "m_pc s t = M_Load"
    and s': "lock_async_load t s = Next s'"
  shows "mutex_rep s' a"
proof -
  have "s' = m_goto t (M_Loop (m_state s)) s"
    using s' by (simp add: lock_async_load_def)
  with mutex_rep_outside_pc [OF rep, of t] t show ?thesis by simp
qed

lemma lock_async_loop_rep:
  assumes rep: "mutex_rep s a" and t: "m_pc s t = M_Loop old"
    and s': "lock_async_loop t old b s = Next s'"
  shows "\<exists>a'. (a' = a \<or> fifo_step a a') \<and> mutex_rep s' a'"
proof (cases "m_state s = old \<and> \<not> b")
  case True
  show ?thesis
  proof (cases "old = Self")
    case free: True
    with True s' have "s' = m_goto t M_Owner (s\<lparr>m_state := Null\<rparr>)"
      by (simp add: lock_async_loop_def atomic_defs)
    with mutex_rep_acquire [OF rep, of t] True free t show ?thesis by auto
  next
    case False
    with True s' have "s' = m_goto t M_Parked (s\<lparr>m_next := (m_next s)(t := as_awaiter (m_state s)),
            m_state := Aw t, m_offline := t # m_offline s\<rparr>)"
      by (simp add: lock_async_loop_def atomic_defs)
    with mutex_rep_enqueue [OF rep, of t] True False t show ?thesis by auto
  qed
next
  case False
  with s' have "s' = m_goto t (M_Loop (m_state s))
      (s\<lparr>m_next := (m_next s)(t := if old = Self then m_next s t else as_awaiter old)\<rparr>)"
    by (auto simp: lock_async_loop_def atomic_defs split: if_splits)
  with mutex_rep_outside [OF rep, of t "M_Loop (m_state s)"] t have "mutex_rep s' a" by simp
  then show ?thesis by blast
qed

lemma mutex_calls_rep:
  assumes rep: "mutex_rep s a" and s': "mutex_exec e s = Next s'" and e: "\<forall>t b. e \<noteq> MStep t b"
  shows "\<exists>a'. (a' = a \<or> fifo_step a a') \<and> mutex_rep s' a'"
proof (cases e)
  case (CoLock t)
  with s' have "m_pc s t = M_Idle" "s' = m_goto t M_Ready s"
    by (auto split: if_splits)
  with mutex_rep_outside_pc [OF rep, of t M_Ready] have "mutex_rep s' a" by simp
  then show ?thesis by blast
next
  case (TryLock t)
  show ?thesis
  proof (cases "m_state s = Self")
    case True
    with TryLock s' have "m_pc s t = M_Idle" "s' = m_goto t M_Owner (s\<lparr>m_state := Null\<rparr>)"
      by (auto simp: tryLock_def atomic_defs split: if_splits)
    with mutex_rep_acquire [OF rep True, of t] show ?thesis by auto
  next
    case False
    with TryLock s' have "m_pc s t = M_Idle"
       "s' = m_goto t M_Idle s"
      by (auto simp: tryLock_def atomic_defs split: if_splits)
    with mutex_rep_outside_pc [OF rep, of t M_Idle] have "mutex_rep s' a" by simp
    then show ?thesis by blast
  qed
next
  case (Unlock t)
  with s' have t: "m_pc s t = M_Owner" "s' = m_goto t M_Unlock s" by (auto split: if_splits)
  have "mutex_rep s' a"
  proof (rule mutex_rep_owner [OF rep])
    fix stk fifo assume "chain (m_next s) (as_awaiter (m_state s)) stk" "m_state s \<noteq> Self"
      "m_taken s (m_pc s t) fifo"
    with t show "\<exists>stk' fifo'. chain (m_next s') (as_awaiter (m_state s')) stk' \<and> m_state s' \<noteq> Self \<and>
       m_taken s' M_Unlock fifo' \<and> fifo' @ rev stk' = fifo @ rev stk" by auto
  qed (use t in auto)
  then show ?thesis by blast
qed (use e in blast)

lemma unlock_cas_step:
  "mutex_rep s a \<Longrightarrow> m_pc s t = M_UCas \<Longrightarrow> unlock_cas t s = Next s' \<Longrightarrow>
    \<exists>a'. (a' = a \<or> fifo_step a a') \<and> mutex_rep s' a'"
  using unlock_cas_rep fifo_step_unlock by metis

lemma unlock_handover_step:
  "mutex_rep s a \<Longrightarrow> m_pc s t = M_UHand h \<Longrightarrow> unlock_handover t h s = Next s' \<Longrightarrow>
    \<exists>a'. (a' = a \<or> fifo_step a a') \<and> mutex_rep s' a'"
  using unlock_handover_rep(2) fifo_step_unlock by metis

interpretation mutex: refining_machine mutex_init mutex_exec mutex_rep fifo_step fifo_init
proof unfold_locales
  show "mutex_rep mutex_init fifo_init" by (rule mutex_rep_init)
next
  fix s a e s'
  assume rep: "mutex_rep s a" and s': "mutex_exec e s = Next s'"
  show "\<exists>a'. (a' = a \<or> fifo_step a a') \<and> mutex_rep s' a'"
  proof (cases "\<exists>t b. e = MStep t b")
    case True
    then obtain t b where e: "e = MStep t b" by blast
    with s' show ?thesis
      by (cases "m_pc s t")
        (use rep in \<open>auto dest: lock_await_ready_rep lock_async_load_rep lock_async_loop_rep
           unlock_enter_rep unlock_load_rep unlock_cas_step unlock_xchg_rep(2) unlock_reverse_rep(2)
           unlock_handover_step\<close>)
  qed (use mutex_calls_rep [OF rep s'] in blast)
next
  fix s a e f
  assume rep: "mutex_rep s a"
  show "mutex_exec e s \<noteq> Fault f"
  proof (cases e)
    case (MStep t b)
    show ?thesis
      by (cases "m_pc s t")
        (use MStep rep unlock_enter_no_fault unlock_xchg_rep(1) unlock_reverse_rep(1) unlock_handover_rep(1) in
          \<open>auto simp: lock_await_ready_def tryLock_def lock_async_load_def lock_async_loop_def
             unlock_load_def unlock_cas_def atomic_defs Let_def split: if_splits\<close>)
  qed (auto simp: tryLock_def atomic_defs split: if_splits)
qed

section \<open>A whole unlock and a whole coLock, run without interference\<close>

lemma mutex_rep_run:
  assumes "mutex_rep s a" "m_pc s t = M_URev w h" "chain (m_next s) (Some w) pending"
  shows "\<exists>s' h'. run mutex_exec (replicate (length pending) (MStep t False)) s = Next s' \<and>
           m_pc s' t = M_UHand h' \<and> mutex_rep s' a"
  using assms
proof (induction pending arbitrary: s w h)
  case (Cons x pending)
  then have x: "x = w" and rest: "chain (m_next s) (m_next s w) pending" by auto
  obtain s1 where s1: "unlock_reverse t w h s = Next s1"
    using unlock_reverse_rep(1) [OF Cons.prems(1,2)]
    by (cases "unlock_reverse t w h s") (auto simp: unlock_reverse_def Let_def split: if_splits)
  from unlock_reverse_rep(2) [OF Cons.prems(1,2) s1] have rep1: "mutex_rep s1 a" .
  from s1 have s1_eq: "m_next s1 = (m_next s)(w := h)"
    "m_pc s1 t = (case m_next s w of None \<Rightarrow> M_UHand (Some w) | Some v \<Rightarrow> M_URev v (Some w))"
    by (auto simp: unlock_reverse_def Let_def split: if_splits)
  have "w \<notin> set pending" using rest chain_not_in_tail by fast
  with rest s1_eq have rest1: "chain (m_next s1) (m_next s w) pending" by simp
  have step: "mutex_exec (MStep t False) s = Next s1" using Cons.prems(2) s1 by simp
  show ?case
  proof (cases "m_next s w")
    case None
    with rest s1_eq rep1 step show ?thesis by auto
  next
    case (Some v)
    with s1_eq(2) have pc1: "m_pc s1 t = M_URev v (Some w)" by simp
    from rest1 Some have "chain (m_next s1) (Some v) pending" by (simp only:)
    from Cons.IH [OF rep1 pc1 this] step show ?thesis by (auto simp del: mutex_exec.simps)
  qed
qed simp

lemma handover_run:
  assumes "mutex_rep s a" "m_pc s t = M_UHand h"
  shows "\<exists>s'. run mutex_exec [MStep t False] s = Next s' \<and> m_pc s' t = M_Idle \<and>
           mutex_rep s' (fifo_unlock a)"
proof -
  obtain s1 where s1: "unlock_handover t h s = Next s1"
    using unlock_handover_rep(1) [OF assms]
    by (cases "unlock_handover t h s")
      (auto simp: unlock_handover_def Let_def split: option.splits if_splits)
  then obtain w where "h = Some w" "m_pc s w = M_Parked"
    by (auto simp: unlock_handover_def Let_def split: option.splits if_splits)
  with s1 assms(2) have "m_pc s1 t = M_Idle" by (auto simp: unlock_handover_def Let_def)
  with unlock_handover_rep(2) [OF assms s1] s1 assms(2) show ?thesis by auto
qed

lemma xchg_run:
  assumes rep: "mutex_rep s a" and t: "m_pc s t = M_UXchg"
  shows "\<exists>n s'. n \<le> length (fl_queue a) + 2 \<and>
           run mutex_exec (replicate n (MStep t False)) s = Next s' \<and> m_pc s' t = M_Idle \<and>
           mutex_rep s' (fifo_unlock a)"
proof -
  obtain s1 where s1: "unlock_xchg t s = Next s1"
    using unlock_xchg_rep(1) [OF rep t]
    by (cases "unlock_xchg t s") (auto simp: unlock_xchg_def atomic_defs Let_def split: mword.splits)
  then obtain w where w: "m_pc s1 t = M_URev w (m_waiters s)"
    by (auto simp: unlock_xchg_def atomic_defs Let_def split: mword.splits)
  note rep1 = unlock_xchg_rep(2) [OF rep t s1]
  from w have "m_owns (m_pc s1 t)" by simp
  with rep1 obtain stk fifo where q: "m_taken s1 (m_pc s1 t) fifo" "fl_queue a = fifo @ rev stk"
    by (rule mutex_rep_ownerE)
  with w obtain pending rest where p: "chain (m_next s1) (Some w) pending" "fifo = rev pending @ rest"
    by auto
  from mutex_rep_run [OF rep1 w p(1)] obtain s2 h where
    s2: "run mutex_exec (replicate (length pending) (MStep t False)) s1 = Next s2"
      "m_pc s2 t = M_UHand h" "mutex_rep s2 a" by blast
  from handover_run [OF s2(3,2)] obtain s3 where
    s3: "run mutex_exec [MStep t False] s2 = Next s3" "m_pc s3 t = M_Idle"
      "mutex_rep s3 (fifo_unlock a)" by blast
  let ?n = "Suc (length pending) + 1"
  have "run mutex_exec (replicate ?n (MStep t False)) s = Next s3"
    using s1 s2(1) s3(1) t unfolding replicate_add by (simp add: run_append)
  moreover have "?n \<le> length (fl_queue a) + 2" using p(2) q(2) by simp
  ultimately show ?thesis using s3(2,3) by blast
qed

section \<open>Properties\<close>

text \<open>
  Property C2 (mutual exclusion). In every state the mutex can reach under any interleaving of
  atomic steps, at most one coroutine is between its acquisition and the end of its
  \<open>unlock()\<close>.
\<close>
theorem mutex_exclusion:
  assumes "reach mutex_exec mutex_init s" and "m_owns (m_pc s i)" and "m_owns (m_pc s j)"
  shows "i = j"
  using mutex.reach_rep [OF assms(1)] mutex_repD(1) assms(2,3) by (metis option.inject)

theorem mutex_exclusion_witness:
  "{j. m_owns (m_pc (m_goto 3 M_Owner (mutex_init\<lparr>m_state := Null\<rparr>)) j)} = {3}"
proof -
  let ?s = "m_goto 3 M_Owner (mutex_init\<lparr>m_state := Null\<rparr>)"
  have "mutex_exec (TryLock 3) mutex_init = Next ?s"
    by (simp add: mutex_init_def tryLock_def atomic_defs)
  then have r: "reach mutex_exec mutex_init ?s" by (blast intro: reach.intros)
  have o: "m_owns (m_pc ?s 3)" by simp
  show ?thesis using o mutex_exclusion [OF r o] by blast
qed

text \<open>
  Property C16 (no assertion of the mutex fails). No schedule of lock, try-lock, unlock and
  atomic steps, with any pattern of spurious compare-exchange failures, makes an \<open>assert\<close>
  of \<open>unlock\<close> fail, reads a null waiter, touches the awaiter of a coroutine that is no longer
  suspended on it, or resumes a coroutine that is not suspended.
\<close>
theorem mutex_never_faults: "run mutex_exec es mutex_init \<noteq> Fault f"
  by (rule mutex.run_no_fault)

text \<open>
  Property C1 (the mutex is a FIFO lock). Every reachable state of the word \<open>_state\<close>, the
  list \<open>_waiters\<close> and the awaiters represents a state, reachable by the abstract steps
  acquire, enqueue, hand over and release, of a lock with an owner and a FIFO queue.
\<close>
theorem mutex_refines_fifo_lock:
  assumes "reach mutex_exec mutex_init s"
  shows "\<exists>a. reach_spec fifo_step fifo_init a \<and> mutex_rep s a"
  using assms by (rule mutex.reach_rep)

definition mutex_demo :: "mutex_event list" where
  "mutex_demo = [TryLock 0, CoLock 1, MStep 1 False, MStep 1 False, MStep 1 True, MStep 1 False,
     CoLock 2, MStep 2 False, MStep 2 False, MStep 2 False]"

definition mutex_demo_state :: mutex_sys where
  "mutex_demo_state = \<lparr>m_state = Aw 2, m_waiters = None, m_next = (\<lambda>_. None)(2 := Some 1),
     m_pc = (\<lambda>_. M_Idle)(0 := M_Owner, 1 := M_Parked, 2 := M_Parked), m_offline = [2, 1]\<rparr>"

lemma mutex_demo_reach: "reach mutex_exec mutex_init mutex_demo_state"
proof -
  have "run mutex_exec mutex_demo mutex_init = Next mutex_demo_state"
    by (simp add: mutex_demo_def mutex_init_def mutex_demo_state_def mutex_step_defs fun_eq_iff)
  then show ?thesis by (auto intro: run_reach reach.intros)
qed

theorem mutex_refines_fifo_lock_witness:
  "\<exists>a. reach_spec fifo_step fifo_init a \<and> mutex_rep mutex_demo_state a"
  by (rule mutex_refines_fifo_lock [OF mutex_demo_reach])

text \<open>
  Also shown (no waiter is overtaken). If \<open>x\<close> was queued before \<open>y\<close>, one step of the
  machine cannot make \<open>y\<close> the owner, and either \<open>x\<close> becomes the owner or both stay queued
  in this order.
\<close>
theorem mutex_fifo_order:
  assumes "mutex_rep s a" and "mutex_exec e s = Next s'"
    and "fl_queue a = us @ x # vs @ y # ws"
  shows "\<not> m_owns (m_pc s' y) \<and>
    (\<exists>a'. mutex_rep s' a' \<and> (fl_owner a' = Some x \<or> (\<exists>us' ws'. fl_queue a' = us' @ x # vs @ y # ws')))"
proof -
  from mutex.rep_step [OF assms(1,2)] obtain a' where
    a': "a' = a \<or> fifo_step a a'" "mutex_rep s' a'" by blast
  have d: "distinct (fl_queue a)" using assms(1) by (auto elim!: mutex_repE)
  have "m_pc s y = M_Parked" using mutex_repD(2) [OF assms(1)] assms(3) by simp
  then have ne: "fl_owner a \<noteq> Some y" using mutex_repD(1) [OF assms(1), of y] by auto
  from a'(1) fifo_step_order [OF _ assms(3) d ne] ne assms(3)
  have "fl_owner a' \<noteq> Some y \<and>
    (fl_owner a' = Some x \<or> (\<exists>us' ws'. fl_queue a' = us' @ x # vs @ y # ws'))" by auto
  with a'(2) mutex_repD(1) [OF a'(2)] show ?thesis by auto
qed

lemma mutex_demo_rep: "mutex_rep mutex_demo_state \<lparr>fl_owner = Some 0, fl_queue = [1, 2]\<rparr>"
  by (rule mutex_repI [where stk = "[2, 1]" and fifo = "[]"])
    (auto simp: mutex_demo_state_def split: if_splits)

theorem mutex_fifo_order_witness:
  "\<exists>s'. mutex_exec (Unlock 0) mutex_demo_state = Next s' \<and> \<not> m_owns (m_pc s' 2)"
proof -
  have e: "mutex_exec (Unlock 0) mutex_demo_state = Next (m_goto 0 M_Unlock mutex_demo_state)"
    by (simp add: mutex_demo_state_def)
  have q: "fl_queue \<lparr>fl_owner = Some 0, fl_queue = [1, 2]\<rparr> = [] @ 1 # [] @ 2 # []" by simp
  show ?thesis using mutex_fifo_order [OF mutex_demo_rep e q] e by blast
qed

text \<open>
  Also shown (a queued coroutine is never forgotten). Whenever a coroutine is suspended on the
  mutex, some coroutine owns the mutex, and the suspended one is in the queue that the owner's
  \<open>unlock\<close> serves.
\<close>
theorem mutex_no_lost_waiter:
  assumes "reach mutex_exec mutex_init s" and "m_pc s t = M_Parked"
  shows "\<exists>a o'. mutex_rep s a \<and> fl_owner a = Some o' \<and> m_owns (m_pc s o') \<and> t \<in> set (fl_queue a)"
proof -
  from mutex.reach_rep [OF assms(1)] obtain a where rep: "mutex_rep s a" by blast
  with assms(2) have q: "t \<in> set (fl_queue a)" by (simp add: mutex_repD(2))
  have "fl_owner a \<noteq> None" using rep q by (auto elim!: mutex_repE)
  then obtain o' where "fl_owner a = Some o'" by blast
  with rep q mutex_repD(1) [OF rep] show ?thesis by blast
qed

theorem mutex_no_lost_waiter_witness:
  "\<exists>a o'. mutex_rep mutex_demo_state a \<and> fl_owner a = Some o' \<and>
     m_owns (m_pc mutex_demo_state o') \<and> 2 \<in> set (fl_queue a)"
  by (rule mutex_no_lost_waiter [OF mutex_demo_reach]) (simp add: mutex_demo_state_def)

text \<open>
  Property C23 (\<open>unlock\<close> returns and hands over in queue order). From any state in which a
  coroutine enters \<open>unlock()\<close>, that coroutine alone finishes it within the number of queued
  waiters plus five steps; the lock then belongs to the coroutine queued longest ago, or is free
  when none is queued.
\<close>
theorem mutex_unlock_completes:
  assumes rep: "mutex_rep s a" and t: "m_pc s t = M_Unlock"
  shows "\<exists>n s'. n \<le> length (fl_queue a) + 5 \<and>
           run mutex_exec (replicate n (MStep t False)) s = Next s' \<and> m_pc s' t = M_Idle \<and>
           mutex_rep s' (fifo_unlock a)"
proof -
  obtain s1 where s1: "unlock_enter t s = Next s1"
    using unlock_enter_no_fault [OF rep t]
    by (cases "unlock_enter t s") (auto simp: unlock_enter_def split: if_splits)
  note rep1 = unlock_enter_rep [OF rep t s1]
  show ?thesis
  proof (cases "m_waiters s")
    case (Some w)
    with s1 have "m_pc s1 t = M_UHand (Some w)" by (auto simp: unlock_enter_def split: if_splits)
    from handover_run [OF rep1 this] s1 t show ?thesis
      by (intro exI [of _ "Suc 1"]) auto
  next
    case None
    with s1 have p1: "m_pc s1 t = M_ULoad" by (auto simp: unlock_enter_def split: if_splits)
    obtain s2 where s2: "unlock_load t s1 = Next s2" by (simp add: unlock_load_def)
    note rep2 = unlock_load_rep [OF rep1 p1 s2]
    from s2 have p2: "m_pc s2 t = (if m_state s2 = Null then M_UCas else M_UXchg)"
      by (auto simp: unlock_load_def)
    have two: "run mutex_exec (replicate (2 + k) (MStep t False)) s =
        run mutex_exec (replicate k (MStep t False)) s2" for k
      using s1 s2 t p1 by simp
    show ?thesis
    proof (cases "m_state s2 = Null")
      case False
      with p2 have "m_pc s2 t = M_UXchg" by simp
      from xchg_run [OF rep2 this] obtain n s' where
        n: "n \<le> length (fl_queue a) + 2" "run mutex_exec (replicate n (MStep t False)) s2 = Next s'"
          "m_pc s' t = M_Idle" "mutex_rep s' (fifo_unlock a)" by blast
      then show ?thesis using two [of n] by (intro exI [of _ "2 + n"] exI [of _ s']) auto
    next
      case True
      with p2 have p2: "m_pc s2 t = M_UCas" by simp
      obtain s3 where s3: "unlock_cas t s2 = Next s3" "m_pc s3 t = M_Idle"
        using True by (simp add: unlock_cas_def atomic_defs)
      from unlock_cas_rep(2) [OF rep2 p2 s3(1) True] have "mutex_rep s3 (fifo_unlock a)" by blast
      then show ?thesis using two [of 1] s3 p2
        by (intro exI [of _ "2 + 1"] exI [of _ s3]) auto
    qed
  qed
qed

theorem mutex_unlock_completes_witness:
  "\<exists>n s'. n \<le> 7 \<and> run mutex_exec (replicate n (MStep 0 False))
       (m_goto 0 M_Unlock mutex_demo_state) = Next s' \<and> m_pc s' 0 = M_Idle \<and>
     mutex_rep s' \<lparr>fl_owner = Some 1, fl_queue = [2]\<rparr>"
proof -
  have e: "mutex_exec (Unlock 0) mutex_demo_state = Next (m_goto 0 M_Unlock mutex_demo_state)"
    by (simp add: mutex_demo_state_def)
  have rep: "mutex_rep (m_goto 0 M_Unlock mutex_demo_state) \<lparr>fl_owner = Some 0, fl_queue = [1, 2]\<rparr>"
    by (rule mutex_repI [where stk = "[2, 1]" and fifo = "[]"])
      (auto simp: mutex_demo_state_def split: if_splits)
  have pc: "m_pc (m_goto 0 M_Unlock mutex_demo_state) 0 = M_Unlock" by simp
  show ?thesis using mutex_unlock_completes [OF rep pc] by (simp add: fifo_unlock_def)
qed

text \<open>
  Also shown (\<open>coLock\<close> acquires or queues). A coroutine that awaits \<open>coLock()\<close> without
  interference either owns the lock at once (it was free) or is suspended as the last waiter of
  the queue, within three atomic steps.
\<close>
theorem mutex_colock_completes:
  assumes rep: "mutex_rep s a" and t: "m_pc s t = M_Ready"
  shows "\<exists>n s'. n \<le> 3 \<and> run mutex_exec (replicate n (MStep t False)) s = Next s' \<and>
           (if m_state s = Self then m_pc s' t = M_Owner \<and> mutex_rep s' (a\<lparr>fl_owner := Some t\<rparr>)
            else m_pc s' t = M_Parked \<and> m_offline s' = t # m_offline s \<and>
                 mutex_rep s' (a\<lparr>fl_queue := fl_queue a @ [t]\<rparr>))"
proof (cases "m_state s = Self")
  case True
  let ?s = "m_goto t M_Owner (s\<lparr>m_state := Null\<rparr>)"
  have "run mutex_exec (replicate 1 (MStep t False)) s = Next ?s"
    using t True by (simp add: lock_await_ready_def tryLock_def atomic_defs)
  with mutex_rep_acquire(1) [OF rep True, of t] t True show ?thesis
    by (intro exI [of _ 1] exI [of _ ?s]) auto
next
  case False
  let ?s = "m_goto t M_Parked (s\<lparr>m_next := (m_next s)(t := as_awaiter (m_state s)),
    m_state := Aw t, m_offline := t # m_offline s\<rparr>)"
  have "run mutex_exec (replicate 3 (MStep t False)) s = Next ?s"
    using t False by (simp add: numeral_3_eq_3 mutex_step_defs)
  with mutex_rep_enqueue(1) [OF rep False, of t] t False show ?thesis
    by (intro exI [of _ 3] exI [of _ ?s]) auto
qed

theorem mutex_colock_completes_witness:
  "\<exists>n s'. n \<le> 3 \<and> run mutex_exec (replicate n (MStep 5 False)) (m_goto 5 M_Ready mutex_demo_state) = Next s' \<and>
     m_pc s' 5 = M_Parked \<and> mutex_rep s' \<lparr>fl_owner = Some 0, fl_queue = [1, 2, 5]\<rparr>"
proof -
  have rep: "mutex_rep (m_goto 5 M_Ready mutex_demo_state) \<lparr>fl_owner = Some 0, fl_queue = [1, 2]\<rparr>"
    by (rule mutex_rep_outside_pc [OF mutex_demo_rep]) (simp_all add: mutex_demo_state_def)
  have pc: "m_pc (m_goto 5 M_Ready mutex_demo_state) 5 = M_Ready" by simp
  have ns: "m_state (m_goto 5 M_Ready mutex_demo_state) \<noteq> Self" by (simp add: mutex_demo_state_def)
  show ?thesis using mutex_colock_completes [OF rep pc] ns by auto
qed

text \<open>
  Also shown (the destructor checks for waiters). When no \<open>unlock\<close> is in progress, the assertions
  of the destructor hold exactly if no coroutine is suspended on the mutex; it may still be locked.
\<close>
theorem mutex_destroy_iff:
  assumes "reach mutex_exec mutex_init s" and "\<And>t. m_owns (m_pc s t) \<Longrightarrow> m_pc s t = M_Owner"
  shows "mutex_destroy s = Next s \<longleftrightarrow> (\<forall>t. m_pc s t \<noteq> M_Parked)"
proof -
  from mutex.reach_rep [OF assms(1)] obtain a where "mutex_rep s a" by blast
  then obtain stk fifo where stk: "chain (m_next s) (as_awaiter (m_state s)) stk"
    and parked: "\<And>t. m_pc s t = M_Parked \<longleftrightarrow> t \<in> set fifo \<or> t \<in> set stk"
    and owns: "\<And>t. m_owns (m_pc s t) \<longleftrightarrow> fl_owner a = Some t"
    and free: "fl_owner a = None \<Longrightarrow> m_state s = Self \<and> m_waiters s = None \<and> fifo = []"
    and held: "\<And>t. fl_owner a = Some t \<Longrightarrow> m_state s \<noteq> Self \<and> m_taken s (m_pc s t) fifo"
    by (rule mutex_repE) (rule that)
  have w: "chain (m_next s) (m_waiters s) fifo"
  proof (cases "fl_owner a")
    case None
    with free show ?thesis by simp
  next
    case (Some t)
    with assms(2) [of t] owns [of t] held [of t] show ?thesis by simp
  qed
  have "m_waiters s = None \<longleftrightarrow> fifo = []" using w by (cases fifo) auto
  moreover have "m_state s = Self \<or> m_state s = Null \<longleftrightarrow> stk = []"
    using stk by (cases "m_state s"; cases stk) auto
  moreover have "(\<forall>t. m_pc s t \<noteq> M_Parked) \<longleftrightarrow> fifo = [] \<and> stk = []"
    using parked by (metis all_not_in_conv set_empty)
  ultimately show ?thesis by (auto simp: mutex_destroy_def)
qed

theorem mutex_destroy_iff_witness: "mutex_destroy mutex_demo_state \<noteq> Next mutex_demo_state"
proof -
  have "m_pc mutex_demo_state t = M_Owner" if "m_owns (m_pc mutex_demo_state t)" for t
    using that by (simp add: mutex_demo_state_def split: if_splits)
  moreover have "m_pc mutex_demo_state 1 = M_Parked" by (simp add: mutex_demo_state_def)
  ultimately show ?thesis using mutex_destroy_iff [OF mutex_demo_reach] by blast
qed

end
