(* ===== verification/MutexProgress.thy ===== *)
theory MutexProgress
  imports CoMutex
begin

text \<open>
  How long a coroutine waits for the mutex of \<^verbatim>\<open>include/mutex.hpp\<close>, whatever the other
  coroutines do meanwhile: how often another one is given the lock before a suspended one
  (\<open>passes\<close>), and how many steps of its own a coroutine needs for \<open>unlock\<close> when waiters keep arriving
  (\<open>owes\<close>).
\<close>

section \<open>How often another coroutine overtakes a suspended one\<close>

text \<open>The acquisitions of \<open>y\<close> along \<open>es\<close>, up to the point where \<open>x\<close> is resumed.\<close>

fun passes :: "nat \<Rightarrow> nat \<Rightarrow> mutex_event list \<Rightarrow> mutex_sys \<Rightarrow> nat" where
  "passes x y [] s = 0"
| "passes x y (e # es) s =
     (case mutex_exec e s of
        Next s' \<Rightarrow>
          if m_pc s' x = M_Parked
          then (if m_pc s y \<noteq> M_Owner \<and> m_pc s' y = M_Owner then 1 else 0) + passes x y es s'
          else 0
      | _ \<Rightarrow> 0)"

text \<open>Only a coroutine that did not own the lock acquires it.\<close>

lemma mutex_exec_acquires:
  assumes "mutex_exec e s = Next s'" "m_pc s y \<noteq> M_Owner" "m_pc s' y = M_Owner"
  shows "\<not> m_owns (m_pc s y)"
proof (cases e)
  case (MStep t b)
  with assms show ?thesis
    by (cases "m_pc s t") (auto simp: mutex_step_defs split: if_splits option.splits mword.splits)
qed (use assms in \<open>auto simp: tryLock_def Let_def split: if_splits prod.splits\<close>)

text \<open>One step of the abstract lock, seen from a coroutine in its queue.\<close>

lemma fifo_step_ahead:
  assumes "fifo_step a a'" "fl_queue a = us @ x # vs" "x \<in> set (fl_queue a')" "distinct (fl_queue a)"
  obtains (same) vs' where "fl_queue a' = us @ x # vs'" "fl_owner a' = fl_owner a"
    | (ahead) u us' where "us = u # us'" "fl_queue a' = us' @ x # vs" "fl_owner a' = Some u"
  using assms(1)
proof cases
  case (fifo_enqueue o' t)
  with assms(2) show ?thesis by (intro same [of "vs @ [t]"]) auto
next
  case (fifo_handover o' h q)
  with assms(2-4) obtain us' where "us = h # us'" "q = us' @ x # vs" by (cases us) auto
  with fifo_handover show ?thesis by (intro ahead) auto
qed (use assms(2) in auto)

lemma passes_le:
  assumes "mutex_rep s a" "fl_queue a = us @ x # vs"
  shows "passes x y es s \<le> (if y \<in> set us then 1 else 0)"
  using assms
proof (induction es arbitrary: s a us vs)
  case (Cons e es)
  show ?case
  proof (cases "\<exists>s'. mutex_exec e s = Next s' \<and> m_pc s' x = M_Parked")
    case True
    then obtain s' where s': "mutex_exec e s = Next s'" "m_pc s' x = M_Parked" by blast
    obtain a' where a': "a' = a \<or> fifo_step a a'" "mutex_rep s' a'"
      using mutex.rep_step [OF Cons.prems(1) s'(1)] by blast
    have dist: "distinct (fl_queue a)" using Cons.prems(1) by (auto simp: mutex_rep_def)
    have new: "fl_owner a \<noteq> Some y \<and> fl_owner a' = Some y" if "m_pc s y \<noteq> M_Owner" "m_pc s' y = M_Owner"
      using mutex_exec_acquires [OF s'(1) that] mutex_repD(1) [OF Cons.prems(1), of y]
        mutex_repD(1) [OF a'(2), of y] that(2) by simp
    consider (same) vs' where "fl_queue a' = us @ x # vs'" "fl_owner a' = fl_owner a"
      | (ahead) u us' where "us = u # us'" "fl_queue a' = us' @ x # vs" "fl_owner a' = Some u"
      using a'(1)
    proof
      assume step: "fifo_step a a'"
      have "x \<in> set (fl_queue a')" using mutex_repD(2) [OF a'(2), of x] s'(2) by simp
      from step Cons.prems(2) this dist show ?thesis by (rule fifo_step_ahead) (rule that; assumption)+
    qed (use Cons.prems(2) that in auto)
    then show ?thesis
    proof cases
      case same
      with new have "\<not> (m_pc s y \<noteq> M_Owner \<and> m_pc s' y = M_Owner)" by auto
      with Cons.IH [OF a'(2) same(1)] s' show ?thesis by (auto split: if_splits)
    next
      case ahead
      note le = Cons.IH [OF a'(2) ahead(2)]
      show ?thesis
      proof (cases "m_pc s y \<noteq> M_Owner \<and> m_pc s' y = M_Owner")
        case True
        with new ahead have y: "y = u" by simp
        with dist Cons.prems(2) ahead(1) have "y \<notin> set us'" by simp
        with le True s' y ahead(1) show ?thesis by simp
      next
        case False
        with le s' ahead(1) show ?thesis by (auto split: if_splits)
      qed
    qed
  qed (auto split: outcome.split)
qed simp

section \<open>How many steps an \<open>unlock\<close> takes\<close>

text \<open>The steps that \<open>t\<close> takes along \<open>es\<close>.\<close>

fun own_steps :: "nat \<Rightarrow> mutex_event list \<Rightarrow> nat" where
  "own_steps t [] = 0"
| "own_steps t (MStep u b # es) = (if u = t then 1 else 0) + own_steps t es"
| "own_steps t (_ # es) = own_steps t es"

text \<open>The coroutine an event belongs to.\<close>

fun mutex_caller :: "mutex_event \<Rightarrow> nat" where
  "mutex_caller (CoLock t) = t"
| "mutex_caller (TryLock t) = t"
| "mutex_caller (Unlock t) = t"
| "mutex_caller (MStep t _) = t"

text \<open>What is left of an \<open>unlock\<close> when there are \<open>n\<close> coroutines.\<close>

fun owes :: "nat \<Rightarrow> mutex_sys \<Rightarrow> mutex_pc \<Rightarrow> nat \<Rightarrow> bool" where
  "owes n s M_Unlock k \<longleftrightarrow> k = n + 4"
| "owes n s M_ULoad k \<longleftrightarrow> k = n + 3"
| "owes n s M_UCas k \<longleftrightarrow> k = n + 2"
| "owes n s M_UXchg k \<longleftrightarrow> k = n + 1"
| "owes n s (M_URev w h) k \<longleftrightarrow> (\<exists>pending. chain (m_next s) (Some w) pending \<and> k = Suc (length pending))"
| "owes n s (M_UHand h) k \<longleftrightarrow> k = 1"
| "owes n s _ k \<longleftrightarrow> False"

abbreviation among :: "nat \<Rightarrow> mutex_sys \<Rightarrow> bool" where
  "among n s \<equiv> \<forall>x. m_pc s x \<noteq> M_Idle \<longrightarrow> x < n"

lemma among_step:
  assumes "among n s" "mutex_exec e s = Next s'" "mutex_caller e < n"
  shows "among n s'"
proof (cases e)
  case (MStep t b)
  with assms show ?thesis
    by (cases "m_pc s t") (auto simp: mutex_step_defs split: if_splits option.splits mword.splits)
qed (use assms in \<open>auto simp: tryLock_def Let_def split: if_splits prod.splits\<close>)

text \<open>A step of a coroutine outside \<open>unlock\<close> leaves the others and their awaiters alone.\<close>

lemma mutex_exec_outside:
  assumes "mutex_exec e s = Next s'" "\<not> m_owns (m_pc s (mutex_caller e)) \<or> m_pc s (mutex_caller e) = M_Owner"
  shows "(\<forall>x. x \<noteq> mutex_caller e \<longrightarrow> m_pc s' x = m_pc s x) \<and> m_pc s (mutex_caller e) \<noteq> M_Parked \<and>
    (\<forall>x. x \<noteq> mutex_caller e \<longrightarrow> m_next s' x = m_next s x)"
proof (cases e)
  case (MStep t b)
  with assms show ?thesis
    by (cases "m_pc s t") (auto simp: mutex_step_defs split: if_splits)
qed (use assms in \<open>auto simp: tryLock_def atomic_defs Let_def split: if_splits\<close>)

lemma owes_other:
  assumes rep: "mutex_rep s a" and owes: "owes n s (m_pc s t) k" and e: "mutex_exec e s = Next s'" "mutex_caller e \<noteq> t"
  shows "m_pc s' t = m_pc s t" "owes n s' (m_pc s' t) k"
proof -
  let ?u = "mutex_caller e"
  have own: "m_owns (m_pc s t)" using owes by (cases "m_pc s t") auto
  with e(2) mutex_repD(1) [OF rep, of t] mutex_repD(1) [OF rep, of ?u] have "\<not> m_owns (m_pc s ?u)" by auto
  from mutex_exec_outside [OF e(1) disjI1 [OF this]] e(2)
  have "m_pc s' t = m_pc s t" "m_pc s ?u \<noteq> M_Parked" "m_next s' = (m_next s)(?u := m_next s' ?u)" by auto
  then obtain v where u: "m_pc s' t = m_pc s t" "m_pc s ?u \<noteq> M_Parked" "m_next s' = (m_next s)(?u := v)" by blast
  then show "m_pc s' t = m_pc s t" by simp
  show "owes n s' (m_pc s' t) k"
  proof (cases "m_pc s t")
    case (M_URev w h)
    with owes obtain pending where p: "chain (m_next s) (Some w) pending" "k = Suc (length pending)" by auto
    obtain stk fifo where f: "m_taken s (m_pc s t) fifo" "\<And>x. m_pc s x = M_Parked \<longleftrightarrow> x \<in> set fifo \<or> x \<in> set stk"
      by (rule mutex_rep_ownerE [OF rep own], rule that) (assumption | simp)+
    from f(1) M_URev obtain pending' rest where "chain (m_next s) (Some w) pending'" "fifo = rev pending' @ rest"
      by auto
    with chain_unique [OF p(1)] f(2) [of ?u] u(2) have "?u \<notin> set pending" by auto
    with p u M_URev show ?thesis by (auto intro!: exI [of _ pending])
  qed (use owes u in auto)
qed

lemma owes_own:
  assumes rep: "mutex_rep s a" and owes: "owes n s (m_pc s t) k" and e: "mutex_step t b (m_pc s t) s = Next s'"
    and n: "among n s" and own: "m_owns (m_pc s' t)"
  shows "\<exists>k'. owes n s' (m_pc s' t) k' \<and> k' < k"
proof (cases "m_pc s t")
  case M_UXchg
  then have own': "m_owns (m_pc s t)" by simp
  obtain stk fifo where c: "chain (m_next s) (as_awaiter (m_state s)) stk" "distinct (fifo @ rev stk)"
    "\<And>x. m_pc s x = M_Parked \<longleftrightarrow> x \<in> set fifo \<or> x \<in> set stk"
    by (rule mutex_rep_ownerE [OF rep own'], rule that) (assumption | simp)+
  have "set stk \<subseteq> {..<n} - {t}"
  proof
    fix z assume "z \<in> set stk"
    then have "m_pc s z = M_Parked" using c(3) [of z] by simp
    with n [rule_format, of z] M_UXchg show "z \<in> {..<n} - {t}" by auto
  qed
  then have "length stk \<le> card ({..<n} - {t})"
    using c(2) card_mono [of "{..<n} - {t}" "set stk"] by (simp add: distinct_card)
  also have "\<dots> = n - 1" using n M_UXchg by simp
  finally have "Suc (length stk) \<le> n" using n [rule_format, of t] M_UXchg by simp
  with e owes c(1) M_UXchg show ?thesis
    by (auto simp: unlock_xchg_def xchg_def Let_def split: mword.splits intro!: exI [of _ "Suc (length stk)"])
next
  case (M_URev w h)
  with owes obtain p where p: "chain (m_next s) (m_next s w) p" "k = Suc (Suc (length p))" by (auto simp: chain_Some)
  have w: "w \<notin> set p" by (rule chain_not_in_tail [OF p(1)])
  with e M_URev p show ?thesis
    by (auto simp: unlock_reverse_def Let_def split: if_splits option.splits intro!: exI [of _ p] exI [of _ "Suc (length p)"])
qed (use assms in \<open>auto simp: unlock_enter_def unlock_load_def unlock_cas_def atomic_defs unlock_handover_def Let_def
       split: if_splits option.splits\<close>)

lemma unlock_in_time:
  assumes "mutex_rep s a" "owes n s (m_pc s t) k" "among n s" "\<forall>e \<in> set es. mutex_caller e < n"
    and "run mutex_exec es s = Next s'" "k \<le> own_steps t es"
  shows "\<exists>es1 es2 s1. es = es1 @ es2 \<and> run mutex_exec es1 s = Next s1 \<and> \<not> m_owns (m_pc s1 t)"
  using assms
proof (induction es arbitrary: s a k)
  case Nil
  then have False by (cases "m_pc s t") auto
  then show ?case ..
next
  case (Cons e es)
  from Cons.prems(5) obtain s1 where e: "mutex_exec e s = Next s1" and r: "run mutex_exec es s1 = Next s'" by auto
  obtain a1 where rep: "mutex_rep s1 a1" using mutex.rep_step [OF Cons.prems(1) e] by blast
  have am: "among n s1" using among_step [OF Cons.prems(3) e] Cons.prems(4) by simp
  show ?case
  proof (cases "m_owns (m_pc s1 t)")
    case True
    have "\<exists>k'. owes n s1 (m_pc s1 t) k' \<and> k' \<le> own_steps t es"
    proof (cases "mutex_caller e = t")
      case own: True
      with e Cons.prems(2) obtain b where b: "e = MStep t b"
        by (cases e; cases "m_pc s t") (auto split: if_splits prod.splits)
      with e have "mutex_step t b (m_pc s t) s = Next s1" by simp
      from owes_own [OF Cons.prems(1,2) this Cons.prems(3) True] Cons.prems(6) b show ?thesis by auto
    next
      case False
      from owes_other(2) [OF Cons.prems(1,2) e False] False Cons.prems(6) show ?thesis by (cases e) auto
    qed
    then obtain k' where "owes n s1 (m_pc s1 t) k'" "k' \<le> own_steps t es" by blast
    from Cons.IH [OF rep this(1) am _ r this(2)] Cons.prems(4)
    obtain es1 es2 s2 where "es = es1 @ es2" "run mutex_exec es1 s1 = Next s2" "\<not> m_owns (m_pc s2 t)" by auto
    with e show ?thesis by (intro exI [of _ "e # es1"] exI [of _ es2] exI [of _ s2]) simp
  next
    case False
    with e show ?thesis by (intro exI [of _ "[e]"] exI [of _ es] exI [of _ s1]) simp
  qed
qed

text \<open>Inside \<open>unlock\<close> the next step of the owner is always possible.\<close>

lemma unlock_step_enabled:
  assumes "reach mutex_exec mutex_init s" "m_owns (m_pc s t)" "m_pc s t \<noteq> M_Owner"
  shows "\<exists>s'. mutex_exec (MStep t b) s = Next s'"
proof -
  obtain a where "mutex_rep s a" using mutex.reach_rep [OF assms(1)] by blast
  then have "mutex_exec (MStep t b) s \<noteq> Fault f" for f by (rule mutex.rep_no_fault)
  moreover have "mutex_exec (MStep t b) s \<noteq> Blocked"
    using assms(2,3) by (cases "m_pc s t") (auto simp: mutex_step_defs split: option.split mword.split)
  ultimately show ?thesis by (cases "mutex_exec (MStep t b) s") auto
qed

section \<open>Properties\<close>

text \<open>
  Property C21 (a queued coroutine is overtaken at most once by each of those before it). Whenever a
  coroutine is suspended on the mutex, some coroutine owns the mutex and the suspended one is in the
  queue that the owner's \<open>unlock\<close> serves; from then on, in every execution, a coroutine queued
  before it acquires the mutex at most once before it does, and every other one never.
\<close>
theorem mutex_bounded_waiting:
  assumes "reach mutex_exec mutex_init s" and "m_pc s x = M_Parked"
  shows "\<exists>a o' us vs. mutex_rep s a \<and> fl_owner a = Some o' \<and> m_owns (m_pc s o') \<and>
    fl_queue a = us @ x # vs \<and> distinct us \<and> x \<notin> set us \<and>
    (\<forall>es y. passes x y es s \<le> (if y \<in> set us then 1 else 0))"
proof -
  from mutex.reach_rep [OF assms(1)] obtain a where rep: "mutex_rep s a" by blast
  with assms(2) have "x \<in> set (fl_queue a)" by (simp add: mutex_repD(2))
  then obtain us vs where q: "fl_queue a = us @ x # vs" by (meson split_list)
  have "fl_owner a \<noteq> None" using rep q by (auto elim!: mutex_repE)
  then obtain o' where o: "fl_owner a = Some o'" by blast
  then have "m_owns (m_pc s o')" using mutex_repD(1) [OF rep] by simp
  moreover have "distinct us" "x \<notin> set us" using rep q by (auto simp: mutex_rep_def)
  ultimately show ?thesis using rep o q passes_le [OF rep q] by blast
qed

theorem mutex_bounded_waiting_witness:
  "passes 2 1 (Unlock 0 # replicate 6 (MStep 0 False)) mutex_demo_state = 1 \<and>
   (\<exists>us. distinct us \<and> (\<forall>es y. passes 2 y es mutex_demo_state \<le> (if y \<in> set us then 1 else 0)))"
proof
  show "passes 2 1 (Unlock 0 # replicate 6 (MStep 0 False)) mutex_demo_state = 1"
    by (simp add: mutex_demo_state_def mutex_step_defs numeral_eq_Suc)
  show "\<exists>us. distinct us \<and> (\<forall>es y. passes 2 y es mutex_demo_state \<le> (if y \<in> set us then 1 else 0))"
  proof -
    have "m_pc mutex_demo_state 2 = M_Parked" by (simp add: mutex_demo_state_def)
    from mutex_bounded_waiting [OF mutex_demo_reach this] show ?thesis by blast
  qed
qed

text \<open>
  Property C29 (\<open>unlock\<close> is wait-free). If at most \<open>n\<close> coroutines use the mutex, a coroutine that
  enters \<open>unlock\<close> has given up the lock by the time it has taken \<open>n + 4\<close> steps, whatever steps the
  others take in between; new waiters that arrive during the reversal loop do not prolong it.
\<close>
theorem mutex_unlock_wait_free:
  assumes "reach mutex_exec mutex_init s" and "m_pc s t = M_Unlock"
    and "\<forall>x. m_pc s x \<noteq> M_Idle \<longrightarrow> x < n" and "\<forall>e \<in> set es. mutex_caller e < n"
    and "run mutex_exec es s = Next s'" and "n + 4 \<le> own_steps t es"
  shows "\<exists>es1 es2 s1. es = es1 @ es2 \<and> run mutex_exec es1 s = Next s1 \<and> \<not> m_owns (m_pc s1 t)"
proof -
  from mutex.reach_rep [OF assms(1)] obtain a where "mutex_rep s a" by blast
  from unlock_in_time [OF this _ assms(3-6)] assms(2) show ?thesis by simp
qed

theorem mutex_unlock_wait_free_witness:
  "\<exists>es1 es2 s1. replicate 6 (MStep 0 False) @ [CoLock 0, MStep 0 False] = es1 @ es2 \<and>
     run mutex_exec es1 (m_goto 0 M_Unlock mutex_demo_state) = Next s1 \<and> \<not> m_owns (m_pc s1 0)"
proof -
  have "mutex_exec (Unlock 0) mutex_demo_state = Next (m_goto 0 M_Unlock mutex_demo_state)"
    by (simp add: mutex_demo_state_def)
  note reach = reach_step [OF mutex_demo_reach this]
  obtain s' where "run mutex_exec (replicate 6 (MStep 0 False) @ [CoLock 0, MStep 0 False])
      (m_goto 0 M_Unlock mutex_demo_state) = Next s'"
    by (simp add: mutex_demo_state_def mutex_step_defs numeral_eq_Suc)
  from mutex_unlock_wait_free [OF reach _ _ _ this, of 0 3] show ?thesis
    by (simp add: mutex_demo_state_def numeral_eq_Suc)
qed

end
