(* ===== verification/CoSpinLock.thy ===== *)
theory CoSpinLock
  imports Prelude
begin

text \<open>
  \<open>async_simple::coro::SpinLock\<close> of \<^verbatim>\<open>include/spinlock.hpp\<close>, one atomic operation per step.

  \<open>coLock\<close> tries the exchange, then polls the flag; after a run of polls it yields to the
  reactor and starts a new run.  \<open>spinCount\<close> and \<open>counter\<close> are 32-bit signed integers:
  they are \<open>int\<close> here and the decrement of the smallest one is the fault \<open>SignedOverflow\<close>.
\<close>

section \<open>State and steps\<close>

datatype spin_pc =
    S_Idle
  | S_Try int        \<comment> \<open>head of the outer loop, with \<open>counter\<close>: before \<open>tryLock\<close>\<close>
  | S_Poll int       \<comment> \<open>head of the inner loop: before the load of \<open>_locked\<close>\<close>
  | S_Yielded        \<comment> \<open>suspended in \<open>co_await yield()\<close>\<close>
  | S_Owner          \<comment> \<open>the lock is taken\<close>

record spin_sys =
  locked :: bool
  spin_pc :: "nat \<Rightarrow> spin_pc"

definition INT_MIN :: int where "INT_MIN = - (2 ^ 31)"
definition INT_MAX :: int where "INT_MAX = 2 ^ 31 - 1"

definition spin_init :: spin_sys where
  "spin_init = \<lparr>locked = False, spin_pc = (\<lambda>_. S_Idle)\<rparr>"

abbreviation s_goto :: "nat \<Rightarrow> spin_pc \<Rightarrow> spin_sys \<Rightarrow> spin_sys" where
  "s_goto t p s \<equiv> s\<lparr>spin_pc := (spin_pc s)(t := p)\<rparr>"

definition spin_tryLock :: "spin_sys \<Rightarrow> bool \<times> spin_sys" where
  "spin_tryLock s = (let (old, new) = xchg (locked s) True in (\<not> old, s\<lparr>locked := new\<rparr>))"

definition spin_unlock :: "spin_sys \<Rightarrow> spin_sys" where
  "spin_unlock s = s\<lparr>locked := False\<rparr>"

definition spin_try :: "nat \<Rightarrow> int \<Rightarrow> spin_sys \<Rightarrow> spin_sys outcome" where
  "spin_try t counter s =
     (let (ok, s') = spin_tryLock s in Next (s_goto t (if ok then S_Owner else S_Poll counter) s'))"

definition spin_poll :: "nat \<Rightarrow> int \<Rightarrow> spin_sys \<Rightarrow> spin_sys outcome" where
  "spin_poll t counter s =
     (if locked s then
        (if counter = INT_MIN then Fault SignedOverflow
         else Next (s_goto t (if counter \<le> 0 then S_Yielded else S_Poll (counter - 1)) s))
      else Next (s_goto t (S_Try counter) s))"

datatype spin_event =
    SpinCoLock nat     \<comment> \<open>an idle coroutine calls \<open>coLock\<close>\<close>
  | SpinTryLock nat    \<comment> \<open>an idle coroutine calls \<open>tryLock\<close>\<close>
  | SpinUnlock nat     \<comment> \<open>the owner calls \<open>unlock\<close>\<close>
  | SpinStep nat       \<comment> \<open>the next atomic operation; a yielded coroutine is resumed\<close>

fun spin_step :: "int \<Rightarrow> nat \<Rightarrow> spin_pc \<Rightarrow> spin_sys \<Rightarrow> spin_sys outcome" where
  "spin_step spinCount t S_Idle s = Blocked"
| "spin_step spinCount t (S_Try counter) s = spin_try t counter s"
| "spin_step spinCount t (S_Poll counter) s = spin_poll t counter s"
| "spin_step spinCount t S_Yielded s = Next (s_goto t (S_Poll spinCount) s)"
| "spin_step spinCount t S_Owner s = Blocked"

fun spin_exec :: "int \<Rightarrow> spin_event \<Rightarrow> spin_sys \<Rightarrow> spin_sys outcome" where
  "spin_exec spinCount (SpinCoLock t) s =
     (if spin_pc s t = S_Idle then Next (s_goto t (S_Try spinCount) s) else Blocked)"
| "spin_exec spinCount (SpinTryLock t) s =
     (if spin_pc s t = S_Idle then
        (let (ok, s') = spin_tryLock s in Next (s_goto t (if ok then S_Owner else S_Idle) s'))
      else Blocked)"
| "spin_exec spinCount (SpinUnlock t) s =
     (if spin_pc s t = S_Owner then Next (s_goto t S_Idle (spin_unlock s)) else Blocked)"
| "spin_exec spinCount (SpinStep t) s = spin_step spinCount t (spin_pc s t) s"

lemmas spin_defs = spin_tryLock_def spin_unlock_def spin_try_def spin_poll_def xchg_def Let_def

section \<open>Invariant\<close>

text \<open>The flag is set exactly while some coroutine owns the lock, and then only one does.\<close>

definition spin_owner :: "spin_sys \<Rightarrow> nat option \<Rightarrow> bool" where
  "spin_owner s h \<longleftrightarrow> (locked s \<longleftrightarrow> h \<noteq> None) \<and> (\<forall>t. spin_pc s t = S_Owner \<longleftrightarrow> h = Some t)"

text \<open>A counter never leaves the range between \<open>-1\<close> (or the count itself) and the count.\<close>

fun counter_ok :: "int \<Rightarrow> spin_pc \<Rightarrow> bool" where
  "counter_ok spinCount (S_Try k) \<longleftrightarrow> min spinCount 0 \<le> k \<and> k \<le> spinCount"
| "counter_ok spinCount (S_Poll k) \<longleftrightarrow> min spinCount 0 \<le> k \<and> k \<le> spinCount"
| "counter_ok spinCount p \<longleftrightarrow> True"

definition spin_inv :: "int \<Rightarrow> spin_sys \<Rightarrow> bool" where
  "spin_inv spinCount s \<longleftrightarrow> (\<exists>h. spin_owner s h) \<and> (\<forall>t. counter_ok spinCount (spin_pc s t))"

lemma counters_init: "spin_inv k spin_init"
  by (auto simp: spin_inv_def spin_owner_def spin_init_def)

text \<open>A step keeps the owner, takes the free lock, or releases it.\<close>

lemma owner_keep:
  assumes "spin_owner s h" "locked s' = locked s"
    and "\<And>x. spin_pc s' x = S_Owner \<longleftrightarrow> spin_pc s x = S_Owner"
  shows "spin_owner s' h"
  using assms by (simp add: spin_owner_def)

lemma owner_take:
  assumes "spin_owner s h" "\<not> locked s"
  shows "spin_owner (s\<lparr>locked := True, spin_pc := (spin_pc s)(t := S_Owner)\<rparr>) (Some t)"
  using assms by (auto simp: spin_owner_def)

lemma owner_release:
  assumes "spin_owner s h" "spin_pc s t = S_Owner"
  shows "spin_owner (s\<lparr>locked := False, spin_pc := (spin_pc s)(t := S_Idle)\<rparr>) None"
  using assms by (auto simp: spin_owner_def)

lemma spin_step_cases:
  assumes "spin_exec k e s = Next s'"
  shows "(locked s' = locked s \<and> (\<forall>x. spin_pc s' x = S_Owner \<longleftrightarrow> spin_pc s x = S_Owner)) \<or>
    (\<exists>t. \<not> locked s \<and> s' = s\<lparr>locked := True, spin_pc := (spin_pc s)(t := S_Owner)\<rparr>) \<or>
    (\<exists>t. spin_pc s t = S_Owner \<and> s' = s\<lparr>locked := False, spin_pc := (spin_pc s)(t := S_Idle)\<rparr>)"
proof (cases e)
  case (SpinStep t)
  show ?thesis
  proof (cases "spin_pc s t")
    case (S_Try c)
    with assms SpinStep show ?thesis by (cases "locked s") (auto simp: spin_defs split: if_splits)
  next
    case (S_Poll c)
    with assms SpinStep show ?thesis by (auto simp: spin_defs split: if_splits)
  qed (use assms SpinStep in \<open>auto split: if_splits\<close>)
next
  case (SpinTryLock t)
  with assms show ?thesis by (cases "locked s") (auto simp: spin_defs split: if_splits)
qed (use assms in \<open>auto simp: spin_defs split: if_splits\<close>)

lemma owner_step:
  assumes "spin_owner s h" "spin_exec k e s = Next s'"
  shows "\<exists>h'. spin_owner s' h'"
  using spin_step_cases [OF assms(2)] owner_keep [OF assms(1)] owner_take [OF assms(1)]
    owner_release [OF assms(1)] by metis

lemma counters_step:
  assumes "\<forall>t. counter_ok k (spin_pc s t)" "spin_exec k e s = Next s'"
  shows "\<forall>t. counter_ok k (spin_pc s' t)"
proof (cases e)
  case (SpinStep t)
  with assms(1) have "counter_ok k (spin_pc s t)" by blast
  with assms SpinStep show ?thesis
    by (cases "spin_pc s t") (auto simp: spin_defs split: if_splits)
qed (use assms in \<open>auto simp: spin_defs split: if_splits\<close>)

interpretation spin: invariant_machine spin_init "spin_exec k" "spin_inv k"
proof
  fix e s s' assume "spin_inv k s" "spin_exec k e s = Next s'"
  then show "spin_inv k s'"
    unfolding spin_inv_def by (meson owner_step counters_step)
qed (rule counters_init)

lemma spin_no_fault:
  assumes "spin_inv k s" "k \<noteq> INT_MIN" "INT_MIN \<le> k"
  shows "spin_exec k e s \<noteq> Fault f"
proof (cases e)
  case (SpinStep t)
  from assms(1) have "counter_ok k (spin_pc s t)" by (simp add: spin_inv_def)
  with SpinStep assms(2,3) show ?thesis
    by (cases "spin_pc s t") (auto simp: spin_defs INT_MIN_def min_def split: if_splits)
qed (auto simp: spin_defs split: if_splits)

section \<open>Properties\<close>

text \<open>
  Also shown (mutual exclusion of the spin lock). In every reachable state at most one coroutine
  owns the lock, and the flag is set exactly while one does.
\<close>
theorem spin_exclusion:
  assumes "reach (spin_exec k) spin_init s" and "spin_pc s t = S_Owner"
  shows "locked s \<and> (spin_pc s u = S_Owner \<longrightarrow> u = t)"
  using spin.reach_inv [OF assms(1)] assms(2) by (auto simp: spin_inv_def spin_owner_def)

definition spin_example :: spin_sys where
  "spin_example = \<lparr>locked = True, spin_pc = (\<lambda>_. S_Idle)(1 := S_Owner, 2 := S_Poll 1)\<rparr>"

lemma spin_example_reach: "reach (spin_exec 1) spin_init spin_example"
proof (rule run_reach [OF reach_init])
  show "run (spin_exec 1) [SpinCoLock 1, SpinStep 1, SpinCoLock 2, SpinStep 2] spin_init = Next spin_example"
    by (simp add: spin_init_def spin_example_def spin_defs fun_upd_twist)
qed

theorem spin_exclusion_witness: "locked spin_example \<and> spin_pc spin_example 2 \<noteq> S_Owner"
  using spin_exclusion [OF spin_example_reach, of 1 2] by (auto simp: spin_example_def)

text \<open>
  Also shown (no overflow). With any spin count but \<open>INT_MIN\<close> the decrement of the counter never
  overflows; with \<open>INT_MIN\<close> the second coroutine that polls overflows it.
\<close>
theorem spin_counter_bounds:
  assumes "INT_MIN \<le> k"
  shows "(\<exists>es. run (spin_exec k) es spin_init = Fault SignedOverflow) \<longleftrightarrow> k = INT_MIN"
proof
  assume k: "k = INT_MIN"
  have "run (spin_exec k) [SpinCoLock 1, SpinStep 1, SpinCoLock 2, SpinStep 2, SpinStep 2] spin_init =
      Fault SignedOverflow"
    by (simp add: spin_init_def spin_defs k)
  then show "\<exists>es. run (spin_exec k) es spin_init = Fault SignedOverflow" ..
next
  assume "\<exists>es. run (spin_exec k) es spin_init = Fault SignedOverflow"
  then obtain es where es: "run (spin_exec k) es spin_init = Fault SignedOverflow" ..
  show "k = INT_MIN"
  proof (rule ccontr)
    assume "k \<noteq> INT_MIN"
    with assms have "safe_machine spin_init (spin_exec k) (spin_inv k)"
      by (intro safe_machine.intro spin.invariant_machine_axioms safe_machine_axioms.intro)
        (use spin_no_fault in blast)
    from safe_machine.run_no_fault [OF this] es show False by blast
  qed
qed

theorem spin_counter_bounds_witness: "\<nexists>es. run (spin_exec 1024) es spin_init = Fault SignedOverflow"
  using spin_counter_bounds [of 1024] by (simp add: INT_MIN_def)

text \<open>
  Also shown (bounded spinning). While another coroutine keeps the lock, a coroutine that starts
  a run of polls yields to the reactor after \<open>max 0 counter + 1\<close> polls, changing nothing else.
\<close>
theorem spin_poll_yields:
  assumes "locked s" and "spin_pc s t = S_Poll counter" and "INT_MIN < counter"
  shows "run (spin_exec k) (replicate (nat counter + 1) (SpinStep t)) s = Next (s_goto t S_Yielded s)"
  using assms
proof (induction "nat counter" arbitrary: counter s)
  case 0
  then have "nat counter = 0" "counter \<le> 0" by auto
  with 0 show ?case by (simp add: spin_poll_def fun_upd_def)
next
  case (Suc m)
  then have c: "0 < counter" "m = nat (counter - 1)" by auto
  let ?s = "s_goto t (S_Poll (counter - 1)) s"
  have "run (spin_exec k) (replicate (nat (counter - 1) + 1) (SpinStep t)) ?s = Next (s_goto t S_Yielded ?s)"
    using Suc.hyps(1) [OF c(2), of ?s] Suc.prems c by (simp add: INT_MIN_def)
  moreover have "nat counter + 1 = Suc (nat (counter - 1) + 1)" using c by simp
  moreover have "spin_exec k (SpinStep t) s = Next ?s" using Suc.prems c by (simp add: spin_poll_def)
  ultimately show ?case by (simp add: fun_upd_upd)
qed

theorem spin_poll_yields_witness:
  "run (spin_exec 1) [SpinStep 2, SpinStep 2] spin_example = Next (s_goto 2 S_Yielded spin_example)"
  using spin_poll_yields [of spin_example 2 1 1]
  by (simp add: spin_example_def INT_MIN_def numeral_2_eq_2)

text \<open>
  Also shown (\<open>coLock\<close> on a free lock). A coroutine that is inside \<open>coLock\<close> and not suspended
  takes a free lock within two steps; a suspended one within three.
\<close>
theorem spin_acquires_free:
  assumes "\<not> locked s" and "spin_pc s t \<noteq> S_Idle" and "spin_pc s t \<noteq> S_Owner"
  shows "\<exists>n \<le> 3. run (spin_exec k) (replicate n (SpinStep t)) s =
    Next (s\<lparr>locked := True, spin_pc := (spin_pc s)(t := S_Owner)\<rparr>)"
proof (cases "spin_pc s t")
  case (S_Try c)
  with assms show ?thesis by (intro exI [of _ 1]) (simp add: spin_defs)
next
  case (S_Poll c)
  with assms show ?thesis by (intro exI [of _ 2]) (simp add: spin_defs numeral_2_eq_2)
next
  case S_Yielded
  with assms show ?thesis by (intro exI [of _ 3]) (simp add: spin_defs numeral_3_eq_3)
qed (use assms in auto)

theorem spin_acquires_free_witness:
  "\<exists>n. run (spin_exec 1) (replicate n (SpinStep 2)) (spin_unlock (s_goto 1 S_Idle spin_example)) =
     Next ((s_goto 1 S_Idle spin_example)\<lparr>spin_pc := (\<lambda>_. S_Idle)(2 := S_Owner)\<rparr>)"
proof -
  let ?s = "spin_unlock (s_goto 1 S_Idle spin_example)"
  have "?s\<lparr>locked := True, spin_pc := (spin_pc ?s)(2 := S_Owner)\<rparr> =
      (s_goto 1 S_Idle spin_example)\<lparr>spin_pc := (\<lambda>_. S_Idle)(2 := S_Owner)\<rparr>"
    by (simp add: spin_unlock_def spin_example_def fun_upd_idem)
  with spin_acquires_free [of ?s 2 1] show ?thesis
    by (auto simp: spin_unlock_def spin_example_def)
qed

end
