(* ===== verification/SharedMutex.thy ===== *)
theory SharedMutex
  imports Prelude
begin

unbundle bit_operations_syntax

text \<open>
  \<open>SharedMutexBase<Lock>\<close> of \<^verbatim>\<open>include/sharedmutex.hpp\<close>: a reader-writer lock made of a lock
  \<open>mut_\<close>, two condition variables and a 32-bit word with the write-entered flag and the reader
  count.

  The two condition variables are used under \<open>mut_\<close> only, so they appear through the contract
  of theory \<open>CondVarSpec\<close>: \<open>wait\<close> queues the coroutine and releases \<open>mut_\<close>
  in one step, a notification makes the newest or all queued coroutines compete for \<open>mut_\<close>
  again.  \<open>mut_\<close> appears through its contract, one holder at a time.  Every statement of the
  operations is a step of its own.  Coroutines are the numbers below \<open>n\<close>.
\<close>

section \<open>The state word\<close>

definition write_entered_flag :: "32 word" where
  "write_entered_flag = push_bit 31 1"

definition max_readers :: "32 word" where
  "max_readers = NOT write_entered_flag"

definition write_entered :: "32 word \<Rightarrow> bool" where
  "write_entered w \<longleftrightarrow> w AND write_entered_flag \<noteq> 0"

definition readers :: "32 word \<Rightarrow> 32 word" where
  "readers w = w AND max_readers"

section \<open>State and steps\<close>

datatype shm_pc =
    H_Idle
  \<comment> \<open>\<open>coLock\<close>\<close>
  | H_WLock | H_WTest | H_WWait1 | H_WRelock1 | H_WFlag | H_WTest2 | H_WWait2 | H_WRelock2 | H_WDone
  | H_Writer
  \<comment> \<open>\<open>unlock\<close>\<close>
  | H_ULock | H_UClear | H_UNotify | H_UDone
  \<comment> \<open>\<open>coLockShared\<close>\<close>
  | H_RLock | H_RTest | H_RWait | H_RRelock | H_RInc | H_RDone
  | H_Reader
  \<comment> \<open>\<open>unlockShared\<close>, with \<open>prev\<close>\<close>
  | H_SLock | H_SDec | H_SNotify "32 word" | H_SDone
  \<comment> \<open>\<open>tryLock\<close> and \<open>tryLockShared\<close> with \<open>mut_\<close> taken, and their results\<close>
  | H_TryW | H_TryWDone bool | H_TryR | H_TryRDone bool

record shm =
  shm_mut :: "nat option"
  shm_state :: "32 word"
  gate1 :: "nat list"      \<comment> \<open>suspended coroutines, newest first\<close>
  gate2 :: "nat list"
  hpc :: "nat \<Rightarrow> shm_pc"

definition shm_init :: shm where
  "shm_init = \<lparr>shm_mut = None, shm_state = 0, gate1 = [], gate2 = [], hpc = (\<lambda>_. H_Idle)\<rparr>"

abbreviation h_goto :: "nat \<Rightarrow> shm_pc \<Rightarrow> shm \<Rightarrow> shm" where
  "h_goto t p s \<equiv> s\<lparr>hpc := (hpc s)(t := p)\<rparr>"

definition mut_lock :: "nat \<Rightarrow> shm_pc \<Rightarrow> shm \<Rightarrow> shm outcome" where
  "mut_lock t p s = (if shm_mut s = None then Next (h_goto t p (s\<lparr>shm_mut := Some t\<rparr>)) else Blocked)"

definition mut_unlock :: "nat \<Rightarrow> shm_pc \<Rightarrow> shm \<Rightarrow> shm outcome" where
  "mut_unlock t p s = Next (h_goto t p (s\<lparr>shm_mut := None\<rparr>))"

definition mut_tryLock :: "nat \<Rightarrow> shm_pc \<Rightarrow> shm \<Rightarrow> shm outcome" where
  "mut_tryLock t p s =
     (if shm_mut s = None then Next (h_goto t p (s\<lparr>shm_mut := Some t\<rparr>)) else Next (h_goto t H_Idle s))"

fun woken :: "shm_pc \<Rightarrow> shm_pc" where
  "woken H_WWait1 = H_WRelock1"
| "woken H_WWait2 = H_WRelock2"
| "woken H_RWait = H_RRelock"
| "woken p = p"

definition notify_all1 :: "shm \<Rightarrow> shm" where
  "notify_all1 s = s\<lparr>gate1 := [], hpc := (\<lambda>x. if x \<in> set (gate1 s) then woken (hpc s x) else hpc s x)\<rparr>"

definition notify_one1 :: "shm \<Rightarrow> shm" where
  "notify_one1 s = (case gate1 s of [] \<Rightarrow> s
     | a # as \<Rightarrow> s\<lparr>gate1 := as, hpc := (hpc s)(a := woken (hpc s a))\<rparr>)"

definition notify_one2 :: "shm \<Rightarrow> shm" where
  "notify_one2 s = (case gate2 s of [] \<Rightarrow> s
     | a # as \<Rightarrow> s\<lparr>gate2 := as, hpc := (hpc s)(a := woken (hpc s a))\<rparr>)"

definition wait_gate1 :: "nat \<Rightarrow> shm_pc \<Rightarrow> shm \<Rightarrow> shm outcome" where
  "wait_gate1 t p s = Next (h_goto t p (s\<lparr>gate1 := t # gate1 s, shm_mut := None\<rparr>))"

definition wait_gate2 :: "nat \<Rightarrow> shm_pc \<Rightarrow> shm \<Rightarrow> shm outcome" where
  "wait_gate2 t p s = Next (h_goto t p (s\<lparr>gate2 := t # gate2 s, shm_mut := None\<rparr>))"

text \<open>\<open>unlockShared\<close> after the decrement.\<close>

definition unlockShared_notify :: "nat \<Rightarrow> 32 word \<Rightarrow> shm \<Rightarrow> shm outcome" where
  "unlockShared_notify t prev s =
     (let s1 = (if write_entered (shm_state s) then (if readers (shm_state s) = 0 then notify_one2 s else s)
                else if prev = max_readers then notify_one1 s else s)
      in Next (h_goto t H_SDone s1))"

fun shm_step :: "nat \<Rightarrow> shm_pc \<Rightarrow> shm \<Rightarrow> shm outcome" where
  "shm_step t H_Idle s = Blocked"
| "shm_step t H_WLock s = mut_lock t H_WTest s"
| "shm_step t H_WTest s =
     (if write_entered (shm_state s) then wait_gate1 t H_WWait1 s else Next (h_goto t H_WFlag s))"
| "shm_step t H_WWait1 s = Blocked"
| "shm_step t H_WRelock1 s = mut_lock t H_WTest s"
| "shm_step t H_WFlag s = Next (h_goto t H_WTest2 (s\<lparr>shm_state := shm_state s OR write_entered_flag\<rparr>))"
| "shm_step t H_WTest2 s =
     (if readers (shm_state s) \<noteq> 0 then wait_gate2 t H_WWait2 s else Next (h_goto t H_WDone s))"
| "shm_step t H_WWait2 s = Blocked"
| "shm_step t H_WRelock2 s = mut_lock t H_WTest2 s"
| "shm_step t H_WDone s = mut_unlock t H_Writer s"
| "shm_step t H_Writer s = Blocked"
| "shm_step t H_ULock s = mut_lock t H_UClear s"
| "shm_step t H_UClear s =
     (if write_entered (shm_state s) then Next (h_goto t H_UNotify (s\<lparr>shm_state := 0\<rparr>)) else Fault AssertFailed)"
| "shm_step t H_UNotify s = Next (h_goto t H_UDone (notify_all1 s))"
| "shm_step t H_UDone s = mut_unlock t H_Idle s"
| "shm_step t H_RLock s = mut_lock t H_RTest s"
| "shm_step t H_RTest s =
     (if shm_state s \<ge> max_readers then wait_gate1 t H_RWait s else Next (h_goto t H_RInc s))"
| "shm_step t H_RWait s = Blocked"
| "shm_step t H_RRelock s = mut_lock t H_RTest s"
| "shm_step t H_RInc s = Next (h_goto t H_RDone (s\<lparr>shm_state := shm_state s + 1\<rparr>))"
| "shm_step t H_RDone s = mut_unlock t H_Reader s"
| "shm_step t H_Reader s = Blocked"
| "shm_step t H_SLock s = mut_lock t H_SDec s"
| "shm_step t H_SDec s =
     (if readers (shm_state s) > 0 then Next (h_goto t (H_SNotify (shm_state s)) (s\<lparr>shm_state := shm_state s - 1\<rparr>))
      else Fault AssertFailed)"
| "shm_step t (H_SNotify prev) s = unlockShared_notify t prev s"
| "shm_step t H_SDone s = mut_unlock t H_Idle s"
| "shm_step t H_TryW s =
     (if shm_state s = 0 then Next (h_goto t (H_TryWDone True) (s\<lparr>shm_state := write_entered_flag\<rparr>))
      else Next (h_goto t (H_TryWDone False) s))"
| "shm_step t (H_TryWDone ok) s = mut_unlock t (if ok then H_Writer else H_Idle) s"
| "shm_step t H_TryR s =
     (if shm_state s < max_readers then Next (h_goto t (H_TryRDone True) (s\<lparr>shm_state := shm_state s + 1\<rparr>))
      else Next (h_goto t (H_TryRDone False) s))"
| "shm_step t (H_TryRDone ok) s = mut_unlock t (if ok then H_Reader else H_Idle) s"

datatype shm_event =
    WLock nat | WTryLock nat | WUnlock nat | RLock nat | RTryLock nat | RUnlock nat | HStep nat

fun shm_exec :: "nat \<Rightarrow> shm_event \<Rightarrow> shm \<Rightarrow> shm outcome" where
  "shm_exec n (WLock t) s = (if t < n \<and> hpc s t = H_Idle then Next (h_goto t H_WLock s) else Blocked)"
| "shm_exec n (WTryLock t) s = (if t < n \<and> hpc s t = H_Idle then mut_tryLock t H_TryW s else Blocked)"
| "shm_exec n (WUnlock t) s = (if hpc s t = H_Writer then Next (h_goto t H_ULock s) else Blocked)"
| "shm_exec n (RLock t) s = (if t < n \<and> hpc s t = H_Idle then Next (h_goto t H_RLock s) else Blocked)"
| "shm_exec n (RTryLock t) s = (if t < n \<and> hpc s t = H_Idle then mut_tryLock t H_TryR s else Blocked)"
| "shm_exec n (RUnlock t) s = (if hpc s t = H_Reader then Next (h_goto t H_SLock s) else Blocked)"
| "shm_exec n (HStep t) s = shm_step t (hpc s t) s"

text \<open>The assertion of the destructor.\<close>

definition shm_destroy :: "shm \<Rightarrow> shm outcome" where
  "shm_destroy s = (if shm_state s = 0 then Next s else Fault AssertFailed)"

lemmas shm_defs = mut_lock_def mut_unlock_def mut_tryLock_def wait_gate1_def wait_gate2_def
  unlockShared_notify_def Let_def

section \<open>The state word as a flag and a count\<close>

definition sh_word :: "bool \<Rightarrow> nat \<Rightarrow> 32 word" where
  "sh_word f r = (if f then 2 ^ 31 else 0) + of_nat r"

lemma sh_consts: "write_entered_flag = 2 ^ 31" "max_readers = mask 31"
  by (simp_all add: write_entered_flag_def max_readers_def mask_eq_exp_minus_1)

lemma unat_sh_word: "r < 2 ^ 31 \<Longrightarrow> unat (sh_word f r) = (if f then 2 ^ 31 else 0) + r"
  by (simp add: sh_word_def unat_word_ariths unat_of_nat)

lemma sh_word_bit: "r < 2 ^ 31 \<Longrightarrow> bit (sh_word f r) 31 = f"
proof -
  assume r: "r < 2 ^ 31"
  have "bit (sh_word f r) 31 \<longleftrightarrow> bit (unat (sh_word f r)) 31" by (simp add: bit_unsigned_iff)
  also have "\<dots> \<longleftrightarrow> odd (unat (sh_word f r) div 2 ^ 31)" by (simp add: bit_iff_odd)
  also have "unat (sh_word f r) div 2 ^ 31 = (if f then 1 else 0)"
    using r div_add1_eq [of "2 ^ 31" r "2 ^ 31"] by (simp add: unat_sh_word)
  finally show ?thesis by simp
qed

lemma sh_write_entered: "r < 2 ^ 31 \<Longrightarrow> write_entered (sh_word f r) = f"
  using and_exp_eq_0_iff_not_bit [of "sh_word f r" 31] sh_word_bit [of r f]
  by (simp add: write_entered_def sh_consts)

lemma sh_readers: "r < 2 ^ 31 \<Longrightarrow> readers (sh_word f r) = of_nat r"
proof -
  assume r: "r < 2 ^ 31"
  have "unat (readers (sh_word f r)) = take_bit 31 (unat (sh_word f r))"
    by (simp only: readers_def sh_consts unsigned_take_bit_eq flip: take_bit_eq_mask)
  also have "\<dots> = unat (sh_word f r) mod 2 ^ 31" by (simp only: take_bit_eq_mod)
  also have "\<dots> = r" using r by (simp add: unat_sh_word)
  finally show ?thesis using r by (simp add: word_unat_eq_iff unat_of_nat)
qed

lemma sh_set_flag: "r < 2 ^ 31 \<Longrightarrow> sh_word False r OR write_entered_flag = sh_word True r"
proof -
  assume r: "r < 2 ^ 31"
  have "sh_word False r AND 2 ^ 31 = 0" using sh_word_bit [OF r, of False] by (simp only: and_exp_eq_0_iff_not_bit not_False_eq_True)
  then have "sh_word False r OR 2 ^ 31 = sh_word False r + 2 ^ 31" by (simp add: disjunctive_add_eq_or)
  then show ?thesis by (simp add: sh_consts sh_word_def)
qed

lemma sh_less_max: "r < 2 ^ 31 \<Longrightarrow> sh_word f r < max_readers \<longleftrightarrow> \<not> f \<and> r < 2 ^ 31 - 1"
  by (simp add: word_less_nat_alt unat_sh_word sh_consts mask_eq_exp_minus_1)

lemma sh_inc: "r < 2 ^ 31 \<Longrightarrow> sh_word f r + 1 = sh_word f (Suc r)" by (simp add: sh_word_def)

lemma sh_dec: "sh_word f (Suc r) - 1 = sh_word f r" by (simp add: sh_word_def)

lemma sh_zero: "r < 2 ^ 31 \<Longrightarrow> sh_word f r = 0 \<longleftrightarrow> \<not> f \<and> r = 0"
  using unat_sh_word [of r f] by (auto simp: unat_eq_0 [symmetric] simp del: unat_eq_0)

lemma sh_max: "r < 2 ^ 31 \<Longrightarrow> sh_word f r = max_readers \<longleftrightarrow> \<not> f \<and> r = 2 ^ 31 - 1"
  by (simp add: word_unat_eq_iff unat_sh_word sh_consts mask_eq_exp_minus_1)

lemma sh_no_readers: "r < 2 ^ 31 \<Longrightarrow> readers (sh_word f r) = 0 \<longleftrightarrow> r = 0"
  by (simp add: sh_readers word_unat_eq_iff unat_of_nat)

section \<open>The abstract reader-writer lock\<close>

record rw_lock =
  rw_writer :: "nat option"      \<comment> \<open>has claimed the lock; owns it once there are no readers\<close>
  rw_readers :: "nat set"

definition rw_init :: rw_lock where
  "rw_init = \<lparr>rw_writer = None, rw_readers = {}\<rparr>"

inductive rw_step :: "rw_lock \<Rightarrow> rw_lock \<Rightarrow> bool" where
  rw_claim: "rw_writer a = None \<Longrightarrow> rw_step a (a\<lparr>rw_writer := Some t\<rparr>)"
| rw_release: "rw_writer a = Some t \<Longrightarrow> rw_readers a = {} \<Longrightarrow> rw_step a (a\<lparr>rw_writer := None\<rparr>)"
| rw_share: "rw_writer a = None \<Longrightarrow> t \<notin> rw_readers a \<Longrightarrow>
    rw_step a (a\<lparr>rw_readers := insert t (rw_readers a)\<rparr>)"
| rw_unshare: "t \<in> rw_readers a \<Longrightarrow> rw_step a (a\<lparr>rw_readers := rw_readers a - {t}\<rparr>)"

section \<open>Representation\<close>

text \<open>Where a coroutine has claimed the lock as writer, owns it as writer, is counted as reader, holds
  \<open>mut_\<close>, or sleeps.\<close>

fun claims :: "shm_pc \<Rightarrow> bool" where
  "claims H_WTest2 = True" | "claims H_WWait2 = True" | "claims H_WRelock2 = True"
| "claims H_WDone = True" | "claims H_Writer = True" | "claims H_ULock = True"
| "claims H_UClear = True" | "claims (H_TryWDone ok) = ok" | "claims _ = False"

fun owns_write :: "shm_pc \<Rightarrow> bool" where
  "owns_write H_WDone = True" | "owns_write H_Writer = True" | "owns_write H_ULock = True"
| "owns_write H_UClear = True" | "owns_write (H_TryWDone ok) = ok" | "owns_write _ = False"

fun counted :: "shm_pc \<Rightarrow> bool" where
  "counted H_RDone = True" | "counted H_Reader = True" | "counted H_SLock = True"
| "counted H_SDec = True" | "counted (H_TryRDone ok) = ok" | "counted _ = False"

fun in_mut :: "shm_pc \<Rightarrow> bool" where
  "in_mut H_WTest = True" | "in_mut H_WFlag = True" | "in_mut H_WTest2 = True" | "in_mut H_WDone = True"
| "in_mut H_UClear = True" | "in_mut H_UNotify = True" | "in_mut H_UDone = True"
| "in_mut H_RTest = True" | "in_mut H_RInc = True" | "in_mut H_RDone = True" | "in_mut H_SDec = True"
| "in_mut (H_SNotify _) = True" | "in_mut H_SDone = True" | "in_mut H_TryW = True"
| "in_mut (H_TryWDone _) = True" | "in_mut H_TryR = True" | "in_mut (H_TryRDone _) = True"
| "in_mut _ = False"

fun on_gate1 :: "shm_pc \<Rightarrow> bool" where
  "on_gate1 H_WWait1 = True" | "on_gate1 H_RWait = True" | "on_gate1 _ = False"

fun notifies2 :: "shm_pc \<Rightarrow> bool" where
  "notifies2 (H_SNotify _) = True" | "notifies2 _ = False"

text \<open>
  The last two conditions are the reason why nobody sleeps for ever: who sleeps on \<open>gate1_\<close> does
  so because a writer has claimed the lock, or is about to be notified; who sleeps on \<open>gate2_\<close>
  because readers are left, or is about to be notified.
\<close>

definition shm_ok :: "nat \<Rightarrow> rw_lock \<Rightarrow> shm \<Rightarrow> nat \<Rightarrow> bool" where
  "shm_ok n a s t \<longleftrightarrow>
     (claims (hpc s t) \<longleftrightarrow> rw_writer a = Some t) \<and> (counted (hpc s t) \<longleftrightarrow> t \<in> rw_readers a) \<and>
     (owns_write (hpc s t) \<longrightarrow> rw_readers a = {}) \<and> (in_mut (hpc s t) \<longrightarrow> shm_mut s = Some t) \<and>
     (hpc s t = H_WFlag \<or> hpc s t = H_RInc \<longrightarrow> rw_writer a = None) \<and>
     (on_gate1 (hpc s t) \<longleftrightarrow> t \<in> set (gate1 s)) \<and> (hpc s t = H_WWait2 \<longleftrightarrow> t \<in> set (gate2 s)) \<and>
     (on_gate1 (hpc s t) \<longrightarrow> rw_writer a \<noteq> None \<or> (\<exists>u. hpc s u = H_UNotify)) \<and>
     (hpc s t = H_WWait2 \<longrightarrow> rw_readers a \<noteq> {} \<or> (\<exists>u. notifies2 (hpc s u))) \<and>
     (hpc s t \<noteq> H_Idle \<longrightarrow> t < n)"

definition shm_rep :: "nat \<Rightarrow> shm \<Rightarrow> rw_lock \<Rightarrow> bool" where
  "shm_rep n s a \<longleftrightarrow> (\<forall>t. shm_ok n a s t) \<and>
     shm_state s = sh_word (rw_writer a \<noteq> None) (card (rw_readers a)) \<and> distinct (gate1 s) \<and> distinct (gate2 s)"

lemma shm_okD:
  assumes "shm_ok n a s t"
  shows "claims (hpc s t) \<longleftrightarrow> rw_writer a = Some t" "counted (hpc s t) \<longleftrightarrow> t \<in> rw_readers a"
    "owns_write (hpc s t) \<Longrightarrow> rw_readers a = {}" "in_mut (hpc s t) \<Longrightarrow> shm_mut s = Some t"
    "hpc s t = H_WFlag \<Longrightarrow> rw_writer a = None" "hpc s t = H_RInc \<Longrightarrow> rw_writer a = None"
    "on_gate1 (hpc s t) \<longleftrightarrow> t \<in> set (gate1 s)" "hpc s t = H_WWait2 \<longleftrightarrow> t \<in> set (gate2 s)"
    "on_gate1 (hpc s t) \<Longrightarrow> rw_writer a \<noteq> None \<or> (\<exists>u. hpc s u = H_UNotify)"
    "hpc s t = H_WWait2 \<Longrightarrow> rw_readers a \<noteq> {} \<or> (\<exists>u. notifies2 (hpc s u))"
    "hpc s t \<noteq> H_Idle \<Longrightarrow> t < n"
  using assms unfolding shm_ok_def by simp_all

lemma shm_okI:
  assumes "claims (hpc s t) \<longleftrightarrow> rw_writer a = Some t" "counted (hpc s t) \<longleftrightarrow> t \<in> rw_readers a"
    "owns_write (hpc s t) \<Longrightarrow> rw_readers a = {}" "in_mut (hpc s t) \<Longrightarrow> shm_mut s = Some t"
    "hpc s t = H_WFlag \<Longrightarrow> rw_writer a = None" "hpc s t = H_RInc \<Longrightarrow> rw_writer a = None"
    "on_gate1 (hpc s t) \<longleftrightarrow> t \<in> set (gate1 s)" "hpc s t = H_WWait2 \<longleftrightarrow> t \<in> set (gate2 s)"
    "on_gate1 (hpc s t) \<Longrightarrow> rw_writer a \<noteq> None \<or> (\<exists>u. hpc s u = H_UNotify)"
    "hpc s t = H_WWait2 \<Longrightarrow> rw_readers a \<noteq> {} \<or> (\<exists>u. notifies2 (hpc s u))"
    "hpc s t \<noteq> H_Idle \<Longrightarrow> t < n"
  shows "shm_ok n a s t"
  using assms unfolding shm_ok_def by blast

lemma shm_rep_init: "shm_rep n shm_init rw_init"
  by (simp add: shm_rep_def shm_ok_def shm_init_def rw_init_def sh_word_def)

lemma shm_repD:
  assumes "shm_rep n s a"
  shows "shm_ok n a s t" "shm_state s = sh_word (rw_writer a \<noteq> None) (card (rw_readers a))"
    "distinct (gate1 s)" "distinct (gate2 s)"
  using assms by (simp_all add: shm_rep_def)

text \<open>There are fewer readers than coroutines, so the count never reaches the flag.\<close>

lemma counted_not_idle: "counted p \<Longrightarrow> p \<noteq> H_Idle"
  by auto

lemma readers_subset: "shm_rep n s a \<Longrightarrow> rw_readers a \<subseteq> {..<n}"
  unfolding shm_rep_def shm_ok_def using counted_not_idle by blast

lemma readers_bound:
  assumes "shm_rep n s a"
  shows "finite (rw_readers a)" "card (rw_readers a) \<le> n"
  using readers_subset [OF assms] card_mono [of "{..<n}"] by (auto intro: finite_subset)

lemma readers_less:
  assumes "shm_rep n s a" "t \<notin> rw_readers a" "t < n"
  shows "card (rw_readers a) < n"
proof -
  from readers_subset [OF assms(1)] assms(2) have "rw_readers a \<subseteq> {..<n} - {t}" by blast
  then have "card (rw_readers a) \<le> card ({..<n} - {t})" by (intro card_mono) auto
  with assms(3) show ?thesis by simp
qed

section \<open>Steps that move one coroutine\<close>

lemma shm_ok_keep:
  assumes "shm_ok n a s u" "hpc s' u = hpc s u" "gate1 s' = gate1 s" "gate2 s' = gate2 s"
    and "in_mut (hpc s u) \<Longrightarrow> shm_mut s' = Some u"
    and "\<exists>x. hpc s x = H_UNotify \<Longrightarrow> \<exists>x. hpc s' x = H_UNotify"
    and "\<exists>x. notifies2 (hpc s x) \<Longrightarrow> \<exists>x. notifies2 (hpc s' x)"
  shows "shm_ok n a s' u"
  using assms(1,5-7) unfolding shm_ok_def assms(2-4)
  by (elim conjE) (intro conjI; (assumption | fast))

text \<open>
  A coroutine that neither sleeps nor notifies moves to a place with the same claims; \<open>mut_\<close> is
  left alone, taken while it is free, or given back by its holder.
\<close>

lemma shm_move:
  assumes rep: "shm_rep n s a" and "hpc s' = (hpc s)(t := p)" "shm_state s' = shm_state s"
    "gate1 s' = gate1 s" "gate2 s' = gate2 s"
    and mut: "shm_mut s' = shm_mut s \<or> shm_mut s = None \<or> shm_mut s = Some t"
    and from_t: "\<not> on_gate1 (hpc s t)" "hpc s t \<noteq> H_WWait2" "hpc s t \<noteq> H_UNotify" "\<not> notifies2 (hpc s t)"
    and to_p: "claims p \<longleftrightarrow> claims (hpc s t)" "counted p \<longleftrightarrow> counted (hpc s t)" "\<not> on_gate1 p" "p \<noteq> H_WWait2"
      "owns_write p \<Longrightarrow> rw_readers a = {}" "in_mut p \<Longrightarrow> shm_mut s' = Some t"
      "p = H_WFlag \<or> p = H_RInc \<Longrightarrow> rw_writer a = None" "p \<noteq> H_Idle \<Longrightarrow> t < n"
  shows "shm_rep n s' a"
proof -
  have other: "shm_ok n a s' u" if u: "u \<noteq> t" for u
  proof -
    have "shm_ok n a s u" by (rule shm_repD(1) [OF rep])
    moreover have "in_mut (hpc s u) \<Longrightarrow> shm_mut s' = Some u"
      using \<open>shm_ok n a s u\<close> mut u by (auto simp: shm_ok_def)
    moreover have "(\<exists>x. hpc s x = H_UNotify) \<Longrightarrow> (\<exists>x. hpc s' x = H_UNotify)"
      using assms(2) from_t(3) by (metis fun_upd_apply)
    moreover have "(\<exists>x. notifies2 (hpc s x)) \<Longrightarrow> (\<exists>x. notifies2 (hpc s' x))"
      using assms(2) from_t(4) by (metis fun_upd_apply)
    moreover have "hpc s' u = hpc s u" using assms(2) u by simp
    ultimately show ?thesis using shm_ok_keep [of n a s u s'] assms(4,5) by blast
  qed
  have "shm_ok n a s t" by (rule shm_repD(1) [OF rep])
  then have "shm_ok n a s' t"
    using assms(2,4,5) from_t to_p unfolding shm_ok_def by simp
  with other have "shm_ok n a s' u" for u by (cases "u = t") auto
  with shm_repD(2-4) [OF rep] assms(3-5) show ?thesis by (simp add: shm_rep_def)
qed

section \<open>Steps that change the lock\<close>

lemma shm_ok_change:
  assumes "shm_ok n a s u" "hpc s' u = hpc s u"
    and "u \<in> set (gate1 s') \<longleftrightarrow> u \<in> set (gate1 s)" "u \<in> set (gate2 s') \<longleftrightarrow> u \<in> set (gate2 s)"
    and "rw_writer a' = Some u \<longleftrightarrow> rw_writer a = Some u" "u \<in> rw_readers a' \<longleftrightarrow> u \<in> rw_readers a"
    and "owns_write (hpc s u) \<Longrightarrow> rw_readers a' = {}" "in_mut (hpc s u) \<Longrightarrow> False"
    and "on_gate1 (hpc s u) \<Longrightarrow> rw_writer a' \<noteq> None \<or> (\<exists>x. hpc s' x = H_UNotify)"
    and "hpc s u = H_WWait2 \<Longrightarrow> rw_readers a' \<noteq> {} \<or> (\<exists>x. notifies2 (hpc s' x))"
  shows "shm_ok n a' s' u"
proof -
  have "\<not> in_mut (hpc s u)" using assms(8) by blast
  then have "hpc s u \<noteq> H_WFlag" "hpc s u \<noteq> H_RInc" by auto
  with assms(1,7-10) show ?thesis
    unfolding shm_ok_def assms(2-6) by (elim conjE) (intro conjI; (assumption | fast))
qed

lemma owns_claims: "owns_write p \<Longrightarrow> claims p"
  by (cases p) auto

text \<open>What a step of the holder of \<open>mut_\<close> knows of the others.\<close>

lemma shm_others:
  assumes rep: "shm_rep n s a" and t: "in_mut (hpc s t)" and u: "u \<noteq> t"
  shows "shm_ok n a s u" "\<not> in_mut (hpc s u)"
    "owns_write (hpc s u) \<Longrightarrow> rw_readers a = {} \<and> rw_writer a = Some u"
    "on_gate1 (hpc s u) \<Longrightarrow> hpc s t \<noteq> H_UNotify \<Longrightarrow> rw_writer a \<noteq> None"
    "hpc s u = H_WWait2 \<Longrightarrow> rw_writer a = Some u"
    "hpc s u = H_WWait2 \<Longrightarrow> \<not> notifies2 (hpc s t) \<Longrightarrow> rw_readers a \<noteq> {}"
proof -
  note ok = shm_okD [OF shm_repD(1) [OF rep]]
  have mut: "shm_mut s = Some t" using ok(4) t by blast
  then have alone: "\<not> in_mut (hpc s x)" if "x \<noteq> t" for x using ok(4) [of x] that by auto
  have un: "hpc s x \<noteq> H_UNotify" if "x \<noteq> t" for x using alone [OF that] by auto
  have n2: "\<not> notifies2 (hpc s x)" if "x \<noteq> t" for x using alone [OF that] by (cases "hpc s x") auto
  show "shm_ok n a s u" by (rule shm_repD(1) [OF rep])
  show "\<not> in_mut (hpc s u)" using alone u by blast
  show "owns_write (hpc s u) \<Longrightarrow> rw_readers a = {} \<and> rw_writer a = Some u"
    using ok(1) [of u] ok(3) [of u] owns_claims by blast
  show "on_gate1 (hpc s u) \<Longrightarrow> hpc s t \<noteq> H_UNotify \<Longrightarrow> rw_writer a \<noteq> None"
    using ok(9) [of u] un by metis
  show "hpc s u = H_WWait2 \<Longrightarrow> rw_writer a = Some u" using ok(1) [of u] by simp
  show "hpc s u = H_WWait2 \<Longrightarrow> \<not> notifies2 (hpc s t) \<Longrightarrow> rw_readers a \<noteq> {}"
    using ok(10) [of u] n2 by metis
qed

lemma shm_repI:
  assumes rep: "shm_rep n s a" and t: "in_mut (hpc s t)" and "shm_ok n a' s' t"
    and pcs: "\<And>u. u \<noteq> t \<Longrightarrow> hpc s' u = hpc s u"
    and gates: "\<And>u. u \<noteq> t \<Longrightarrow> u \<in> set (gate1 s') \<longleftrightarrow> u \<in> set (gate1 s)"
      "\<And>u. u \<noteq> t \<Longrightarrow> u \<in> set (gate2 s') \<longleftrightarrow> u \<in> set (gate2 s)"
    and writer: "\<And>u. u \<noteq> t \<Longrightarrow> rw_writer a' = Some u \<longleftrightarrow> rw_writer a = Some u"
    and reads: "\<And>u. u \<noteq> t \<Longrightarrow> u \<in> rw_readers a' \<longleftrightarrow> u \<in> rw_readers a"
    and owner: "\<And>u. u \<noteq> t \<Longrightarrow> rw_writer a = Some u \<Longrightarrow> rw_readers a = {} \<Longrightarrow> rw_readers a' = {}"
    and wait1: "rw_writer a \<noteq> None \<or> hpc s t = H_UNotify \<Longrightarrow> rw_writer a' \<noteq> None \<or> hpc s' t = H_UNotify"
    and wait2: "\<And>u. u \<noteq> t \<Longrightarrow> rw_writer a = Some u \<Longrightarrow> rw_readers a \<noteq> {} \<or> notifies2 (hpc s t) \<Longrightarrow>
      rw_readers a' \<noteq> {} \<or> notifies2 (hpc s' t)"
    and "shm_state s' = sh_word (rw_writer a' \<noteq> None) (card (rw_readers a'))" "distinct (gate1 s')" "distinct (gate2 s')"
  shows "shm_rep n s' a'"
proof -
  have "shm_ok n a' s' u" for u
  proof (cases "u = t")
    case False
    note k = shm_others [OF rep t False]
    show ?thesis
    proof (rule shm_ok_change [OF k(1)])
      show "owns_write (hpc s u) \<Longrightarrow> rw_readers a' = {}" using k(3) owner [OF False] by blast
      show "on_gate1 (hpc s u) \<Longrightarrow> rw_writer a' \<noteq> None \<or> (\<exists>x. hpc s' x = H_UNotify)"
        using k(4) wait1 by blast
      show "hpc s u = H_WWait2 \<Longrightarrow> rw_readers a' \<noteq> {} \<or> (\<exists>x. notifies2 (hpc s' x))"
        using k(5,6) wait2 [OF False] by blast
    qed (use k(2) pcs gates writer reads False in blast)+
  qed (use assms(3) in simp)
  with assms(12-14) show ?thesis by (simp add: shm_rep_def)
qed

lemma shm_wait1:
  assumes rep: "shm_rep n s a" and t: "hpc s t = H_WTest \<and> p = H_WWait1 \<or> hpc s t = H_RTest \<and> p = H_RWait"
    and w: "rw_writer a \<noteq> None"
  shows "shm_rep n (h_goto t p (s\<lparr>gate1 := t # gate1 s, shm_mut := None\<rparr>)) a"
proof -
  have m: "in_mut (hpc s t)" using t by auto
  note ok = shm_okD [OF shm_repD(1) [OF rep, of t]]
  from w obtain v where v: "rw_writer a = Some v" by blast
  from t show ?thesis
  proof (elim disjE conjE)
    assume "hpc s t = H_WTest" "p = H_WWait1"
    then show ?thesis
      by (intro shm_repI [OF rep m]) (use ok(1,2,7,8,11) v shm_repD(2-4) [OF rep] in \<open>auto intro!: shm_okI\<close>)
  next
    assume "hpc s t = H_RTest" "p = H_RWait"
    then show ?thesis
      by (intro shm_repI [OF rep m]) (use ok(1,2,7,8,11) v shm_repD(2-4) [OF rep] in \<open>auto intro!: shm_okI\<close>)
  qed
qed

lemma shm_wait2:
  assumes rep: "shm_rep n s a" and t: "hpc s t = H_WTest2" and r: "rw_readers a \<noteq> {}"
  shows "shm_rep n (h_goto t H_WWait2 (s\<lparr>gate2 := t # gate2 s, shm_mut := None\<rparr>)) a"
proof -
  have m: "in_mut (hpc s t)" using t by auto
  note ok = shm_okD [OF shm_repD(1) [OF rep, of t]]
  show ?thesis
    by (rule shm_repI [OF rep m]) (use ok(1-4,7,8,11) t r shm_repD(2-4) [OF rep] in \<open>auto intro!: shm_okI\<close>)
qed

lemma shm_claim:
  assumes rep: "shm_rep n s a"
    and t: "hpc s t = H_WFlag \<and> p = H_WTest2 \<or> hpc s t = H_TryW \<and> p = H_TryWDone True \<and> rw_readers a = {}"
    and w: "rw_writer a = None"
    and st: "st = sh_word True (card (rw_readers a))"
  shows "shm_rep n (h_goto t p (s\<lparr>shm_state := st\<rparr>)) (a\<lparr>rw_writer := Some t\<rparr>)"
proof -
  have m: "in_mut (hpc s t)" using t by auto
  note ok = shm_okD [OF shm_repD(1) [OF rep, of t]]
  show ?thesis
    by (rule shm_repI [OF rep m]) (use ok(1-4,7,8,11) t w st shm_repD(2-4) [OF rep] in \<open>auto intro!: shm_okI\<close>)
qed

lemma shm_release:
  assumes rep: "shm_rep n s a" and t: "hpc s t = H_UClear"
  shows "shm_rep n (h_goto t H_UNotify (s\<lparr>shm_state := 0\<rparr>)) (a\<lparr>rw_writer := None\<rparr>)"
    "rw_writer a = Some t \<and> rw_readers a = {}"
proof -
  have m: "in_mut (hpc s t)" using t by auto
  note ok = shm_okD [OF shm_repD(1) [OF rep, of t]]
  show w: "rw_writer a = Some t \<and> rw_readers a = {}" using t ok(1-3) by auto
  show "shm_rep n (h_goto t H_UNotify (s\<lparr>shm_state := 0\<rparr>)) (a\<lparr>rw_writer := None\<rparr>)"
    by (rule shm_repI [OF rep m])
      (use ok(1-4,7,8,11) t w shm_repD(2-4) [OF rep] in \<open>auto intro!: shm_okI simp: sh_word_def\<close>)
qed

lemma shm_share:
  assumes rep: "shm_rep n s a"
    and t: "hpc s t = H_RInc \<and> p = H_RDone \<or> hpc s t = H_TryR \<and> p = H_TryRDone True"
    and w: "rw_writer a = None"
  shows "shm_rep n (h_goto t p (s\<lparr>shm_state := shm_state s + 1\<rparr>)) (a\<lparr>rw_readers := insert t (rw_readers a)\<rparr>)"
    "t \<notin> rw_readers a"
proof -
  have m: "in_mut (hpc s t)" using t by auto
  note ok = shm_okD [OF shm_repD(1) [OF rep, of t]]
  show r: "t \<notin> rw_readers a" using t ok(1-3) by auto
  have "shm_state s + 1 = sh_word False (card (insert t (rw_readers a)))"
    using shm_repD(2) [OF rep] w r readers_bound(1) [OF rep] by (simp add: sh_word_def)
  then show "shm_rep n (h_goto t p (s\<lparr>shm_state := shm_state s + 1\<rparr>)) (a\<lparr>rw_readers := insert t (rw_readers a)\<rparr>)"
    by (intro shm_repI [OF rep m])
      (use ok(1-4,7,8,11) t w shm_repD(3,4) [OF rep] in \<open>auto intro!: shm_okI\<close>)
qed

lemma shm_unshare:
  assumes rep: "shm_rep n s a" and t: "hpc s t = H_SDec"
  shows "shm_rep n (h_goto t (H_SNotify prev) (s\<lparr>shm_state := shm_state s - 1\<rparr>))
      (a\<lparr>rw_readers := rw_readers a - {t}\<rparr>)"
    "t \<in> rw_readers a"
proof -
  have m: "in_mut (hpc s t)" using t by auto
  note ok = shm_okD [OF shm_repD(1) [OF rep, of t]]
  show r: "t \<in> rw_readers a" using t ok(1-3) by auto
  have "Suc (card (rw_readers a - {t})) = card (rw_readers a)"
    using r readers_bound(1) [OF rep] by (rule card_Suc_Diff1 [rotated])
  then have "shm_state s - 1 = sh_word (rw_writer a \<noteq> None) (card (rw_readers a - {t}))"
    using shm_repD(2) [OF rep] by (metis sh_dec)
  then show "shm_rep n (h_goto t (H_SNotify prev) (s\<lparr>shm_state := shm_state s - 1\<rparr>))
      (a\<lparr>rw_readers := rw_readers a - {t}\<rparr>)"
    by (intro shm_repI [OF rep m])
      (use ok(1-4,7,8,11) t r shm_repD(3,4) [OF rep] in \<open>auto intro!: shm_okI\<close>)
qed

section \<open>Notifications\<close>

lemma woken_simps [simp]:
  "claims (woken p) = claims p" "counted (woken p) = counted p" "owns_write (woken p) = owns_write p"
  "in_mut (woken p) = in_mut p" "\<not> on_gate1 (woken p)" "woken p \<noteq> H_WWait2"
  "woken p = H_WFlag \<longleftrightarrow> p = H_WFlag" "woken p = H_RInc \<longleftrightarrow> p = H_RInc" "woken p = H_Idle \<longleftrightarrow> p = H_Idle"
  "woken p = H_UNotify \<longleftrightarrow> p = H_UNotify" "notifies2 (woken p) = notifies2 p"
  by (cases p; simp)+

text \<open>Waking the coroutines in \<open>W\<close>.\<close>

lemma shm_wake:
  assumes rep: "shm_rep n s a" and "hpc s' = (\<lambda>x. if x \<in> W then woken (hpc s x) else hpc s x)"
    "W \<subseteq> set (gate1 s) \<union> set (gate2 s)" "set (gate1 s') = set (gate1 s) - W" "set (gate2 s') = set (gate2 s) - W"
    "distinct (gate1 s')" "distinct (gate2 s')" "shm_state s' = shm_state s" "shm_mut s' = shm_mut s"
  shows "shm_rep n s' a"
proof -
  have "shm_ok n a s' x" for x
  proof -
    note ok = shm_okD [OF shm_repD(1) [OF rep, of x]]
    have pc: "hpc s' x = (if x \<in> W then woken (hpc s x) else hpc s x)" using assms(2) by simp
    have ex: "\<exists>u. hpc s u = H_UNotify \<Longrightarrow> \<exists>u. hpc s' u = H_UNotify"
      "\<exists>u. notifies2 (hpc s u) \<Longrightarrow> \<exists>u. notifies2 (hpc s' u)"
      unfolding assms(2) by (metis woken_simps(10), metis woken_simps(11))
    show ?thesis
    proof (cases "x \<in> W")
      case True
      with pc have p: "hpc s' x = woken (hpc s x)" by simp
      have "x \<notin> set (gate1 s')" "x \<notin> set (gate2 s')" using True assms(4,5) by auto
      then show ?thesis by (intro shm_okI; unfold p woken_simps assms(9)) (use ok in simp_all)
    next
      case False
      with pc have p: "hpc s' x = hpc s x" by simp
      have g: "x \<in> set (gate1 s') \<longleftrightarrow> x \<in> set (gate1 s)" "x \<in> set (gate2 s') \<longleftrightarrow> x \<in> set (gate2 s)"
        using False assms(4,5) by auto
      show ?thesis by (intro shm_okI; unfold p g assms(9)) (use ok ex in blast)+
    qed
  qed
  with shm_repD(2) [OF rep] assms(6-8) show ?thesis by (simp add: shm_rep_def)
qed

text \<open>The end of a notification: nobody depends on it any more.\<close>

lemma shm_notified:
  assumes rep: "shm_rep n s a" and t: "hpc s t = H_UNotify \<and> p = H_UDone \<and> gate1 s = [] \<or>
      hpc s t = H_SNotify v \<and> p = H_SDone \<and> (gate2 s = [] \<or> rw_readers a \<noteq> {})"
  shows "shm_rep n (h_goto t p s) a"
proof -
  let ?s = "h_goto t p s"
  have m: "in_mut (hpc s t)" "in_mut p" using t by auto
  have "shm_ok n a ?s x" for x
  proof -
    note ok = shm_okD [OF shm_repD(1) [OF rep, of x]]
    show ?thesis
    proof (cases "x = t")
      case True
      from t show ?thesis
      proof (elim disjE conjE)
        assume "hpc s t = H_UNotify" "p = H_UDone"
        then show ?thesis by (intro shm_okI) (use ok(1,2,4,7,8,11) True in simp_all)
      qed (intro shm_okI; use ok(1,2,4,7,8,11) True in simp)+
    next
      case False
      note k = shm_others [OF rep m(1) False]
      have g1: "on_gate1 (hpc s x) \<Longrightarrow> rw_writer a \<noteq> None" using k(4) ok(7) t by auto
      have g2: "hpc s x = H_WWait2 \<Longrightarrow> rw_readers a \<noteq> {}" using k(6) ok(8) t by auto
      have p: "hpc ?s x = hpc s x" using False by simp
      show ?thesis by (intro shm_okI; unfold p) (use ok g1 g2 in simp_all)
    qed
  qed
  with shm_repD(2-4) [OF rep] show ?thesis by (simp add: shm_rep_def)
qed

lemma shm_notify_all:
  assumes rep: "shm_rep n s a" and t: "hpc s t = H_UNotify"
  shows "shm_rep n (h_goto t H_UDone (notify_all1 s)) a"
proof -
  have "set (gate1 s) \<inter> set (gate2 s) = {}"
    using shm_okD(7,8) [OF shm_repD(1) [OF rep]] by (metis disjoint_iff on_gate1.simps(9))
  then have r: "shm_rep n (notify_all1 s) a"
    using shm_repD(4) [OF rep]
    by (intro shm_wake [OF rep, where W = "set (gate1 s)"]) (auto simp: notify_all1_def)
  have "hpc (notify_all1 s) t = H_UNotify" "gate1 (notify_all1 s) = []" using t by (simp_all add: notify_all1_def)
  then show ?thesis by (intro shm_notified [OF r]) simp
qed

lemma shm_notify_one1: "shm_rep n s a \<Longrightarrow> shm_rep n (notify_one1 s) a"
proof (cases "gate1 s")
  case (Cons x xs)
  assume rep: "shm_rep n s a"
  have "x \<notin> set (gate2 s)" using Cons shm_okD(7,8) [OF shm_repD(1) [OF rep], of x] by auto
  then show ?thesis
    using Cons shm_repD(3,4) [OF rep]
    by (intro shm_wake [OF rep, where W = "{x}"]) (auto simp: notify_one1_def fun_upd_def)
qed (simp add: notify_one1_def)

lemma shm_notify_one2:
  assumes rep: "shm_rep n s a"
  shows "shm_rep n (notify_one2 s) a" "gate2 (notify_one2 s) = []"
proof -
  note ok = shm_okD [OF shm_repD(1) [OF rep]]
  have one: "x = y" if "x \<in> set (gate2 s)" "y \<in> set (gate2 s)" for x y
    using ok(1,8) that by (metis claims.simps(2) option.inject)
  have "shm_rep n (notify_one2 s) a \<and> gate2 (notify_one2 s) = []"
  proof (cases "gate2 s")
    case Nil
    with rep show ?thesis by (simp add: notify_one2_def)
  next
    case (Cons x xs)
    have "y = x" if "y \<in> set xs" for y using one [of y x] Cons that by simp
    moreover have "x \<notin> set xs" using Cons shm_repD(4) [OF rep] by simp
    ultimately have xs: "xs = []" by (metis list.set_intros(1) neq_Nil_conv)
    have "x \<notin> set (gate1 s)" using Cons ok(7,8) [of x] by auto
    with Cons xs have "shm_rep n (notify_one2 s) a"
      using shm_repD(3,4) [OF rep]
      by (intro shm_wake [OF rep, where W = "{x}"]) (auto simp: notify_one2_def fun_upd_def)
    with Cons xs show ?thesis by (simp add: notify_one2_def)
  qed
  then show "shm_rep n (notify_one2 s) a" "gate2 (notify_one2 s) = []" by auto
qed

lemma shm_unlockShared_notify:
  assumes rep: "shm_rep n s a" and n: "n < 2 ^ 31" and t: "hpc s t = H_SNotify prev"
    and step: "unlockShared_notify t prev s = Next s'"
  shows "shm_rep n s' a"
proof -
  have r: "card (rw_readers a) < 2 ^ 31" using readers_bound(2) [OF rep] n by simp
  note st = shm_repD(2) [OF rep]
  have gate2: "gate2 s = []" if "rw_writer a = None"
    using shm_okD(1,8) [OF shm_repD(1) [OF rep]] that
    by (metis claims.simps(2) list.set_intros(1) neq_Nil_conv option.distinct(1))
  have we: "write_entered (shm_state s) \<longleftrightarrow> rw_writer a \<noteq> None"
    unfolding st by (rule sh_write_entered [OF r])
  have rd: "readers (shm_state s) = 0 \<longleftrightarrow> rw_readers a = {}"
    unfolding st sh_no_readers [OF r] using readers_bound(1) [OF rep] by simp
  have s': "s' = h_goto t H_SDone (if rw_writer a \<noteq> None then (if rw_readers a = {} then notify_one2 s else s)
      else if prev = max_readers then notify_one1 s else s)"
    using step unfolding unlockShared_notify_def we rd Let_def by simp
  have p2: "hpc (notify_one2 s) t = H_SNotify prev"
    using t by (auto simp: notify_one2_def split: list.split)
  have p1: "hpc (notify_one1 s) t = H_SNotify prev" "gate2 (notify_one1 s) = gate2 s"
    using t by (auto simp: notify_one1_def split: list.split)
  have keep: "shm_rep n (h_goto t H_SDone s) a" if "gate2 s = [] \<or> rw_readers a \<noteq> {}"
    by (rule shm_notified [OF rep]) (use t that in blast)
  show ?thesis
  proof (cases "rw_writer a = None")
    case True
    have "shm_rep n (h_goto t H_SDone (notify_one1 s)) a"
      by (rule shm_notified [OF shm_notify_one1 [OF rep]]) (use p1 gate2 [OF True] in simp)
    with keep gate2 [OF True] True show ?thesis unfolding s' by simp
  next
    case False
    have "shm_rep n (h_goto t H_SDone (notify_one2 s)) a"
      by (rule shm_notified [OF shm_notify_one2(1) [OF rep]]) (use p2 shm_notify_one2(2) [OF rep] in blast)
    with keep False show ?thesis unfolding s' by simp
  qed
qed

section \<open>Every step refines the abstract lock\<close>

lemma shm_lock_rep:
  assumes rep: "shm_rep n s a" and step: "mut_lock t p s = Next s'"
    and from_t: "\<not> on_gate1 (hpc s t)" "hpc s t \<noteq> H_WWait2" "hpc s t \<noteq> H_UNotify" "\<not> notifies2 (hpc s t)" "hpc s t \<noteq> H_Idle"
    and to_p: "claims p \<longleftrightarrow> claims (hpc s t)" "counted p \<longleftrightarrow> counted (hpc s t)" "\<not> on_gate1 p" "p \<noteq> H_WWait2"
      "owns_write p \<longleftrightarrow> owns_write (hpc s t)" "p \<noteq> H_WFlag" "p \<noteq> H_RInc"
  shows "shm_rep n s' a"
proof -
  note ok = shm_okD [OF shm_repD(1) [OF rep, of t]]
  from step have s': "shm_mut s = None" "s' = h_goto t p (s\<lparr>shm_mut := Some t\<rparr>)"
    by (auto simp: mut_lock_def split: if_splits)
  show ?thesis unfolding s'(2)
    by (rule shm_move [OF rep, where t = t and p = p]) (use s'(1) from_t to_p ok(3,11) in simp_all)
qed

lemma shm_unlock_rep:
  assumes rep: "shm_rep n s a" and step: "mut_unlock t p s = Next s'" and m: "in_mut (hpc s t)"
    and from_t: "\<not> on_gate1 (hpc s t)" "hpc s t \<noteq> H_WWait2" "hpc s t \<noteq> H_UNotify" "\<not> notifies2 (hpc s t)"
    and to_p: "claims p \<longleftrightarrow> claims (hpc s t)" "counted p \<longleftrightarrow> counted (hpc s t)" "\<not> on_gate1 p" "p \<noteq> H_WWait2"
      "owns_write p \<longleftrightarrow> owns_write (hpc s t)" "p \<noteq> H_WFlag" "p \<noteq> H_RInc" "\<not> in_mut p"
  shows "shm_rep n s' a"
proof -
  note ok = shm_okD [OF shm_repD(1) [OF rep, of t]]
  have "hpc s t \<noteq> H_Idle" using m by auto
  have s': "s' = h_goto t p (s\<lparr>shm_mut := None\<rparr>)" using step by (simp add: mut_unlock_def)
  show ?thesis unfolding s'
    by (rule shm_move [OF rep, where t = t and p = p]) (use m from_t to_p ok(3,4,11) \<open>hpc s t \<noteq> H_Idle\<close> in simp_all)
qed

text \<open>Moves of the holder of \<open>mut_\<close> that keep it.\<close>

lemma shm_goto_rep:
  assumes rep: "shm_rep n s a" and m: "in_mut (hpc s t)" "in_mut p"
    and from_t: "hpc s t \<noteq> H_UNotify" "\<not> notifies2 (hpc s t)"
    and to_p: "claims p \<longleftrightarrow> claims (hpc s t)" "counted p \<longleftrightarrow> counted (hpc s t)"
      "owns_write p \<Longrightarrow> rw_readers a = {}" "p = H_WFlag \<or> p = H_RInc \<Longrightarrow> rw_writer a = None"
  shows "shm_rep n (h_goto t p s) a"
proof -
  note ok = shm_okD [OF shm_repD(1) [OF rep, of t]]
  have "hpc s t \<noteq> H_Idle" "\<not> on_gate1 (hpc s t)" "hpc s t \<noteq> H_WWait2" "\<not> on_gate1 p" "p \<noteq> H_WWait2"
    using m by (cases "hpc s t"; auto; cases p; auto)+
  then show ?thesis
    by (intro shm_move [OF rep, where t = t and p = p]) (use m from_t to_p ok(4,11) in simp_all)
qed

lemma shm_step_rep:
  assumes rep: "shm_rep n s a" and n: "n < 2 ^ 31" and step: "shm_step t (hpc s t) s = Next s'"
  shows "\<exists>a'. (a' = a \<or> rw_step a a') \<and> shm_rep n s' a'"
proof -
  note ok = shm_okD [OF shm_repD(1) [OF rep, of t]] and st = shm_repD(2) [OF rep]
  have r: "card (rw_readers a) < 2 ^ 31" using readers_bound(2) [OF rep] n by simp
  have we: "write_entered (shm_state s) \<longleftrightarrow> rw_writer a \<noteq> None"
    unfolding st by (rule sh_write_entered [OF r])
  have rd: "readers (shm_state s) = 0 \<longleftrightarrow> rw_readers a = {}"
    unfolding st sh_no_readers [OF r] using readers_bound(1) [OF rep] by simp
  have less: "shm_state s < max_readers \<longleftrightarrow> rw_writer a = None" if "t \<notin> rw_readers a" "t < n"
    using sh_less_max [OF r, of "rw_writer a \<noteq> None"] readers_less [OF rep that] n unfolding st by auto
  have zero: "shm_state s = 0 \<longleftrightarrow> rw_writer a = None \<and> rw_readers a = {}"
    unfolding st sh_zero [OF r] using readers_bound(1) [OF rep] by simp
  have same: "shm_rep n s' a \<Longrightarrow> ?thesis" by blast
  show ?thesis
  proof (cases "hpc s t")
    case H_WLock
    with step shm_lock_rep [OF rep, of t H_WTest s'] show ?thesis by (intro same) simp
  next
    case H_WTest
    show ?thesis
    proof (cases "rw_writer a = None")
      case True
      with H_WTest step we have "s' = h_goto t H_WFlag s" by simp
      with True H_WTest show ?thesis by (intro same) (auto intro!: shm_goto_rep [OF rep])
    next
      case False
      with H_WTest step we shm_wait1 [OF rep, of t H_WWait1] show ?thesis
        by (intro same) (auto simp: wait_gate1_def)
    qed
  next
    case H_WRelock1
    with step shm_lock_rep [OF rep, of t H_WTest s'] show ?thesis by (intro same) simp
  next
    case H_WFlag
    have w: "rw_writer a = None" using ok(5) H_WFlag by simp
    have "shm_state s OR write_entered_flag = sh_word True (card (rw_readers a))"
      unfolding st using sh_set_flag [OF r] w by simp
    from shm_claim [OF rep _ w this, of t H_WTest2] H_WFlag step
    have "shm_rep n s' (a\<lparr>rw_writer := Some t\<rparr>)" by simp
    with rw_claim [OF w] show ?thesis by blast
  next
    case H_WTest2
    show ?thesis
    proof (cases "rw_readers a = {}")
      case True
      with H_WTest2 step rd have "s' = h_goto t H_WDone s" by simp
      with True H_WTest2 show ?thesis by (intro same) (auto intro!: shm_goto_rep [OF rep])
    next
      case False
      with H_WTest2 step rd shm_wait2 [OF rep, of t] show ?thesis
        by (intro same) (auto simp: wait_gate2_def)
    qed
  next
    case H_WRelock2
    with step shm_lock_rep [OF rep, of t H_WTest2 s'] show ?thesis by (intro same) simp
  next
    case H_WDone
    with step shm_unlock_rep [OF rep, of t H_Writer s'] show ?thesis by (intro same) simp
  next
    case H_ULock
    with step shm_lock_rep [OF rep, of t H_UClear s'] show ?thesis by (intro same) simp
  next
    case H_UClear
    note rel = shm_release [OF rep H_UClear]
    with H_UClear step we have "s' = h_goto t H_UNotify (s\<lparr>shm_state := 0\<rparr>)" by (auto split: if_splits)
    with rel rw_release [of a t] show ?thesis by blast
  next
    case H_UNotify
    with step shm_notify_all [OF rep, of t] show ?thesis by (intro same) simp
  next
    case H_UDone
    with step shm_unlock_rep [OF rep, of t H_Idle s'] show ?thesis by (intro same) simp
  next
    case H_RLock
    with step shm_lock_rep [OF rep, of t H_RTest s'] show ?thesis by (intro same) simp
  next
    case H_RTest
    have t: "t \<notin> rw_readers a" "t < n" using ok(2,11) H_RTest by auto
    show ?thesis
    proof (cases "rw_writer a = None")
      case True
      with H_RTest step less [OF t] have "s' = h_goto t H_RInc s" by (simp add: not_le [symmetric])
      with True H_RTest show ?thesis by (intro same) (auto intro!: shm_goto_rep [OF rep])
    next
      case False
      with less [OF t] have "max_readers \<le> shm_state s" by simp
      with False H_RTest step shm_wait1 [OF rep, of t H_RWait] show ?thesis
        by (intro same) (auto simp: wait_gate1_def)
    qed
  next
    case H_RRelock
    with step shm_lock_rep [OF rep, of t H_RTest s'] show ?thesis by (intro same) simp
  next
    case H_RInc
    have w: "rw_writer a = None" using ok(6) H_RInc by simp
    from shm_share [OF rep _ w, of t H_RDone] H_RInc step
    have "shm_rep n s' (a\<lparr>rw_readers := insert t (rw_readers a)\<rparr>)" "t \<notin> rw_readers a" by simp_all
    with rw_share [OF w] show ?thesis by blast
  next
    case H_RDone
    with step shm_unlock_rep [OF rep, of t H_Reader s'] show ?thesis by (intro same) simp
  next
    case H_SLock
    with step shm_lock_rep [OF rep, of t H_SDec s'] show ?thesis by (intro same) simp
  next
    case H_SDec
    note un = shm_unshare(1) [OF rep H_SDec, of "shm_state s"] shm_unshare(2) [OF rep H_SDec]
    from H_SDec step have "s' = h_goto t (H_SNotify (shm_state s)) (s\<lparr>shm_state := shm_state s - 1\<rparr>)"
      by (auto split: if_splits)
    with un rw_unshare [OF un(2)] show ?thesis by blast
  next
    case (H_SNotify prev)
    with step shm_unlockShared_notify [OF rep n, of t prev] show ?thesis by (intro same) simp
  next
    case H_SDone
    with step shm_unlock_rep [OF rep, of t H_Idle s'] show ?thesis by (intro same) simp
  next
    case H_TryW
    show ?thesis
    proof (cases "shm_state s = 0")
      case True
      then have w: "rw_writer a = None" "rw_readers a = {}" using zero by auto
      have "write_entered_flag = sh_word True (card (rw_readers a))" using w by (simp add: sh_consts sh_word_def)
      from shm_claim [OF rep _ w(1) this, of t "H_TryWDone True"] H_TryW w step True
      have "shm_rep n s' (a\<lparr>rw_writer := Some t\<rparr>)" by simp
      with rw_claim [OF w(1)] show ?thesis by blast
    next
      case False
      with H_TryW step have "s' = h_goto t (H_TryWDone False) s" by simp
      with H_TryW show ?thesis by (intro same) (auto intro!: shm_goto_rep [OF rep])
    qed
  next
    case (H_TryWDone ok')
    with step shm_unlock_rep [OF rep, of t "if ok' then H_Writer else H_Idle" s'] show ?thesis
      by (intro same) (cases ok'; simp)
  next
    case H_TryR
    have t: "t \<notin> rw_readers a" "t < n" using ok(2,11) H_TryR by auto
    show ?thesis
    proof (cases "rw_writer a = None")
      case True
      with less [OF t] have l: "shm_state s < max_readers" by simp
      from shm_share [OF rep _ True, of t "H_TryRDone True"] H_TryR step l
      have "shm_rep n s' (a\<lparr>rw_readers := insert t (rw_readers a)\<rparr>)" by simp
      with rw_share [OF True t(1)] show ?thesis by blast
    next
      case False
      with less [OF t] H_TryR step have "s' = h_goto t (H_TryRDone False) s" by simp
      with H_TryR show ?thesis by (intro same) (auto intro!: shm_goto_rep [OF rep])
    qed
  next
    case (H_TryRDone ok')
    with step shm_unlock_rep [OF rep, of t "if ok' then H_Reader else H_Idle" s'] show ?thesis
      by (intro same) (cases ok'; simp)
  qed (use step in simp_all)
qed

lemma shm_call_rep:
  assumes rep: "shm_rep n s a" and "t < n" "\<not> in_mut p" "\<not> on_gate1 p" "p \<noteq> H_WWait2"
    and t: "hpc s t = H_Idle \<and> \<not> claims p \<and> \<not> counted p \<or> hpc s t = H_Writer \<and> p = H_ULock \<or>
      hpc s t = H_Reader \<and> p = H_SLock"
  shows "shm_rep n (h_goto t p s) a"
proof -
  note ok = shm_okD [OF shm_repD(1) [OF rep, of t]]
  have "\<not> claims p \<Longrightarrow> \<not> owns_write p" using owns_claims by blast
  then show ?thesis
    by (intro shm_move [OF rep, where t = t and p = p]) (use t assms(2-5) ok(3) in auto)
qed

lemma shm_tryLock_rep:
  assumes rep: "shm_rep n s a" and "t < n" "hpc s t = H_Idle" "p = H_TryW \<or> p = H_TryR"
    and step: "mut_tryLock t p s = Next s'"
  shows "shm_rep n s' a"
proof (cases "shm_mut s = None")
  case True
  then have s': "s' = h_goto t p (s\<lparr>shm_mut := Some t\<rparr>)" using step by (simp add: mut_tryLock_def)
  show ?thesis unfolding s'
    by (rule shm_move [OF rep, where t = t and p = p]) (use True assms(2-4) in auto)
next
  case False
  then have "s' = h_goto t H_Idle s" using step by (auto simp: mut_tryLock_def)
  moreover have "h_goto t H_Idle s = s" using assms(3) by (simp add: fun_upd_idem)
  ultimately have "s' = s" by (rule trans)
  with rep show ?thesis by simp
qed

lemma shm_exec_rep:
  assumes rep: "shm_rep n s a" and n: "n < 2 ^ 31" and step: "shm_exec n e s = Next s'"
  shows "\<exists>a'. (a' = a \<or> rw_step a a') \<and> shm_rep n s' a'"
proof -
  note ok = shm_okD [OF shm_repD(1) [OF rep]]
  have same: "shm_rep n s' a \<Longrightarrow> ?thesis" by blast
  show ?thesis
  proof (cases e)
    case (HStep t)
    with shm_step_rep [OF rep n] step show ?thesis by simp
  next
    case (WLock t)
    with step shm_call_rep [OF rep, of t H_WLock] show ?thesis by (intro same) (simp split: if_splits)
  next
    case (RLock t)
    with step shm_call_rep [OF rep, of t H_RLock] show ?thesis by (intro same) (simp split: if_splits)
  next
    case (WUnlock t)
    with step have "hpc s t = H_Writer" "s' = h_goto t H_ULock s" by (auto split: if_splits)
    with ok(11) [of t] show ?thesis by (intro same) (simp add: shm_call_rep [OF rep])
  next
    case (RUnlock t)
    with step have "hpc s t = H_Reader" "s' = h_goto t H_SLock s" by (auto split: if_splits)
    with ok(11) [of t] show ?thesis by (intro same) (simp add: shm_call_rep [OF rep])
  next
    case (WTryLock t)
    with step shm_tryLock_rep [OF rep, of t H_TryW] show ?thesis by (intro same) (simp split: if_splits)
  next
    case (RTryLock t)
    with step shm_tryLock_rep [OF rep, of t H_TryR] show ?thesis by (intro same) (simp split: if_splits)
  qed
qed

lemma shm_exec_no_fault:
  assumes rep: "shm_rep n s a" and n: "n < 2 ^ 31"
  shows "shm_exec n e s \<noteq> Fault f"
proof (cases e)
  case (HStep t)
  note ok = shm_okD [OF shm_repD(1) [OF rep, of t]] and st = shm_repD(2) [OF rep]
  have r: "card (rw_readers a) < 2 ^ 31" using readers_bound(2) [OF rep] n by simp
  show ?thesis
  proof (cases "hpc s t")
    case H_UClear
    with ok(1) have "write_entered (shm_state s)" unfolding st sh_write_entered [OF r] by simp
    with HStep H_UClear show ?thesis by simp
  next
    case H_SDec
    with ok(2) have "rw_readers a \<noteq> {}" by auto
    then have "readers (shm_state s) \<noteq> 0"
      unfolding st sh_no_readers [OF r] using readers_bound(1) [OF rep] by simp
    then have "0 < readers (shm_state s)" by (simp add: word_neq_0_conv)
    with HStep H_SDec show ?thesis by simp
  qed (use HStep in \<open>simp_all add: shm_defs\<close>)
qed (auto simp: shm_defs)

lemma shm_machine:
  assumes "n < 2 ^ 31"
  shows "refining_machine shm_init (shm_exec n) (shm_rep n) rw_step rw_init"
  using shm_rep_init shm_exec_rep [OF _ assms] shm_exec_no_fault [OF _ assms] by unfold_locales

text \<open>The machine for as many coroutines as the reader count can hold.\<close>

interpretation shm: refining_machine shm_init "shm_exec 2147483647" "shm_rep 2147483647" rw_step rw_init
  by (rule shm_machine) simp

section \<open>Properties\<close>

text \<open>
  Property C6 (refinement of a reader-writer lock). With fewer than \<open>2 ^ 31\<close> coroutines, every
  reachable state of the word, the gates and the coroutines represents a state of the abstract lock
  that its steps claim, release, share and unshare reach: a writer claims only an unclaimed lock,
  releases it only when there are no readers, and a reader is added only while nobody claims it.
\<close>
theorem shm_refines_rw_lock:
  assumes "n < 2 ^ 31" and "reach (shm_exec n) shm_init s"
  shows "\<exists>a. reach_spec rw_step rw_init a \<and> shm_rep n s a"
  using refining_machine.reach_rep [OF shm_machine [OF assms(1)] assms(2)] .

text \<open>Coroutine 0 reads, coroutine 1 waits to write, coroutine 2 waits behind it.\<close>

definition shm_demo :: shm where
  "shm_demo = \<lparr>shm_mut = None, shm_state = write_entered_flag + 1, gate1 = [2], gate2 = [1],
     hpc = (\<lambda>_. H_Idle)(0 := H_Reader, 1 := H_WWait2, 2 := H_RWait)\<rparr>"

lemma shm_demo_run:
  "run (shm_exec 3)
     [RLock 0, HStep 0, HStep 0, HStep 0, HStep 0, WLock 1, HStep 1, HStep 1, HStep 1, HStep 1,
      RLock 2, HStep 2, HStep 2] shm_init = Next shm_demo"
proof -
  have w: "write_entered 1 = False" "(1 :: 32 word) OR write_entered_flag = write_entered_flag + 1"
    "readers (write_entered_flag + 1) \<noteq> 0" "max_readers \<le> write_entered_flag + 1"
    using sh_write_entered [of 1 False] sh_set_flag [of 1] sh_no_readers [of 1 True]
      sh_less_max [of 1 True]
    by (simp_all add: sh_word_def sh_consts add.commute)
  have z: "max_readers \<noteq> 0" by (simp add: sh_consts mask_eq_exp_minus_1)
  show ?thesis
    by (simp add: shm_init_def shm_defs w z shm_demo_def fun_upd_twist del: bind_outcome_Next)
qed

lemma shm_demo_reach: "reach (shm_exec 3) shm_init shm_demo"
  using run_reach [OF reach_init shm_demo_run] .

theorem shm_refines_rw_lock_witness: "\<exists>a. shm_rep 3 shm_demo a \<and> rw_writer a = Some 1"
proof -
  obtain a where a: "shm_rep 3 shm_demo a" using shm_refines_rw_lock [OF _ shm_demo_reach] by auto
  from shm_okD(1) [OF shm_repD(1) [OF a, of 1]] have "rw_writer a = Some 1" by (simp add: shm_demo_def)
  with a show ?thesis by blast
qed

text \<open>
  Property C18 (readers and writers exclude each other). While a coroutine owns the lock for
  writing, no other coroutine owns it for writing and none for reading.
\<close>
theorem shm_exclusion:
  assumes "n < 2 ^ 31" and "reach (shm_exec n) shm_init s" and "hpc s t = H_Writer"
  shows "hpc s u \<noteq> H_Reader \<and> (hpc s u = H_Writer \<longrightarrow> u = t)"
proof -
  from refining_machine.reach_rep [OF shm_machine [OF assms(1)] assms(2)]
  obtain a where "shm_rep n s a" by blast
  note ok = shm_okD [OF shm_repD(1) [OF this]]
  show ?thesis using ok(1,3) [of t] ok(1,2) [of u] assms(3) by auto
qed

theorem shm_exclusion_witness:
  "\<exists>s. run (shm_exec 3) [WTryLock 0, HStep 0, HStep 0] shm_init = Next s \<and> hpc s 0 = H_Writer \<and>
     hpc s 1 \<noteq> H_Reader"
proof -
  let ?s = "\<lparr>shm_mut = None, shm_state = write_entered_flag, gate1 = [], gate2 = [],
     hpc = (\<lambda>_. H_Idle)(0 := H_Writer)\<rparr>"
  have r: "run (shm_exec 3) [WTryLock 0, HStep 0, HStep 0] shm_init = Next ?s"
    by (simp add: shm_init_def shm_defs del: bind_outcome_Next)
  have w: "hpc ?s 0 = H_Writer" by simp
  from shm_exclusion [OF _ run_reach [OF reach_init r] w, of 1] have "hpc ?s 1 \<noteq> H_Reader" by simp
  with r w show ?thesis by blast
qed

text \<open>
  Also shown (no assertion fails). With fewer than \<open>2 ^ 31\<close> coroutines neither the assertion of
  \<open>unlock\<close> (the write flag is set) nor that of \<open>unlockShared\<close> (a reader is counted) fails.
\<close>
theorem shm_never_faults:
  assumes "n < 2 ^ 31"
  shows "run (shm_exec n) es shm_init \<noteq> Fault f"
proof -
  have "refining_machine shm_init (shm_exec n) (shm_rep n) rw_step rw_init" using assms by (rule shm_machine)
  then show ?thesis by (rule refining_machine.run_never_faults)
qed

text \<open>
  Property C26 (nobody sleeps for nothing). A coroutine that sleeps on \<open>gate1_\<close> does so because a
  writer has claimed the lock or a writer that released it is about to wake everybody; one that
  sleeps on \<open>gate2_\<close> because there is a reader or the last one is about to wake it.
\<close>
theorem shm_no_lost_sleeper:
  assumes "n < 2 ^ 31" and "reach (shm_exec n) shm_init s"
  shows "(on_gate1 (hpc s t) \<longrightarrow> (\<exists>u. claims (hpc s u) \<or> hpc s u = H_UNotify)) \<and>
    (hpc s t = H_WWait2 \<longrightarrow> (\<exists>u. counted (hpc s u) \<or> notifies2 (hpc s u)))"
proof -
  from refining_machine.reach_rep [OF shm_machine [OF assms(1)] assms(2)]
  obtain a where "shm_rep n s a" by blast
  note ok = shm_okD [OF shm_repD(1) [OF this]]
  show ?thesis using ok(9,10) [of t] ok(1,2) by (metis ex_in_conv option.exhaust)
qed

theorem shm_no_lost_sleeper_witness:
  "(\<exists>u. claims (hpc shm_demo u) \<or> hpc shm_demo u = H_UNotify) \<and>
   (\<exists>u. counted (hpc shm_demo u) \<or> notifies2 (hpc shm_demo u))"
  using shm_no_lost_sleeper [OF _ shm_demo_reach, of 2] shm_no_lost_sleeper [OF _ shm_demo_reach, of 1]
  by (simp add: shm_demo_def)

theorem shm_never_faults_witness: "run (shm_exec 3) [WLock 0, HStep 0, HStep 0] shm_init \<noteq> Fault AssertFailed"
  by (rule shm_never_faults) simp

text \<open>
  Also shown (the destructor checks that the lock is free). Its assertion holds exactly if no coroutine
  has claimed the lock for writing and none is counted as reader.
\<close>
theorem shm_destroy_iff:
  assumes "n < 2 ^ 31" and "reach (shm_exec n) shm_init s"
  shows "shm_destroy s = Next s \<longleftrightarrow> (\<forall>t. \<not> claims (hpc s t) \<and> \<not> counted (hpc s t))"
proof -
  from refining_machine.reach_rep [OF shm_machine [OF assms(1)] assms(2)] obtain a where rep: "shm_rep n s a" by blast
  note ok = shm_okD [OF shm_repD(1) [OF rep]] and fin = readers_bound [OF rep]
  have "shm_state s = 0 \<longleftrightarrow> rw_writer a = None \<and> rw_readers a = {}"
    using sh_zero [of "card (rw_readers a)" "rw_writer a \<noteq> None"] shm_repD(2) [OF rep] fin assms(1) by simp
  also have "\<dots> \<longleftrightarrow> (\<forall>t. \<not> claims (hpc s t) \<and> \<not> counted (hpc s t))"
    using ok(1,2) by (cases "rw_writer a") auto
  finally show ?thesis by (simp add: shm_destroy_def)
qed

theorem shm_destroy_iff_witness: "shm_destroy shm_demo \<noteq> Next shm_demo"
proof -
  have "counted (hpc shm_demo 0)" by (simp add: shm_demo_def)
  with shm_destroy_iff [OF _ shm_demo_reach] show ?thesis by auto
qed

end
