(* ===== verification/LockClient.thy ===== *)
theory LockClient
  imports CoMutex CoSpinLock SharedMutex
begin

text \<open>
  The readers and writers of \<^verbatim>\<open>benchmarks/colocking.cpp\<close>: the functions \<open>reader\<close> and
  \<open>writer\<close> over \<open>Mutex\<close>, \<open>SpinLock\<close> and \<open>SharedMutex\<close>.

  They differ in the lock only, so the model takes the lock as a parameter.  What the clients rely
  on is the locale \<open>shared_lock\<close>, whose readers may share the lock; an \<open>exclusive_lock\<close> gives it
  with one way to hold the lock.  All three locks of the library provide their contract.
\<close>

section \<open>The interfaces of the locks\<close>

text \<open>
  \<open>wholds s t\<close> and \<open>rholds s t\<close>: in state \<open>s\<close> coroutine \<open>t\<close> is between the return of the
  operation that locks for writing or for reading and the call of the one that unlocks;
  \<open>unlocks e\<close> is the coroutine whose call of an unlock operation the event \<open>e\<close> is.
\<close>

locale shared_lock =
  fixes init :: 's
    and exec :: "'e \<Rightarrow> 's \<Rightarrow> 's outcome"
    and wholds :: "'s \<Rightarrow> nat \<Rightarrow> bool"
    and rholds :: "'s \<Rightarrow> nat \<Rightarrow> bool"
    and unlocks :: "'e \<Rightarrow> nat option"
  assumes writer_alone: "reach exec init s \<Longrightarrow> wholds s t \<Longrightarrow> wholds s u \<or> rholds s u \<Longrightarrow> u = t"
    and wkeeps: "exec e s = Next s' \<Longrightarrow> wholds s t \<Longrightarrow> unlocks e \<noteq> Some t \<Longrightarrow> wholds s' t"
    and rkeeps: "exec e s = Next s' \<Longrightarrow> rholds s t \<Longrightarrow> unlocks e \<noteq> Some t \<Longrightarrow> rholds s' t"
    and lock_no_fault: "reach exec init s \<Longrightarrow> exec e s \<noteq> Fault f"

locale exclusive_lock =
  fixes init :: 's
    and exec :: "'e \<Rightarrow> 's \<Rightarrow> 's outcome"
    and holds :: "'s \<Rightarrow> nat \<Rightarrow> bool"
    and unlocks :: "'e \<Rightarrow> nat option"
  assumes exclusive: "reach exec init s \<Longrightarrow> holds s t \<Longrightarrow> holds s u \<Longrightarrow> t = u"
    and keeps: "exec e s = Next s' \<Longrightarrow> holds s t \<Longrightarrow> unlocks e \<noteq> Some t \<Longrightarrow> holds s' t"
    and exclusive_no_fault: "reach exec init s \<Longrightarrow> exec e s \<noteq> Fault f"

sublocale exclusive_lock \<subseteq> shared_lock init exec holds holds unlocks
  by unfold_locales (use exclusive keeps exclusive_no_fault in blast)+

section \<open>Readers and writers\<close>

datatype body_pc =
    B_Outside      \<comment> \<open>not in the critical section, or just entered\<close>
  | B_Assert       \<comment> \<open>reader: before \<open>assert(gp->a == 8)\<close>\<close>
  | B_Clear        \<comment> \<open>writer: before \<open>gp->a = 0\<close>\<close>
  | B_Set          \<comment> \<open>writer: before \<open>gp->a = 8\<close>\<close>
  | B_End          \<comment> \<open>before \<open>lock.unlock()\<close>\<close>

record 's client =
  lk :: 's
  gp_a :: int
  bpc :: "nat \<Rightarrow> body_pc"
  res :: "nat \<Rightarrow> nat"      \<comment> \<open>rounds done by each coroutine\<close>

datatype 'e client_event = LockOp 'e | Body nat

definition client_init :: "'s \<Rightarrow> 's client" where
  "client_init i = \<lparr>lk = i, gp_a = 8, bpc = (\<lambda>_. B_Outside), res = (\<lambda>_. 0)\<rparr>"

abbreviation b_goto :: "nat \<Rightarrow> body_pc \<Rightarrow> 's client \<Rightarrow> 's client" where
  "b_goto t p s \<equiv> s\<lparr>bpc := (bpc s)(t := p)\<rparr>"

fun body_step :: "bool \<Rightarrow> nat \<Rightarrow> body_pc \<Rightarrow> 's client \<Rightarrow> 's client outcome" where
  "body_step writer t B_Outside s = Next (b_goto t (if writer then B_Clear else B_Assert) s)"
| "body_step writer t B_Assert s = (if gp_a s = 8 then Next (b_goto t B_End s) else Fault AssertFailed)"
| "body_step writer t B_Clear s = Next (b_goto t B_Set (s\<lparr>gp_a := 0\<rparr>))"
| "body_step writer t B_Set s = Next (b_goto t B_End (s\<lparr>gp_a := 8\<rparr>))"
| "body_step writer t B_End s = Blocked"

text \<open>A coroutine is inside when it holds the lock the way its kind does.\<close>

definition inside :: "('s \<Rightarrow> nat \<Rightarrow> bool) \<Rightarrow> ('s \<Rightarrow> nat \<Rightarrow> bool) \<Rightarrow> (nat \<Rightarrow> bool) \<Rightarrow> 's \<Rightarrow> nat \<Rightarrow> bool" where
  "inside wholds rholds is_writer l t = (if is_writer t then wholds l t else rholds l t)"

fun client_exec ::
    "('e \<Rightarrow> 's \<Rightarrow> 's outcome) \<Rightarrow> ('s \<Rightarrow> nat \<Rightarrow> bool) \<Rightarrow> ('s \<Rightarrow> nat \<Rightarrow> bool) \<Rightarrow> ('e \<Rightarrow> nat option) \<Rightarrow>
      (nat \<Rightarrow> bool) \<Rightarrow> 'e client_event \<Rightarrow> 's client \<Rightarrow> 's client outcome" where
  "client_exec exec wholds rholds unlocks is_writer (LockOp e) s =
     (case unlocks e of
        None \<Rightarrow> map_next (\<lambda>l. s\<lparr>lk := l\<rparr>) (exec e (lk s))
      | Some t \<Rightarrow>
          if bpc s t = B_End then
            map_next (\<lambda>l. (b_goto t B_Outside s)\<lparr>lk := l, res := (res s)(t := res s t + 1)\<rparr>) (exec e (lk s))
          else Blocked)"
| "client_exec exec wholds rholds unlocks is_writer (Body t) s =
     (if inside wholds rholds is_writer (lk s) t then body_step (is_writer t) t (bpc s t) s else Blocked)"

fun kind_ok :: "bool \<Rightarrow> body_pc \<Rightarrow> bool" where
  "kind_ok writer B_Assert = (\<not> writer)"
| "kind_ok writer B_Clear = writer"
| "kind_ok writer B_Set = writer"
| "kind_ok writer B_Outside = True"
| "kind_ok writer B_End = True"

definition client_inv :: "('e \<Rightarrow> 's \<Rightarrow> 's outcome) \<Rightarrow> 's \<Rightarrow> ('s \<Rightarrow> nat \<Rightarrow> bool) \<Rightarrow> ('s \<Rightarrow> nat \<Rightarrow> bool) \<Rightarrow>
    (nat \<Rightarrow> bool) \<Rightarrow> 's client \<Rightarrow> bool" where
  "client_inv exec init wholds rholds wr s \<longleftrightarrow> reach exec init (lk s) \<and>
     (\<forall>t. bpc s t \<noteq> B_Outside \<longrightarrow> inside wholds rholds wr (lk s) t) \<and> (\<forall>t. kind_ok (wr t) (bpc s t)) \<and>
     (gp_a s \<noteq> 8 \<longrightarrow> (\<exists>t. bpc s t = B_Set))"

context shared_lock begin

abbreviation cinv :: "(nat \<Rightarrow> bool) \<Rightarrow> 's client \<Rightarrow> bool" where
  "cinv wr \<equiv> client_inv exec init wholds rholds wr"

lemma inside_keeps: "exec e l = Next l' \<Longrightarrow> inside wholds rholds wr l t \<Longrightarrow> unlocks e \<noteq> Some t \<Longrightarrow>
    inside wholds rholds wr l' t"
  using wkeeps rkeeps by (auto simp: inside_def)

lemma client_lock_step:
  assumes inv: "cinv wr s" and step: "client_exec exec wholds rholds unlocks wr (LockOp e) s = Next s'"
  shows "cinv wr s'"
proof -
  from step obtain l where l: "exec e (lk s) = Next l" "lk s' = l" "gp_a s' = gp_a s"
    and b: "\<And>t. bpc s' t = (if unlocks e = Some t then B_Outside else bpc s t)"
    and e: "\<And>t. unlocks e = Some t \<Longrightarrow> bpc s t = B_End"
    by (auto split: option.splits if_splits)
  from inv have "reach exec init l" using l by (auto simp: client_inv_def intro: reach_step)
  moreover have "inside wholds rholds wr l t" if "bpc s' t \<noteq> B_Outside" for t
    using that inv inside_keeps [OF l(1), of wr t] b [of t] by (auto simp: client_inv_def split: if_splits)
  moreover have "\<exists>t. bpc s' t = B_Set" if "gp_a s' \<noteq> 8"
    using that inv e l(3) b by (fastforce simp: client_inv_def)
  moreover have "kind_ok (wr t) (bpc s' t)" for t using inv b [of t] by (simp add: client_inv_def)
  ultimately show ?thesis using l(2) by (simp add: client_inv_def)
qed

text \<open>While a writer is between its two stores, nobody else is inside.\<close>

lemma client_alone:
  assumes "cinv wr s" "bpc s u = B_Set" "inside wholds rholds wr (lk s) t"
  shows "t = u"
proof -
  have "kind_ok (wr u) (bpc s u)" using assms(1) by (simp add: client_inv_def)
  then have "wr u" using assms(2) by simp
  moreover have "inside wholds rholds wr (lk s) u" using assms(1,2) by (simp add: client_inv_def)
  ultimately show ?thesis
    using assms(1,3) writer_alone [of "lk s" u t] by (auto simp: inside_def client_inv_def split: if_splits)
qed

lemma client_body_step:
  assumes inv: "cinv wr s" and step: "client_exec exec wholds rholds unlocks wr (Body t) s = Next s'"
  shows "cinv wr s'"
proof -
  from step have h: "inside wholds rholds wr (lk s) t" and st: "body_step (wr t) t (bpc s t) s = Next s'"
    by (auto split: if_splits)
  from st have f: "lk s' = lk s" "\<And>u. u \<noteq> t \<Longrightarrow> bpc s' u = bpc s u"
    by (cases "bpc s t"; auto split: if_splits)+
  have "kind_ok (wr t) (bpc s t)" using inv by (simp add: client_inv_def)
  with st have k: "kind_ok (wr t) (bpc s' t)" by (cases "bpc s t") (auto split: if_splits)
  have "\<exists>u. bpc s' u = B_Set" if "gp_a s' \<noteq> 8"
  proof (cases "bpc s t")
    case B_Outside
    with that st have "gp_a s \<noteq> 8" by auto
    then obtain u where u: "bpc s u = B_Set" using inv by (auto simp: client_inv_def)
    with client_alone [OF inv u h] B_Outside show ?thesis by auto
  next
    case B_Clear
    with st show ?thesis by auto
  qed (use that st in \<open>auto split: if_splits\<close>)
  moreover have "\<forall>u. kind_ok (wr u) (bpc s' u)" using inv k f(2) unfolding client_inv_def by metis
  moreover have "\<forall>u. bpc s' u \<noteq> B_Outside \<longrightarrow> inside wholds rholds wr (lk s') u"
    using inv h f unfolding client_inv_def by metis
  ultimately show ?thesis using inv f(1) by (simp add: client_inv_def)
qed

lemma client_no_fault:
  assumes inv: "cinv wr s"
  shows "client_exec exec wholds rholds unlocks wr e s \<noteq> Fault f"
proof (cases e)
  case (LockOp e')
  from inv have "reach exec init (lk s)" by (simp add: client_inv_def)
  from lock_no_fault [OF this] LockOp show ?thesis by (auto split: option.splits)
next
  case (Body t)
  show ?thesis
  proof
    assume "client_exec exec wholds rholds unlocks wr e s = Fault f"
    with Body have h: "inside wholds rholds wr (lk s) t" and st: "body_step (wr t) t (bpc s t) s = Fault f"
      by (auto split: if_splits)
    then have b: "bpc s t = B_Assert" "gp_a s \<noteq> 8" by (cases "bpc s t"; auto split: if_splits)+
    then obtain u where "bpc s u = B_Set" using inv by (auto simp: client_inv_def)
    from client_alone [OF inv this h] this b show False by auto
  qed
qed

lemma client_safe_machine:
  "safe_machine (client_init init) (client_exec exec wholds rholds unlocks wr) (cinv wr)"
proof
  show "cinv wr (client_init init)"
    by (simp add: client_inv_def client_init_def reach_init)
  fix e s s'
  assume "cinv wr s" "client_exec exec wholds rholds unlocks wr e s = Next s'"
  then show "cinv wr s'"
    using client_lock_step client_body_step by (cases e) blast+
qed (rule client_no_fault)

lemma client_never_fails: "run (client_exec exec wholds rholds unlocks wr) es (client_init init) \<noteq> Fault f"
  using safe_machine.run_no_fault [OF client_safe_machine] .

end

section \<open>The three locks\<close>

definition mutex_holds :: "mutex_sys \<Rightarrow> nat \<Rightarrow> bool" where
  "mutex_holds s t \<longleftrightarrow> m_pc s t = M_Owner"

fun mutex_unlocks :: "mutex_event \<Rightarrow> nat option" where
  "mutex_unlocks (Unlock t) = Some t"
| "mutex_unlocks (CoLock t) = None"
| "mutex_unlocks (TryLock t) = None"
| "mutex_unlocks (MStep t b) = None"

lemma mutex_keeps:
  assumes "mutex_exec e s = Next s'" "mutex_holds s t" "mutex_unlocks e \<noteq> Some t"
  shows "mutex_holds s' t"
proof (cases e)
  case (MStep u b)
  with assms show ?thesis
    by (cases "m_pc s u")
      (auto simp: mutex_holds_def mutex_step_defs split: if_splits prod.splits mword.splits option.splits)
qed (use assms in \<open>auto simp: mutex_holds_def mutex_step_defs split: if_splits prod.splits\<close>)

interpretation mutex_lock: exclusive_lock mutex_init mutex_exec mutex_holds mutex_unlocks
proof
  fix s t u assume r: "reach mutex_exec mutex_init s" and "mutex_holds s t" "mutex_holds s u"
  then have o: "m_owns (m_pc s t)" "m_owns (m_pc s u)" by (simp_all add: mutex_holds_def)
  from mutex.reach_rep [OF r] obtain a where "mutex_rep s a" by blast
  with mutex_repD(1) [OF this] o show "t = u" by simp
next
  fix s e f assume "reach mutex_exec mutex_init s"
  then show "mutex_exec e s \<noteq> Fault f" by (rule mutex.reach_no_fault)
qed (rule mutex_keeps)

definition spin_holds :: "spin_sys \<Rightarrow> nat \<Rightarrow> bool" where
  "spin_holds s t \<longleftrightarrow> spin_pc s t = S_Owner"

fun spin_unlocks :: "spin_event \<Rightarrow> nat option" where
  "spin_unlocks (SpinUnlock t) = Some t"
| "spin_unlocks (SpinCoLock t) = None"
| "spin_unlocks (SpinTryLock t) = None"
| "spin_unlocks (SpinStep t) = None"

lemma spin_keeps:
  assumes "spin_exec k e s = Next s'" "spin_holds s t" "spin_unlocks e \<noteq> Some t"
  shows "spin_holds s' t"
proof (cases e)
  case (SpinStep u)
  with assms show ?thesis
    by (cases "spin_pc s u") (auto simp: spin_holds_def spin_defs split: if_splits)
qed (use assms in \<open>auto simp: spin_holds_def spin_defs split: if_splits\<close>)

lemma spin_exclusive:
  assumes "INT_MIN < k" "k \<le> INT_MAX"
  shows "exclusive_lock spin_init (spin_exec k) spin_holds spin_unlocks"
proof
  fix s t u assume "reach (spin_exec k) spin_init s" "spin_holds s t" "spin_holds s u"
  then show "t = u"
    using spin.reach_inv [of k s] by (auto simp: spin_holds_def spin_inv_def spin_owner_def)
next
  fix s e f assume "reach (spin_exec k) spin_init s"
  then have "spin_inv k s" by (rule spin.reach_inv)
  then show "spin_exec k e s \<noteq> Fault f" by (rule spin_no_fault) (use assms in simp_all)
qed (rule spin_keeps)

text \<open>The benchmark's spin lock has the default count of 1024.\<close>

interpretation spin_lock: exclusive_lock spin_init "spin_exec 1024" spin_holds spin_unlocks
  by (rule spin_exclusive) (simp_all add: INT_MIN_def INT_MAX_def)

text \<open>The shared mutex, for fewer than \<open>2 ^ 31\<close> coroutines.\<close>

definition shm_wholds :: "shm \<Rightarrow> nat \<Rightarrow> bool" where
  "shm_wholds s t \<longleftrightarrow> hpc s t = H_Writer"

definition shm_rholds :: "shm \<Rightarrow> nat \<Rightarrow> bool" where
  "shm_rholds s t \<longleftrightarrow> hpc s t = H_Reader"

fun shm_unlocks :: "shm_event \<Rightarrow> nat option" where
  "shm_unlocks (WUnlock t) = Some t"
| "shm_unlocks (RUnlock t) = Some t"
| "shm_unlocks (WLock t) = None"
| "shm_unlocks (WTryLock t) = None"
| "shm_unlocks (RLock t) = None"
| "shm_unlocks (RTryLock t) = None"
| "shm_unlocks (HStep t) = None"

text \<open>A coroutine that holds the lock is moved by its own call of an unlock operation only.\<close>

lemma shm_step_keeps:
  assumes "shm_step u (hpc s u) s = Next s'" "hpc s t = p" "p = H_Writer \<or> p = H_Reader"
  shows "hpc s' t = p"
proof -
  have w: "woken p = p" using assms(3) by auto
  have n: "hpc (notify_all1 s) t = p" "hpc (notify_one1 s) t = p" "hpc (notify_one2 s) t = p"
    using assms(2) w by (auto simp: notify_all1_def notify_one1_def notify_one2_def split: list.splits)
  have "u \<noteq> t" using assms by auto
  with assms(1,2) n show ?thesis
    by (cases "hpc s u") (auto simp: shm_defs split: if_splits)
qed

lemma shm_keeps:
  assumes "shm_exec n e s = Next s'" "hpc s t = p" "p = H_Writer \<or> p = H_Reader" "shm_unlocks e \<noteq> Some t"
  shows "hpc s' t = p"
proof (cases e)
  case (HStep u)
  with shm_step_keeps [of u s s' t p] assms show ?thesis by simp
qed (use assms in \<open>auto simp: shm_defs split: if_splits\<close>)

interpretation shm_lock: shared_lock shm_init "shm_exec 2147483647" shm_wholds shm_rholds shm_unlocks
proof
  fix s t u
  assume r: "reach (shm_exec 2147483647) shm_init s" and "shm_wholds s t" "shm_wholds s u \<or> shm_rholds s u"
  then have t: "claims (hpc s t)" "owns_write (hpc s t)" "claims (hpc s u) \<or> counted (hpc s u)"
    by (auto simp: shm_wholds_def shm_rholds_def)
  from shm.reach_rep [OF r] obtain a where "shm_rep 2147483647 s a" by blast
  note ok = shm_okD [OF shm_repD(1) [OF this]]
  show "u = t" using ok(1,3) [of t] ok(1,2) [of u] t by auto
next
  fix s e f assume "reach (shm_exec 2147483647) shm_init s"
  then show "shm_exec 2147483647 e s \<noteq> Fault f" by (rule shm.reach_no_fault)
qed (auto simp: shm_wholds_def shm_rholds_def intro: shm_keeps)

section \<open>Properties\<close>

text \<open>
  Also shown (readers and writers under the mutex). However many readers and writers run and
  however their steps interleave, no reader's \<open>assert(gp->a == 8)\<close> fails and the mutex does not
  fault either.
\<close>
theorem mutex_workload_safe:
  "run (client_exec mutex_exec mutex_holds mutex_holds mutex_unlocks is_writer) es (client_init mutex_init) \<noteq> Fault f"
  by (rule mutex_lock.client_never_fails)

text \<open>
  Also shown (readers and writers under the spin lock). The same with the spin lock.
\<close>
theorem spin_workload_safe:
  "run (client_exec (spin_exec 1024) spin_holds spin_holds spin_unlocks is_writer) es (client_init spin_init) \<noteq> Fault f"
  by (rule spin_lock.client_never_fails)

text \<open>
  Also shown (readers and writers under the shared mutex). The same with the shared mutex, whose
  readers run side by side.
\<close>
theorem shm_workload_safe:
  "run (client_exec (shm_exec 2147483647) shm_wholds shm_rholds shm_unlocks is_writer) es (client_init shm_init) \<noteq> Fault f"
  by (rule shm_lock.client_never_fails)

end
