(* ===== verification/CondVar.thy ===== *)
theory CondVar
  imports Prelude
begin

text \<open>
  \<open>ConditionVariable<Lock>\<close> of \<^verbatim>\<open>include/conditionvariable.hpp\<close>, one atomic operation per
  step, with the lock it is used with through its contract: at most one coroutine holds it
  (\<open>holder\<close>), and the data the predicates read (\<open>shared\<close>) change only under the lock.

  The awaiter of a coroutine lives in its frame while it is suspended, so a node is the number of
  its coroutine and is live while that coroutine is \<open>C_Waiting\<close>; \<open>cnext\<close> is the field \<open>_next\<close>.
  \<open>await_suspend\<close> releases the lock by the destructor of its \<open>unique_lock\<close>, after the awaiter
  is queued: in between the coroutine is in \<open>unlocking\<close>, while it may already be resumed.
  \<open>allow_one\<close> says whether clients call \<open>notifyOne\<close>, \<open>under_lock\<close> whether they hold the lock
  when they notify.  \<open>cv_offline\<close> is the log of the calls of \<open>rcu_offline\<close>.
\<close>

section \<open>State and steps\<close>

datatype cv_pc =
    C_Idle
  | C_Test                      \<comment> \<open>\<open>wait\<close>: before \<open>pred()\<close>\<close>
  | C_Load                      \<comment> \<open>before \<open>await_suspend\<close>\<close>
  | C_Push "nat option"         \<comment> \<open>before \<open>_next = awaitings\<close> and the compare-exchange\<close>
  | C_Waiting                   \<comment> \<open>suspended\<close>
  | C_Relock                    \<comment> \<open>resumed: in \<open>co_await lock.coLock()\<close>\<close>
  | C_AllCas "nat option"       \<comment> \<open>\<open>notifyAll\<close>: before the compare-exchange\<close>
  | C_OneRead "nat option"      \<comment> \<open>\<open>notifyOne\<close>: before reading \<open>awaitings->_next\<close>\<close>
  | C_OneCas nat "nat option"   \<comment> \<open>before the compare-exchange\<close>
  | C_OneClear nat              \<comment> \<open>before \<open>awaitings->_next = nullptr\<close>\<close>
  | C_Resume "nat option"       \<comment> \<open>\<open>resumeWaiters\<close>, with \<open>awaiters\<close>\<close>

record 'd cv_sys =
  holder :: "nat option"
  shared :: 'd
  awaiters :: "nat option"
  cnext :: "nat \<Rightarrow> nat option"
  cpc :: "nat \<Rightarrow> cv_pc"
  unlocking :: "nat set"
  cv_offline :: "nat list"     \<comment> \<open>coroutines whose thread called \<open>rcu_offline\<close>, latest first\<close>

definition cv_init :: "'d \<Rightarrow> 'd cv_sys" where
  "cv_init d = \<lparr>holder = None, shared = d, awaiters = None, cnext = (\<lambda>_. None),
     cpc = (\<lambda>_. C_Idle), unlocking = {}, cv_offline = []\<rparr>"

abbreviation c_goto :: "nat \<Rightarrow> cv_pc \<Rightarrow> 'd cv_sys \<Rightarrow> 'd cv_sys" where
  "c_goto t p s \<equiv> s\<lparr>cpc := (cpc s)(t := p)\<rparr>"

abbreviation cv_live :: "'d cv_sys \<Rightarrow> nat \<Rightarrow> bool" where
  "cv_live s a \<equiv> cpc s a = C_Waiting"

definition cv_wait_test :: "(nat \<Rightarrow> 'd \<Rightarrow> bool) \<Rightarrow> nat \<Rightarrow> 'd cv_sys \<Rightarrow> 'd cv_sys outcome" where
  "cv_wait_test pred t s = Next (c_goto t (if pred t (shared s) then C_Idle else C_Load) s)"

text \<open>\<open>await_suspend\<close> up to its load: the thread goes offline for RCU.\<close>

definition cv_load :: "nat \<Rightarrow> 'd cv_sys \<Rightarrow> 'd cv_sys outcome" where
  "cv_load t s = Next (c_goto t (C_Push (awaiters s)) (s\<lparr>cv_offline := t # cv_offline s\<rparr>))"

definition cv_push :: "nat \<Rightarrow> nat option \<Rightarrow> bool \<Rightarrow> 'd cv_sys \<Rightarrow> 'd cv_sys outcome" where
  "cv_push t awaitings spurious s =
     (let s1 = s\<lparr>cnext := (cnext s)(t := awaitings)\<rparr>;
          (ok, cell, old) = cas_weak spurious (awaiters s1) awaitings (Some t)
      in if ok then Next (c_goto t C_Waiting (s1\<lparr>awaiters := cell, unlocking := insert t (unlocking s1)\<rparr>))
         else Next (c_goto t (C_Push old) (s1\<lparr>awaiters := cell\<rparr>)))"

text \<open>The destructor of the \<open>unique_lock\<close> at the end of \<open>await_suspend\<close>.\<close>

definition cv_unlock :: "nat \<Rightarrow> 'd cv_sys \<Rightarrow> 'd cv_sys outcome" where
  "cv_unlock t s =
     (if t \<in> unlocking s then Next (s\<lparr>holder := None, unlocking := unlocking s - {t}\<rparr>) else Blocked)"

definition cv_relock :: "nat \<Rightarrow> 'd cv_sys \<Rightarrow> 'd cv_sys outcome" where
  "cv_relock t s = (if holder s = None then Next (c_goto t C_Test (s\<lparr>holder := Some t\<rparr>)) else Blocked)"

definition notifyAll_cas :: "nat \<Rightarrow> nat option \<Rightarrow> bool \<Rightarrow> 'd cv_sys \<Rightarrow> 'd cv_sys outcome" where
  "notifyAll_cas t awaitings spurious s =
     (let (ok, cell, old) = cas_weak spurious (awaiters s) awaitings None
      in Next (c_goto t (if ok then C_Resume awaitings else C_AllCas old) (s\<lparr>awaiters := cell\<rparr>)))"

definition notifyOne_read :: "nat \<Rightarrow> nat option \<Rightarrow> 'd cv_sys \<Rightarrow> 'd cv_sys outcome" where
  "notifyOne_read t awaitings s = (case awaitings of
      None \<Rightarrow> Fault NullDeref
    | Some a \<Rightarrow> if cv_live s a then Next (c_goto t (C_OneCas a (cnext s a)) s) else Fault UseAfterFree)"

definition notifyOne_cas :: "nat \<Rightarrow> nat \<Rightarrow> nat option \<Rightarrow> bool \<Rightarrow> 'd cv_sys \<Rightarrow> 'd cv_sys outcome" where
  "notifyOne_cas t a n spurious s =
     (let (ok, cell, old) = cas_weak spurious (awaiters s) (Some a) n
      in Next (c_goto t (if ok then C_OneClear a else C_OneRead old) (s\<lparr>awaiters := cell\<rparr>)))"

definition notifyOne_clear :: "nat \<Rightarrow> nat \<Rightarrow> 'd cv_sys \<Rightarrow> 'd cv_sys outcome" where
  "notifyOne_clear t a s =
     (if cv_live s a then Next (c_goto t (C_Resume (Some a)) (s\<lparr>cnext := (cnext s)(a := None)\<rparr>))
      else Fault UseAfterFree)"

definition resumeWaiters :: "nat \<Rightarrow> nat option \<Rightarrow> 'd cv_sys \<Rightarrow> 'd cv_sys outcome" where
  "resumeWaiters t p s = (case p of
      None \<Rightarrow> Next (c_goto t C_Idle s)
    | Some a \<Rightarrow>
        if cv_live s a then Next (c_goto a C_Relock (c_goto t (C_Resume (cnext s a)) s))
        else Fault UseAfterFree)"

fun cv_step :: "(nat \<Rightarrow> 'd \<Rightarrow> bool) \<Rightarrow> nat \<Rightarrow> bool \<Rightarrow> cv_pc \<Rightarrow> 'd cv_sys \<Rightarrow> 'd cv_sys outcome" where
  "cv_step pred t b C_Idle s = Blocked"
| "cv_step pred t b C_Test s = cv_wait_test pred t s"
| "cv_step pred t b C_Load s = cv_load t s"
| "cv_step pred t b (C_Push a) s = cv_push t a b s"
| "cv_step pred t b C_Waiting s = Blocked"
| "cv_step pred t b C_Relock s = cv_relock t s"
| "cv_step pred t b (C_AllCas a) s = notifyAll_cas t a b s"
| "cv_step pred t b (C_OneRead a) s = notifyOne_read t a s"
| "cv_step pred t b (C_OneCas a n) s = notifyOne_cas t a n b s"
| "cv_step pred t b (C_OneClear a) s = notifyOne_clear t a s"
| "cv_step pred t b (C_Resume p) s = resumeWaiters t p s"

datatype 'd cv_event =
    Acquire nat | Release nat | Update nat 'd      \<comment> \<open>the client: lock, unlock, change the data\<close>
  | Wait nat | NotifyAll nat | NotifyOne nat       \<comment> \<open>calls\<close>
  | CvStep nat bool | CvUnlock nat

fun cv_exec :: "(nat \<Rightarrow> 'd \<Rightarrow> bool) \<Rightarrow> bool \<Rightarrow> bool \<Rightarrow> 'd cv_event \<Rightarrow> 'd cv_sys \<Rightarrow> 'd cv_sys outcome" where
  "cv_exec pred under_lock allow_one (Acquire t) s =
     (if cpc s t = C_Idle \<and> holder s = None then Next (s\<lparr>holder := Some t\<rparr>) else Blocked)"
| "cv_exec pred under_lock allow_one (Release t) s =
     (if cpc s t = C_Idle \<and> holder s = Some t then Next (s\<lparr>holder := None\<rparr>) else Blocked)"
| "cv_exec pred under_lock allow_one (Update t d) s =
     (if cpc s t = C_Idle \<and> holder s = Some t then Next (s\<lparr>shared := d\<rparr>) else Blocked)"
| "cv_exec pred under_lock allow_one (Wait t) s =
     (if cpc s t = C_Idle \<and> holder s = Some t then Next (c_goto t C_Test s) else Blocked)"
| "cv_exec pred under_lock allow_one (NotifyAll t) s =
     (if cpc s t = C_Idle \<and> (under_lock \<longrightarrow> holder s = Some t)
      then Next (c_goto t (C_AllCas (awaiters s)) s) else Blocked)"
| "cv_exec pred under_lock allow_one (NotifyOne t) s =
     (if cpc s t = C_Idle \<and> allow_one \<and> (under_lock \<longrightarrow> holder s = Some t)
      then Next (c_goto t (if awaiters s = None then C_Idle else C_OneRead (awaiters s)) s)
      else Blocked)"
| "cv_exec pred under_lock allow_one (CvStep t b) s = cv_step pred t b (cpc s t) s"
| "cv_exec pred under_lock allow_one (CvUnlock t) s = cv_unlock t s"

lemmas cv_defs = cv_wait_test_def cv_load_def cv_push_def cv_unlock_def cv_relock_def notifyAll_cas_def
  notifyOne_read_def notifyOne_cas_def notifyOne_clear_def resumeWaiters_def cas_weak_def Let_def

text \<open>A coroutine between the head of \<open>await_suspend\<close> and its resumption is offline.\<close>

fun cv_parked :: "cv_pc \<Rightarrow> bool" where
  "cv_parked (C_Push _) = True"
| "cv_parked C_Waiting = True"
| "cv_parked _ = False"

lemma cv_step_park:
  assumes "cv_step pred t b (cpc s t) s = Next s'"
  shows "set (cv_offline s) \<subseteq> set (cv_offline s')"
    "\<not> cv_parked (cpc s x) \<Longrightarrow> cv_parked (cpc s' x) \<Longrightarrow> cv_offline s' = x # cv_offline s"
  using assms by (cases "cpc s t"; auto simp: cv_defs split: if_splits option.splits)+

interpretation cv_park: parking_machine "cv_init d" "cv_exec pred under_lock allow_one"
  "\<lambda>s t. cv_parked (cpc s t)" cv_offline
proof
  fix e s s' t
  assume "cv_exec pred under_lock allow_one e s = Next s'" "\<not> cv_parked (cpc s t)" "cv_parked (cpc s' t)"
  then show "cv_offline s' = t # cv_offline s"
    using cv_step_park(2) by (cases e) (fastforce simp: cv_unlock_def split: if_splits)+
next
  fix e s s' assume "cv_exec pred under_lock allow_one e s = Next s'"
  then show "set (cv_offline s) \<subseteq> set (cv_offline s')"
    by (cases e) (auto simp: cv_unlock_def dest: cv_step_park(1) split: if_splits)
qed (simp add: cv_init_def)

section \<open>Invariant\<close>

text \<open>
  The suspended coroutines are the nodes of the stack \<open>stk\<close> in \<open>_awaiters\<close> and of the chains
  \<open>own t\<close> that a notifier \<open>t\<close> has taken off it and not resumed yet.
\<close>

fun own_ok :: "(nat \<Rightarrow> nat option) \<Rightarrow> cv_pc \<Rightarrow> nat list \<Rightarrow> bool" where
  "own_ok nx (C_Resume p) os \<longleftrightarrow> chain nx p os"
| "own_ok nx (C_OneClear a) os \<longleftrightarrow> os = [a]"
| "own_ok nx C_Idle os \<longleftrightarrow> os = []"
| "own_ok nx C_Test os \<longleftrightarrow> os = []"
| "own_ok nx C_Load os \<longleftrightarrow> os = []"
| "own_ok nx (C_Push _) os \<longleftrightarrow> os = []"
| "own_ok nx C_Waiting os \<longleftrightarrow> os = []"
| "own_ok nx C_Relock os \<longleftrightarrow> os = []"
| "own_ok nx (C_AllCas _) os \<longleftrightarrow> os = []"
| "own_ok nx (C_OneRead _) os \<longleftrightarrow> os = []"
| "own_ok nx (C_OneCas _ _) os \<longleftrightarrow> os = []"

definition cv_chains :: "'d cv_sys \<Rightarrow> nat list \<Rightarrow> (nat \<Rightarrow> nat list) \<Rightarrow> bool" where
  "cv_chains s stk own \<longleftrightarrow> chain (cnext s) (awaiters s) stk \<and>
     (\<forall>t. own_ok (cnext s) (cpc s t) (own t)) \<and>
     (\<forall>t. set (own t) \<inter> set stk = {}) \<and> (\<forall>t u. t \<noteq> u \<longrightarrow> set (own t) \<inter> set (own u) = {}) \<and>
     (\<forall>x. cpc s x = C_Waiting \<longleftrightarrow> x \<in> set stk \<or> (\<exists>t. x \<in> set (own t)))"

fun one_pc :: "cv_pc \<Rightarrow> bool" where
  "one_pc (C_OneRead _) = True"
| "one_pc (C_OneCas _ _) = True"
| "one_pc (C_OneClear _) = True"
| "one_pc _ = False"

fun wait_pc :: "cv_pc \<Rightarrow> bool" where
  "wait_pc C_Test = True"
| "wait_pc C_Load = True"
| "wait_pc (C_Push _) = True"
| "wait_pc _ = False"

fun notify_pc :: "cv_pc \<Rightarrow> bool" where
  "notify_pc (C_AllCas _) = True"
| "notify_pc (C_Resume _) = True"
| "notify_pc _ = False"

text \<open>What a coroutine inside \<open>notifyOne\<close> has read of the stack is still so.\<close>

fun one_ok :: "'d cv_sys \<Rightarrow> cv_pc \<Rightarrow> bool" where
  "one_ok s (C_OneRead x) \<longleftrightarrow> x = awaiters s \<and> x \<noteq> None"
| "one_ok s (C_OneCas a n) \<longleftrightarrow> awaiters s = Some a \<and> n = cnext s a"
| "one_ok s _ \<longleftrightarrow> True"

definition locks_at :: "bool \<Rightarrow> 'd cv_sys \<Rightarrow> nat \<Rightarrow> bool" where
  "locks_at under_lock s t \<longleftrightarrow>
     (wait_pc (cpc s t) \<longrightarrow> holder s = Some t) \<and>
     (one_pc (cpc s t) \<longrightarrow> under_lock \<and> holder s = Some t \<and> one_ok s (cpc s t)) \<and>
     (under_lock \<and> notify_pc (cpc s t) \<longrightarrow> holder s = Some t) \<and>
     (t \<in> unlocking s \<longrightarrow> holder s = Some t \<and> (cpc s t = C_Waiting \<or> cpc s t = C_Relock))"

definition cv_locks :: "bool \<Rightarrow> 'd cv_sys \<Rightarrow> bool" where
  "cv_locks under_lock s \<longleftrightarrow> (\<forall>t. locks_at under_lock s t)"

text \<open>No coroutine goes to sleep while its predicate holds.\<close>

definition cv_asleep :: "(nat \<Rightarrow> 'd \<Rightarrow> bool) \<Rightarrow> 'd cv_sys \<Rightarrow> bool" where
  "cv_asleep pred s \<longleftrightarrow>
     (\<forall>t. cpc s t = C_Load \<or> (\<exists>a. cpc s t = C_Push a) \<or> t \<in> unlocking s \<longrightarrow> \<not> pred t (shared s))"

definition cv_inv :: "(nat \<Rightarrow> 'd \<Rightarrow> bool) \<Rightarrow> bool \<Rightarrow> 'd cv_sys \<Rightarrow> bool" where
  "cv_inv pred under_lock s \<longleftrightarrow>
     (\<exists>stk own. cv_chains s stk own) \<and> cv_locks under_lock s \<and> cv_asleep pred s"

lemma cv_inv_init: "cv_inv pred under_lock (cv_init d)"
proof -
  have "cv_chains (cv_init d) [] (\<lambda>_. [])" by (simp add: cv_chains_def cv_init_def)
  then show ?thesis by (auto simp: cv_inv_def cv_locks_def locks_at_def cv_asleep_def cv_init_def)
qed

section \<open>Every step keeps the chains\<close>

lemma chainsD:
  assumes "cv_chains s stk own"
  shows "chain (cnext s) (awaiters s) stk" "own_ok (cnext s) (cpc s t) (own t)"
    "x \<in> set (own t) \<Longrightarrow> x \<notin> set stk" "x \<in> set (own t) \<Longrightarrow> x \<in> set (own u) \<Longrightarrow> t = u"
    "cpc s x = C_Waiting \<longleftrightarrow> x \<in> set stk \<or> (\<exists>t. x \<in> set (own t))"
  using assms unfolding cv_chains_def by blast+

lemma chainsI:
  assumes "chain (cnext s) (awaiters s) stk" "\<And>t. own_ok (cnext s) (cpc s t) (own t)"
    "\<And>x t. x \<in> set (own t) \<Longrightarrow> x \<notin> set stk"
    "\<And>x t u. x \<in> set (own t) \<Longrightarrow> x \<in> set (own u) \<Longrightarrow> t = u"
    "\<And>x. cpc s x = C_Waiting \<longleftrightarrow> x \<in> set stk \<or> (\<exists>t. x \<in> set (own t))"
  shows "cv_chains s stk own"
  using assms unfolding cv_chains_def by blast

lemma own_ok_upd: "x \<notin> set os \<Longrightarrow> own_ok (nx(x := v)) p os = own_ok nx p os"
  by (cases p) auto

lemma chains_cong:
  assumes "cv_chains s stk own" "cnext s' = cnext s" "awaiters s' = awaiters s" "cpc s' = cpc s"
  shows "cv_chains s' stk own"
  using assms by (simp add: cv_chains_def)

text \<open>A coroutine that is not suspended moves on, perhaps writing its own \<open>_next\<close>.\<close>

lemma chains_goto:
  assumes "cv_chains s stk own" "cpc s t \<noteq> C_Waiting" "p \<noteq> C_Waiting"
    "cnext s' = (cnext s)(t := v)" "awaiters s' = awaiters s" "cpc s' = (cpc s)(t := p)"
    "own_ok (cnext s) p (own t)"
  shows "cv_chains s' stk own"
proof -
  note c = chainsD [OF assms(1)]
  have t: "t \<notin> set stk" "\<And>u. t \<notin> set (own u)" using c(5) [of t] assms(2) by auto
  show ?thesis
  proof (rule chainsI)
    show "chain (cnext s') (awaiters s') stk" using c(1) t assms by simp
    show "own_ok (cnext s') (cpc s' u) (own u)" for u
      using c(2) [of u] t assms by (simp add: own_ok_upd)
    show "cpc s' x = C_Waiting \<longleftrightarrow> x \<in> set stk \<or> (\<exists>t. x \<in> set (own t))" for x
      using c(5) [of x] assms(2,3,6) by auto
  qed (use c in blast)+
qed

lemma chains_push:
  assumes "cv_chains s stk own" "cpc s t \<noteq> C_Waiting" "own t = []"
    "cnext s' = (cnext s)(t := awaiters s)" "awaiters s' = Some t" "cpc s' = (cpc s)(t := C_Waiting)"
  shows "cv_chains s' (t # stk) own"
proof -
  note c = chainsD [OF assms(1)]
  have t: "t \<notin> set stk" "\<And>u. t \<notin> set (own u)" using c(5) [of t] assms(2) by auto
  show ?thesis
  proof (rule chainsI)
    show "chain (cnext s') (awaiters s') (t # stk)" using c(1) t assms by simp
    show "own_ok (cnext s') (cpc s' u) (own u)" for u
      using c(2) [of u] t assms by (simp add: own_ok_upd)
    show "cpc s' x = C_Waiting \<longleftrightarrow> x \<in> set (t # stk) \<or> (\<exists>t. x \<in> set (own t))" for x
      using c(5) [of x] assms by auto
  qed (use c t in auto)
qed

lemma chains_take:
  assumes "cv_chains s stk own" "cpc s t \<noteq> C_Waiting" "own t = []" "stk = taken @ rest"
    "cnext s' = cnext s" "chain (cnext s) (awaiters s') rest" "cpc s' = (cpc s)(t := p)" "p \<noteq> C_Waiting"
    "own_ok (cnext s) p taken"
  shows "cv_chains s' rest (own(t := taken))"
proof -
  note c = chainsD [OF assms(1)]
  have d: "distinct stk" using c(1) by (rule chain_distinct)
  show ?thesis
  proof (rule chainsI)
    show "chain (cnext s') (awaiters s') rest" using assms by simp
    show "own_ok (cnext s') (cpc s' u) ((own(t := taken)) u)" for u
      using c(2) [of u] assms by simp
    show "x \<in> set ((own(t := taken)) u) \<Longrightarrow> x \<notin> set rest" for x u
      using c(3) [of x u] assms(4) d by (auto split: if_splits)
    show "x \<in> set ((own(t := taken)) u) \<Longrightarrow> x \<in> set ((own(t := taken)) w) \<Longrightarrow> u = w" for x u w
      using c(3) [of x] c(4) [of x u w] assms(4) by (auto split: if_splits)
    show "cpc s' x = C_Waiting \<longleftrightarrow> x \<in> set rest \<or> (\<exists>u. x \<in> set ((own(t := taken)) u))" for x
    proof -
      have "(\<exists>u. x \<in> set ((own(t := taken)) u)) \<longleftrightarrow> x \<in> set taken \<or> (\<exists>u. u \<noteq> t \<and> x \<in> set (own u))"
        by (auto split: if_splits)
      moreover have "(\<exists>u. x \<in> set (own u)) \<longleftrightarrow> (\<exists>u. u \<noteq> t \<and> x \<in> set (own u))"
        using assms(3) by (metis empty_iff empty_set)
      ultimately show ?thesis using c(5) [of x] assms(2,4,7,8) by auto
    qed
  qed
qed

lemma chains_clear:
  assumes "cv_chains s stk own" "cpc s t = C_OneClear a"
  shows "cv_chains (c_goto t (C_Resume (Some a)) (s\<lparr>cnext := (cnext s)(a := None)\<rparr>)) stk own"
proof -
  note c = chainsD [OF assms(1)]
  from c(2) [of t] assms(2) have o: "own t = [a]" by simp
  have a: "a \<notin> set stk" "\<And>u. u \<noteq> t \<Longrightarrow> a \<notin> set (own u)" using c(3,4) [of a t] o by auto
  show ?thesis
  proof (rule chainsI)
    show "own_ok (cnext (c_goto t (C_Resume (Some a)) (s\<lparr>cnext := (cnext s)(a := None)\<rparr>)))
        (cpc (c_goto t (C_Resume (Some a)) (s\<lparr>cnext := (cnext s)(a := None)\<rparr>)) u) (own u)" for u
      using c(2) [of u] a o by (simp add: own_ok_upd)
    show "cpc (c_goto t (C_Resume (Some a)) (s\<lparr>cnext := (cnext s)(a := None)\<rparr>)) x = C_Waiting \<longleftrightarrow>
        x \<in> set stk \<or> (\<exists>t. x \<in> set (own t))" for x
      using c(5) [of x] assms(2) by auto
  qed (use c a in auto)
qed

lemma chains_resume:
  assumes "cv_chains s stk own" "cpc s t = C_Resume (Some a)"
  shows "cv_live s a" "a \<noteq> t"
    "cv_chains (c_goto a C_Relock (c_goto t (C_Resume (cnext s a)) s)) stk (own(t := tl (own t)))"
proof -
  note c = chainsD [OF assms(1)]
  from c(2) [of t] assms(2) obtain os where o: "own t = a # os" "chain (cnext s) (cnext s a) os"
    by (auto simp: chain_Some)
  then have ao: "a \<notin> set os" by (auto dest: chain_not_in_tail)
  from o c(5) [of a] have live: "cpc s a = C_Waiting" by (metis list.set_intros(1))
  then show "cv_live s a" .
  from live assms(2) show at: "a \<noteq> t" by auto
  have "own a = []" using c(2) [of a] live by simp
  let ?s = "c_goto a C_Relock (c_goto t (C_Resume (cnext s a)) s)" and ?own = "own(t := tl (own t))"
  show "cv_chains ?s stk ?own"
  proof (rule chainsI)
    show "own_ok (cnext ?s) (cpc ?s u) (?own u)" for u
      using c(2) [of u] o at \<open>own a = []\<close> by simp
    show "x \<in> set (?own u) \<Longrightarrow> x \<notin> set stk" for x u
      using c(3) [of x u] o by (auto split: if_splits)
    show "x \<in> set (?own u) \<Longrightarrow> x \<in> set (?own w) \<Longrightarrow> u = w" for x u w
      using c(4) [of x u w] o by (auto split: if_splits)
    show "cpc ?s x = C_Waiting \<longleftrightarrow> x \<in> set stk \<or> (\<exists>u. x \<in> set (?own u))" for x
    proof (cases "x = a")
      case True
      have "\<not> (x \<in> set stk \<or> (\<exists>u. x \<in> set (?own u)))"
        using c(3) [of a t] c(4) [of a t] o ao True by (auto split: if_splits)
      with True show ?thesis by simp
    next
      case False
      then have "x \<in> set (?own u) \<longleftrightarrow> x \<in> set (own u)" for u using o by auto
      with c(5) [of x] False assms(2) show ?thesis by auto
    qed
  qed (use c in simp)
qed


text \<open>The stack changes only by a step of the holder of the lock or by a \<open>notifyAll\<close>.\<close>

lemma cv_chains_step:
  assumes inv: "cv_chains s stk own" and locks: "cv_locks under_lock s"
    and step: "cv_step pred t b (cpc s t) s = Next s'"
  shows "\<exists>stk' own'. cv_chains s' stk' own'"
proof -
  note c = chainsD [OF inv]
  have o: "own_ok (cnext s) (cpc s t) (own t)" by (rule c(2))
  have triv: "(cnext s)(t := cnext s t) = cnext s" by simp
  show ?thesis
  proof (cases "cpc s t")
    case C_Test
    have "cv_chains s' stk own"
      by (rule chains_goto [OF inv, where t = t and v = "cnext s t" and p = "if pred t (shared s) then C_Idle else C_Load"])
        (use C_Test step o in \<open>auto simp: cv_defs\<close>)
    then show ?thesis by blast
  next
    case C_Load
    have "cv_chains s' stk own"
      by (rule chains_goto [OF inv, where t = t and v = "cnext s t" and p = "C_Push (awaiters s)"])
        (use C_Load step o in \<open>auto simp: cv_defs\<close>)
    then show ?thesis by blast
  next
    case (C_Push a)
    show ?thesis
    proof (cases "awaiters s = a \<and> \<not> b")
      case True
      have "cv_chains s' (t # stk) own"
        by (rule chains_push [OF inv, of t]) (use C_Push True step o in \<open>auto simp: cv_defs\<close>)
      then show ?thesis by blast
    next
      case False
      have "cv_chains s' stk own"
        by (rule chains_goto [OF inv, where t = t and v = a and p = "C_Push (awaiters s)"])
          (use C_Push False step o in \<open>auto simp: cv_defs\<close>)
      then show ?thesis by blast
    qed
  next
    case C_Relock
    have "cv_chains s' stk own"
      by (rule chains_goto [OF inv, where t = t and v = "cnext s t" and p = C_Test])
        (use C_Relock step o in \<open>auto simp: cv_defs split: if_splits\<close>)
    then show ?thesis by blast
  next
    case (C_AllCas a)
    show ?thesis
    proof (cases "awaiters s = a \<and> \<not> b")
      case True
      have "cv_chains s' [] (own(t := stk))"
        by (rule chains_take [OF inv, where t = t and p = "C_Resume a"])
          (use C_AllCas True step o c(1) in \<open>auto simp: cv_defs\<close>)
      then show ?thesis by blast
    next
      case False
      have "cv_chains s' stk own"
        by (rule chains_goto [OF inv, where t = t and v = "cnext s t" and p = "C_AllCas (awaiters s)"])
          (use C_AllCas False step o in \<open>auto simp: cv_defs\<close>)
      then show ?thesis by blast
    qed
  next
    case (C_OneRead x)
    then obtain a where x: "x = Some a" using step by (cases x) (auto simp: cv_defs)
    have "cv_chains s' stk own"
      by (rule chains_goto [OF inv, where t = t and v = "cnext s t" and p = "C_OneCas a (cnext s a)"])
        (use C_OneRead x step o in \<open>auto simp: cv_defs split: if_splits\<close>)
    then show ?thesis by blast
  next
    case (C_OneCas a n)
    show ?thesis
    proof (cases "awaiters s = Some a \<and> \<not> b")
      case True
      have "one_ok s (cpc s t)" using locks C_OneCas unfolding cv_locks_def locks_at_def
        by (metis one_pc.simps(2))
      with C_OneCas have n: "n = cnext s a" by simp
      from True c(1) obtain rest where r: "stk = a # rest" "chain (cnext s) (cnext s a) rest"
        by (auto simp: chain_Some)
      have "cv_chains s' rest (own(t := [a]))"
        by (rule chains_take [OF inv, where t = t and p = "C_OneClear a"])
          (use C_OneCas True n r step o in \<open>auto simp: cv_defs\<close>)
      then show ?thesis by blast
    next
      case False
      have "cv_chains s' stk own"
        by (rule chains_goto [OF inv, where t = t and v = "cnext s t" and p = "C_OneRead (awaiters s)"])
          (use C_OneCas False step o in \<open>auto simp: cv_defs\<close>)
      then show ?thesis by blast
    qed
  next
    case (C_OneClear a)
    with step have "s' = c_goto t (C_Resume (Some a)) (s\<lparr>cnext := (cnext s)(a := None)\<rparr>)"
      by (auto simp: cv_defs split: if_splits)
    with chains_clear [OF inv C_OneClear] show ?thesis by blast
  next
    case (C_Resume p)
    show ?thesis
    proof (cases p)
      case None
      have "cv_chains s' stk own"
        by (rule chains_goto [OF inv, where t = t and v = "cnext s t" and p = C_Idle])
          (use C_Resume None step o in \<open>auto simp: cv_defs\<close>)
      then show ?thesis by blast
    next
      case (Some a)
      with C_Resume have r: "cpc s t = C_Resume (Some a)" by simp
      from chains_resume [OF inv r] step r show ?thesis by (auto simp: cv_defs)
    qed
  qed (use step in simp_all)
qed


text \<open>
  A coroutine inside \<open>notifyOne\<close>, or waiting to sleep, holds the lock; so no other coroutine
  takes a step that needs it.
\<close>

lemma locks_others:
  assumes "locks_at under_lock s t" "locks_at under_lock s u" "u \<noteq> t"
    and step: "cv_step pred t b (cpc s t) s = Next s'"
  shows "locks_at under_lock s' u"
proof (cases "cpc s t")
  case (C_Resume p)
  show ?thesis
  proof (cases p)
    case None
    with C_Resume assms show ?thesis by (cases "cpc s u") (auto simp: cv_defs locks_at_def)
  next
    case (Some a)
    with C_Resume step have s': "s' = c_goto a C_Relock (c_goto t (C_Resume (cnext s a)) s)" "cpc s a = C_Waiting"
      by (auto simp: cv_defs split: if_splits)
    with assms C_Resume show ?thesis
      by (cases "u = a"; cases "cpc s u") (auto simp: locks_at_def)
  qed
next
  case (C_OneRead x)
  with assms show ?thesis
    by (cases "cpc s u"; cases x) (auto simp: cv_defs locks_at_def split: if_splits)
qed (use assms in \<open>cases "cpc s u"; auto simp: cv_defs locks_at_def split: if_splits\<close>)+

lemma locks_self:
  assumes "locks_at under_lock s t" and step: "cv_step pred t b (cpc s t) s = Next s'"
    and "cv_chains s stk own"
  shows "locks_at under_lock s' t"
proof (cases "cpc s t")
  case (C_OneRead x)
  with step obtain a where "x = Some a" "s' = c_goto t (C_OneCas a (cnext s a)) s"
    by (cases x) (auto simp: cv_defs split: if_splits)
  with C_OneRead assms(1) show ?thesis by (auto simp: locks_at_def)
next
  case (C_Resume p)
  show ?thesis
  proof (cases p)
    case None
    with C_Resume assms show ?thesis by (auto simp: cv_defs locks_at_def)
  next
    case (Some a)
    with C_Resume have r: "cpc s t = C_Resume (Some a)" by simp
    from chains_resume(2) [OF assms(3) r] assms r show ?thesis
      by (auto simp: cv_defs locks_at_def split: if_splits)
  qed
qed (use assms in \<open>auto simp: cv_defs locks_at_def split: if_splits\<close>)

lemma asleep_step:
  assumes "cv_asleep pred s" and step: "cv_step pred t b (cpc s t) s = Next s'"
  shows "cv_asleep pred s'"
proof (cases "cpc s t")
  case (C_OneRead x)
  with assms show ?thesis by (cases x) (auto simp: cv_defs cv_asleep_def split: if_splits)
next
  case (C_Resume p)
  with assms show ?thesis by (cases p) (auto simp: cv_defs cv_asleep_def split: if_splits)
next
  case (C_Push a)
  then have "\<not> pred t (shared s)" using assms(1) by (auto simp: cv_asleep_def)
  with C_Push assms show ?thesis by (auto simp: cv_defs cv_asleep_def split: if_splits)
qed (use assms in \<open>auto simp: cv_defs cv_asleep_def split: if_splits\<close>)

lemma cv_step_inv:
  assumes "cv_inv pred under_lock s" "cv_step pred t b (cpc s t) s = Next s'"
  shows "cv_inv pred under_lock s'"
proof -
  from assms(1) obtain stk own where i: "cv_chains s stk own" "cv_locks under_lock s" "cv_asleep pred s"
    by (auto simp: cv_inv_def)
  have "locks_at under_lock s' u" for u
    using locks_others [OF _ _ _ assms(2)] locks_self [OF _ assms(2) i(1)] i(2)
    by (cases "u = t") (auto simp: cv_locks_def)
  with cv_chains_step [OF i(1,2) assms(2)] asleep_step [OF i(3) assms(2)] show ?thesis
    by (auto simp: cv_inv_def cv_locks_def)
qed

text \<open>The calls of the client change no chain.\<close>

lemma cv_call_inv:
  assumes "cv_inv pred under_lock s" "cpc s t = C_Idle" "p \<noteq> C_Waiting" "own_ok (cnext s) p []"
    "cnext s' = cnext s" "awaiters s' = awaiters s" "cpc s' = (cpc s)(t := p)" "unlocking s' = unlocking s"
    "holder s' = holder s" "shared s' = shared s" "locks_at under_lock s' t"
    "p \<noteq> C_Load" "\<And>a. p \<noteq> C_Push a"
  shows "cv_inv pred under_lock s'"
proof -
  from assms(1) obtain stk own where i: "cv_chains s stk own" "cv_locks under_lock s" "cv_asleep pred s"
    by (auto simp: cv_inv_def)
  from chainsD(2) [OF i(1), of t] assms(2) have "own t = []" by simp
  with assms have "cv_chains s' stk own"
    by (intro chains_goto [OF i(1), where t = t and v = "cnext s t" and p = p]) auto
  moreover have "locks_at under_lock s' u" for u
  proof (cases "u = t")
    case False
    with i(2) have "locks_at under_lock s u" by (simp add: cv_locks_def)
    with False assms(5-9) show ?thesis by (cases "cpc s u") (auto simp: locks_at_def)
  qed (use assms(11) in simp)
  moreover have "cv_asleep pred s'" using i(3) assms(7,8,10,12,13) by (auto simp: cv_asleep_def)
  ultimately show ?thesis by (auto simp: cv_inv_def cv_locks_def)
qed

text \<open>The lock changes hands, or its holder changes the data.\<close>

lemma cv_lock_inv:
  assumes "cv_inv pred under_lock s" "cnext s' = cnext s" "awaiters s' = awaiters s" "cpc s' = cpc s"
    and free: "\<And>u. holder s = Some u \<Longrightarrow> u \<notin> unlocking s' \<and> cpc s u \<noteq> C_Load \<and> (\<forall>a. cpc s u \<noteq> C_Push a) \<and>
        \<not> wait_pc (cpc s u) \<and> \<not> one_pc (cpc s u) \<and> \<not> (under_lock \<and> notify_pc (cpc s u))"
    and "unlocking s' \<subseteq> unlocking s"
  shows "cv_inv pred under_lock s'"
proof -
  from assms(1) obtain stk own where i: "cv_chains s stk own" "cv_locks under_lock s" "cv_asleep pred s"
    by (auto simp: cv_inv_def)
  have l: "locks_at under_lock s u" for u using i(2) by (simp add: cv_locks_def)
  have none: "\<not> wait_pc (cpc s u) \<and> \<not> one_pc (cpc s u) \<and> \<not> (under_lock \<and> notify_pc (cpc s u)) \<and>
      u \<notin> unlocking s'" for u
    using l [of u] free [of u] assms(6) unfolding locks_at_def by blast
  then have "locks_at under_lock s' u" for u using assms(4) unfolding locks_at_def by metis
  moreover have "cv_asleep pred s'"
    using none assms(4) unfolding cv_asleep_def by (metis wait_pc.simps(2,3))
  moreover have "cv_chains s' stk own" by (rule chains_cong [OF i(1) assms(2-4)])
  ultimately show ?thesis by (auto simp: cv_inv_def cv_locks_def)
qed

lemma cv_holder_idle:
  assumes "cv_inv pred under_lock s" "cpc s t = C_Idle"
  shows "t \<notin> unlocking s"
  using assms by (auto simp: cv_inv_def cv_locks_def locks_at_def)

lemma cv_exec_inv:
  assumes inv: "cv_inv pred under_lock s" and allow: "under_lock \<or> \<not> allow_one"
    and step: "cv_exec pred under_lock allow_one e s = Next s'"
  shows "cv_inv pred under_lock s'"
proof (cases e)
  case (Acquire t)
  with step inv show ?thesis by (intro cv_lock_inv [OF inv]) (auto split: if_splits)
next
  case (Release t)
  with step cv_holder_idle [OF inv, of t] show ?thesis
    by (intro cv_lock_inv [OF inv]) (auto split: if_splits)
next
  case (Update t d)
  with step cv_holder_idle [OF inv, of t] show ?thesis
    by (intro cv_lock_inv [OF inv]) (auto split: if_splits)
next
  case (Wait t)
  with step cv_holder_idle [OF inv, of t] show ?thesis
    by (intro cv_call_inv [OF inv, where t = t and p = C_Test]) (auto simp: locks_at_def split: if_splits)
next
  case (NotifyAll t)
  with step cv_holder_idle [OF inv, of t] show ?thesis
    by (intro cv_call_inv [OF inv, where t = t and p = "C_AllCas (awaiters s)"])
      (auto simp: locks_at_def split: if_splits)
next
  case (NotifyOne t)
  with step cv_holder_idle [OF inv, of t] allow show ?thesis
    by (intro cv_call_inv [OF inv, where t = t and p = "if awaiters s = None then C_Idle else C_OneRead (awaiters s)"])
      (auto simp: locks_at_def split: if_splits)
next
  case (CvStep t b)
  with step cv_step_inv [OF inv] show ?thesis by auto
next
  case (CvUnlock t)
  with step have t: "t \<in> unlocking s" "s' = s\<lparr>holder := None, unlocking := unlocking s - {t}\<rparr>"
    by (auto simp: cv_unlock_def split: if_splits)
  with inv have "holder s = Some t" "cpc s t = C_Waiting \<or> cpc s t = C_Relock"
    by (auto simp: cv_inv_def cv_locks_def locks_at_def)
  with t show ?thesis by (intro cv_lock_inv [OF inv]) auto
qed

lemma cv_exec_no_fault:
  assumes inv: "cv_inv pred under_lock s"
  shows "cv_exec pred under_lock allow_one e s \<noteq> Fault f"
proof (cases e)
  case (CvStep t b)
  from inv obtain stk own where i: "cv_chains s stk own" "locks_at under_lock s t"
    by (auto simp: cv_inv_def cv_locks_def)
  note c = chainsD [OF i(1)]
  show ?thesis
  proof (cases "cpc s t")
    case (C_OneRead x)
    with i(2) obtain a where x: "x = Some a" "awaiters s = Some a" by (auto simp: locks_at_def)
    with c(1) have "a \<in> set stk" by (auto simp: chain_Some)
    with c(5) [of a] C_OneRead x CvStep show ?thesis by (simp add: cv_defs)
  next
    case (C_OneClear a)
    with c(2) [of t] have "a \<in> set (own t)" by simp
    then have "cpc s a = C_Waiting" using c(5) by blast
    with C_OneClear CvStep show ?thesis by (simp add: cv_defs)
  next
    case (C_Resume p)
    with chains_resume(1) [OF i(1), of t] CvStep show ?thesis by (cases p) (auto simp: cv_defs)
  qed (use CvStep in \<open>auto simp: cv_defs\<close>)
qed (auto simp: cv_unlock_def)

text \<open>Both disciplines give a component that never faults.\<close>

interpretation cv_locked: safe_machine "cv_init d" "cv_exec pred True allow_one" "cv_inv pred True"
  by unfold_locales (auto intro: cv_inv_init cv_exec_inv dest: cv_exec_no_fault)

interpretation cv_all: safe_machine "cv_init d" "cv_exec pred False False" "cv_inv pred False"
  by unfold_locales (auto intro: cv_inv_init cv_exec_inv dest: cv_exec_no_fault)

section \<open>Properties\<close>

text \<open>
  Property C24 (the condition variable never faults). When every notification is made under the
  lock, or when only \<open>notifyAll\<close> is used, no schedule of waits, notifications and lock operations
  dereferences a null awaiter or touches the awaiter of a coroutine that has been resumed.
\<close>
theorem condvar_never_faults:
  "run (cv_exec pred True allow_one) es (cv_init d) \<noteq> Fault f \<and>
   run (cv_exec pred False False) es (cv_init d) \<noteq> Fault f"
  by (intro conjI cv_locked.run_no_fault cv_all.run_no_fault)

text \<open>
  Property C39 (\<open>notifyOne\<close> without the lock faults). Two coroutines that call \<open>notifyOne\<close> without
  the lock while one coroutine waits can dereference the null pointer their compare-exchange has
  read, and can read the awaiter of a coroutine that the other one has already resumed.
\<close>
theorem notifyOne_unlocked_faults:
  "(\<exists>es. run (cv_exec (\<lambda>_ _. False) False True) es (cv_init ()) = Fault NullDeref) \<and>
   (\<exists>es. run (cv_exec (\<lambda>_ _. False) False True) es (cv_init ()) = Fault UseAfterFree)"
proof
  let ?wait = "[Acquire 0, Wait 0, CvStep 0 False, CvStep 0 False, CvStep 0 False, CvUnlock 0]"
  let ?both = "[NotifyOne 1, NotifyOne 2, CvStep 1 False, CvStep 1 False]"
  have "run (cv_exec (\<lambda>_ _. False) False True)
      (?wait @ [NotifyOne 1, CvStep 1 False, NotifyOne 2, CvStep 2 False, CvStep 1 False,
        CvStep 2 False, CvStep 2 False]) (cv_init ()) = Fault NullDeref"
    by (simp add: cv_defs cv_init_def)
  then show "\<exists>es. run (cv_exec (\<lambda>_ _. False) False True) es (cv_init ()) = Fault NullDeref" by blast
  have "run (cv_exec (\<lambda>_ _. False) False True)
      (?wait @ ?both @ [CvStep 1 False, CvStep 1 False, CvStep 2 False]) (cv_init ()) = Fault UseAfterFree"
    by (simp add: cv_defs cv_init_def)
  then show "\<exists>es. run (cv_exec (\<lambda>_ _. False) False True) es (cv_init ()) = Fault UseAfterFree" by blast
qed

text \<open>
  Also shown (\<open>wait\<close> returns with the predicate and the lock). When \<open>wait\<close> returns, its predicate
  holds of the shared data and the coroutine holds the lock; and no coroutine goes to sleep, or is
  still about to release the lock for it, while its predicate holds.
\<close>
theorem condvar_wait_returns:
  assumes "reach (cv_exec pred True allow_one) (cv_init d) s"
    and "cpc s t = C_Test" and "cv_exec pred True allow_one (CvStep t b) s = Next s'"
    and "cpc s' t = C_Idle"
  shows "pred t (shared s') \<and> holder s' = Some t \<and> (\<forall>u \<in> unlocking s'. \<not> pred u (shared s'))"
proof -
  have "cv_inv pred True s" using cv_locked.reach_inv [OF assms(1)] .
  then have "locks_at True s t" "cv_asleep pred s" by (auto simp: cv_inv_def cv_locks_def)
  with assms(2-4) show ?thesis by (auto simp: cv_defs locks_at_def cv_asleep_def split: if_splits)
qed


text \<open>Coroutine 0 waits for a positive number, coroutine 1 provides it and notifies.\<close>

definition cv_demo :: "nat cv_sys" where
  "cv_demo = \<lparr>holder = Some 0, shared = 5, awaiters = None, cnext = (\<lambda>_. None),
     cpc = (\<lambda>_. C_Idle)(0 := C_Test), unlocking = {}, cv_offline = [0]\<rparr>"

definition cv_demo_waiting :: "nat cv_sys" where
  "cv_demo_waiting = \<lparr>holder = Some 1, shared = 5, awaiters = Some 0, cnext = (\<lambda>_. None),
     cpc = (\<lambda>_. C_Idle)(0 := C_Waiting, 1 := C_AllCas (Some 0)), unlocking = {}, cv_offline = [0]\<rparr>"

lemma cv_demo_waiting_reach:
  "reach (cv_exec (\<lambda>_ d. 0 < d) True True) (cv_init 0) cv_demo_waiting"
proof (rule run_reach [OF reach_init])
  show "run (cv_exec (\<lambda>_ d. 0 < d) True True)
      [Acquire 0, Wait 0, CvStep 0 False, CvStep 0 False, CvStep 0 False, CvUnlock 0,
       Acquire 1, Update 1 5, NotifyAll 1] (cv_init 0) = Next cv_demo_waiting"
    by (simp add: cv_defs cv_init_def cv_demo_waiting_def fun_upd_idem)
qed

lemma cv_demo_reach: "reach (cv_exec (\<lambda>_ d. 0 < d) True True) (cv_init 0) cv_demo"
proof (rule run_reach [OF cv_demo_waiting_reach])
  show "run (cv_exec (\<lambda>_ d. 0 < d) True True)
      [CvStep 1 False, CvStep 1 False, CvStep 1 False, Release 1, CvStep 0 False] cv_demo_waiting = Next cv_demo"
    by (simp add: cv_defs cv_demo_waiting_def cv_demo_def fun_upd_idem fun_upd_twist)
qed

theorem condvar_wait_returns_witness:
  "\<exists>s'. cv_exec (\<lambda>_ d. 0 < d) True True (CvStep 0 False) cv_demo = Next s' \<and> 0 < shared s' \<and>
     holder s' = Some 0"
proof -
  let ?s' = "c_goto 0 C_Idle cv_demo"
  have "cpc cv_demo 0 = C_Test" "cpc ?s' 0 = C_Idle" by (simp_all add: cv_demo_def)
  moreover have st: "cv_exec (\<lambda>_ d. 0 < d) True True (CvStep 0 False) cv_demo = Next ?s'"
    by (simp add: cv_defs cv_demo_def)
  ultimately show ?thesis using condvar_wait_returns [OF cv_demo_reach, of 0 False ?s'] by blast
qed

lemma resumeWaiters_run:
  "cpc s t = C_Resume p \<Longrightarrow> chain (cnext s) p xs \<Longrightarrow> list_all (cv_live s) xs \<Longrightarrow>
    run (cv_exec pred L one) (replicate (length xs + 1) (CvStep t b)) s =
      Next (s\<lparr>cpc := (\<lambda>x. if x = t then C_Idle else if x \<in> set xs then C_Relock else cpc s x)\<rparr>)"
proof (induction xs arbitrary: s p)
  case Nil
  then have "s\<lparr>cpc := (cpc s)(t := C_Idle)\<rparr> =
      s\<lparr>cpc := (\<lambda>x. if x = t then C_Idle else if x \<in> set [] then C_Relock else cpc s x)\<rparr>"
    by (intro cv_sys.equality) auto
  with Nil show ?case by (simp add: cv_defs)
next
  case (Cons a xs)
  then have p: "p = Some a" "chain (cnext s) (cnext s a) xs" "cpc s a = C_Waiting" "a \<noteq> t" by auto
  then have a: "a \<notin> set xs" by (auto dest: chain_not_in_tail)
  let ?s = "c_goto a C_Relock (c_goto t (C_Resume (cnext s a)) s)"
  have "t \<notin> set xs" using Cons.prems(1,3) by (auto simp: list_all_iff)
  then have "list_all (cv_live ?s) xs" using Cons.prems(3) a by (auto simp: list_all_iff)
  with Cons.IH [of ?s "cnext s a"] p have "run (cv_exec pred L one) (replicate (length xs + 1) (CvStep t b)) ?s =
      Next (?s\<lparr>cpc := (\<lambda>x. if x = t then C_Idle else if x \<in> set xs then C_Relock else cpc ?s x)\<rparr>)"
    by simp
  moreover have "?s\<lparr>cpc := (\<lambda>x. if x = t then C_Idle else if x \<in> set xs then C_Relock else cpc ?s x)\<rparr> =
      s\<lparr>cpc := (\<lambda>x. if x = t then C_Idle else if x \<in> set (a # xs) then C_Relock else cpc s x)\<rparr>"
    using p by (auto intro!: cv_sys.equality)
  moreover have "cv_exec pred L one (CvStep t b) s = Next ?s" using Cons.prems(1) p by (simp add: cv_defs)
  ultimately show ?case by simp
qed

text \<open>
  Also shown (no waiter is lost). A \<open>notifyAll\<close> made under the lock ends, leaves \<open>_awaiters\<close>
  empty, and resumes every coroutine that was waiting when it took the list.
\<close>
theorem condvar_notifyAll_wakes:
  assumes "reach (cv_exec pred True allow_one) (cv_init d) s"
    and "cpc s t = C_AllCas (awaiters s)"
  shows "\<exists>n s'. run (cv_exec pred True allow_one) (replicate n (CvStep t False)) s = Next s' \<and>
    cpc s' t = C_Idle \<and> awaiters s' = None \<and>
    {x. cpc s' x = C_Relock} = {x. cpc s x = C_Relock \<or> cpc s x = C_Waiting}"
proof -
  have "cv_inv pred True s" using cv_locked.reach_inv [OF assms(1)] .
  then obtain stk own where i: "cv_chains s stk own" and l: "\<And>u. locks_at True s u"
    by (auto simp: cv_inv_def cv_locks_def)
  note c = chainsD [OF i]
  have h: "holder s = Some t" using l [of t] assms(2) by (simp add: locks_at_def)
  have "own u = []" for u
    using c(2) [of u] l [of u] h assms(2) by (cases "cpc s u") (auto simp: locks_at_def)
  then have w: "cpc s x = C_Waiting \<longleftrightarrow> x \<in> set stk" for x using c(5) by simp
  let ?s1 = "c_goto t (C_Resume (awaiters s)) (s\<lparr>awaiters := None\<rparr>)"
  have t: "t \<notin> set stk" using w [of t] assms(2) by simp
  then have "list_all (cv_live ?s1) stk" using w by (auto simp: list_all_iff)
  with resumeWaiters_run [of ?s1 t "awaiters s" stk pred True allow_one False] c(1)
  have "run (cv_exec pred True allow_one) (replicate (length stk + 1) (CvStep t False)) ?s1 =
      Next (?s1\<lparr>cpc := (\<lambda>x. if x = t then C_Idle else if x \<in> set stk then C_Relock else cpc ?s1 x)\<rparr>)"
    by simp
  moreover have "cv_exec pred True allow_one (CvStep t False) s = Next ?s1"
    using assms(2) by (simp add: cv_defs)
  ultimately have r: "run (cv_exec pred True allow_one) (replicate (Suc (length stk + 1)) (CvStep t False)) s =
      Next (?s1\<lparr>cpc := (\<lambda>x. if x = t then C_Idle else if x \<in> set stk then C_Relock else cpc ?s1 x)\<rparr>)"
    by simp
  have relock: "(if x = t then C_Idle else if x \<in> set stk then C_Relock else cpc ?s1 x) = C_Relock \<longleftrightarrow>
      cpc s x = C_Relock \<or> cpc s x = C_Waiting" for x
    using assms(2) w [of x] by (cases "x = t") auto
  show ?thesis by (intro exI conjI, rule r) (simp_all add: relock del: if_split)
qed

theorem condvar_notifyAll_wakes_witness:
  "\<exists>n s'. run (cv_exec (\<lambda>_ d. 0 < d) True True) (replicate n (CvStep 1 False)) cv_demo_waiting = Next s' \<and>
     cpc s' 0 = C_Relock"
proof -
  have "cpc cv_demo_waiting 1 = C_AllCas (awaiters cv_demo_waiting)" "cpc cv_demo_waiting 0 = C_Waiting"
    by (simp_all add: cv_demo_waiting_def)
  with condvar_notifyAll_wakes [OF cv_demo_waiting_reach, of 1] show ?thesis by blast
qed

end
