(* ===== verification/CondVarSpec.thy ===== *)
theory CondVarSpec
  imports CondVar SharedMutex
begin

text \<open>
  The contract of a condition variable that is notified under its lock, as a step relation; the
  condition variable of \<^verbatim>\<open>include/conditionvariable.hpp\<close> refines it, and the two gates of
  \<^verbatim>\<open>include/sharedmutex.hpp\<close> are used within it.
\<close>

section \<open>The contract\<close>

text \<open>
  Who waits is queued, newest first, and releases the lock in the same step; a notification, made by
  the holder of the lock, moves the newest or all of the queue to the coroutines that compete for
  the lock again.
\<close>

record 'd cv_spec =
  cs_holder :: "nat option"
  cs_data :: 'd
  cs_queue :: "nat list"
  cs_woken :: "nat set"

definition cv_spec_init :: "'d \<Rightarrow> 'd cv_spec" where
  "cv_spec_init d = \<lparr>cs_holder = None, cs_data = d, cs_queue = [], cs_woken = {}\<rparr>"

inductive cv_spec_step :: "(nat \<Rightarrow> 'd \<Rightarrow> bool) \<Rightarrow> 'd cv_spec \<Rightarrow> 'd cv_spec \<Rightarrow> bool"
  for pred :: "nat \<Rightarrow> 'd \<Rightarrow> bool" where
  spec_acquire: "cs_holder a = None \<Longrightarrow> t \<notin> set (cs_queue a) \<Longrightarrow> t \<notin> cs_woken a \<Longrightarrow>
    cv_spec_step pred a (a\<lparr>cs_holder := Some t\<rparr>)"
| spec_release: "cs_holder a = Some t \<Longrightarrow> cv_spec_step pred a (a\<lparr>cs_holder := None\<rparr>)"
| spec_update: "cs_holder a = Some t \<Longrightarrow> cv_spec_step pred a (a\<lparr>cs_data := d\<rparr>)"
| spec_wait: "cs_holder a = Some t \<Longrightarrow> \<not> pred t (cs_data a) \<Longrightarrow>
    cv_spec_step pred a (a\<lparr>cs_holder := None, cs_queue := t # cs_queue a\<rparr>)"
| spec_notify_all: "cs_holder a = Some t \<Longrightarrow>
    cv_spec_step pred a (a\<lparr>cs_queue := [], cs_woken := cs_woken a \<union> set (cs_queue a)\<rparr>)"
| spec_notify_one: "cs_holder a = Some t \<Longrightarrow> cs_queue a = x # q \<Longrightarrow>
    cv_spec_step pred a (a\<lparr>cs_queue := q, cs_woken := insert x (cs_woken a)\<rparr>)"
| spec_relock: "cs_holder a = None \<Longrightarrow> t \<in> cs_woken a \<Longrightarrow>
    cv_spec_step pred a (a\<lparr>cs_holder := Some t, cs_woken := cs_woken a - {t}\<rparr>)"

section \<open>The condition variable refines it\<close>

text \<open>
  The queue of the contract is the stack in \<open>_awaiters\<close> without its top while that coroutine has not
  released the lock yet; the coroutines a notifier has taken off the stack compete already.
\<close>

definition cv_woken :: "'d cv_sys \<Rightarrow> nat list \<Rightarrow> nat set" where
  "cv_woken s stk = {x. cpc s x = C_Relock \<or> cpc s x = C_Waiting \<and> x \<notin> set stk}"

definition cv_abs :: "'d cv_sys \<Rightarrow> nat list \<Rightarrow> 'd cv_spec" where
  "cv_abs s stk = \<lparr>cs_holder = holder s, cs_data = shared s,
     cs_queue = filter (\<lambda>x. x \<notin> unlocking s) stk, cs_woken = cv_woken s stk\<rparr>"

definition cv_rep :: "(nat \<Rightarrow> 'd \<Rightarrow> bool) \<Rightarrow> 'd cv_sys \<Rightarrow> 'd cv_spec \<Rightarrow> bool" where
  "cv_rep pred s a \<longleftrightarrow> cv_inv pred True s \<and> (\<forall>x \<in> unlocking s. awaiters s = Some x) \<and>
     (\<exists>stk. chain (cnext s) (awaiters s) stk \<and> a = cv_abs s stk)"

lemma cv_rep_init: "cv_rep pred (cv_init d) (cv_spec_init d)"
  unfolding cv_rep_def
proof (intro conjI cv_inv_init)
  show "\<exists>stk. chain (cnext (cv_init d)) (awaiters (cv_init d)) stk \<and> cv_spec_init d = cv_abs (cv_init d) stk"
    by (intro exI [of _ "[]"]) (simp add: cv_init_def cv_abs_def cv_spec_init_def cv_woken_def)
qed (simp add: cv_init_def)

text \<open>What the invariant says of the stack and of the holder.\<close>

lemma cv_stack_waiting:
  assumes "cv_inv pred L s" "chain (cnext s) (awaiters s) stk" "x \<in> set stk"
  shows "cpc s x = C_Waiting"
proof -
  from assms(1) obtain stk' own where c: "cv_chains s stk' own" by (auto simp: cv_inv_def)
  with chain_unique [OF assms(2) chainsD(1) [OF c]] assms(3) chainsD(5) [OF c] show ?thesis by blast
qed

lemma cv_cleared_off_stack:
  assumes "cv_inv pred L s" "chain (cnext s) (awaiters s) stk" "cpc s t = C_OneClear a"
  shows "a \<notin> set stk"
proof -
  from assms(1) obtain stk' own where c: "cv_chains s stk' own" by (auto simp: cv_inv_def)
  from chainsD(2) [OF c, of t] assms(3) have "a \<in> set (own t)" by simp
  with chain_unique [OF assms(2) chainsD(1) [OF c]] chainsD(3) [OF c] show ?thesis by blast
qed

lemma cv_resumed_off_stack:
  assumes "cv_inv pred L s" "chain (cnext s) (awaiters s) stk" "cpc s t = C_Resume (Some a)"
  shows "a \<notin> set stk" "cpc s a = C_Waiting"
proof -
  from assms(1) obtain stk' own where c: "cv_chains s stk' own" by (auto simp: cv_inv_def)
  from chainsD(2) [OF c, of t] assms(3) have a: "a \<in> set (own t)" by (auto simp: chain_Some)
  with chain_unique [OF assms(2) chainsD(1) [OF c]] chainsD(3) [OF c] show "a \<notin> set stk" by blast
  from a chainsD(5) [OF c] show "cpc s a = C_Waiting" by blast
qed

lemma cv_lockedD:
  assumes "cv_inv pred True s"
  shows "wait_pc (cpc s t) \<or> one_pc (cpc s t) \<or> notify_pc (cpc s t) \<Longrightarrow> holder s = Some t"
    "t \<in> unlocking s \<Longrightarrow> holder s = Some t"
    "t \<in> unlocking s \<Longrightarrow> \<not> pred t (shared s)"
    "t \<in> unlocking s \<Longrightarrow> cpc s t = C_Waiting \<or> cpc s t = C_Relock"
    "one_ok s (cpc s t)"
proof -
  from assms have l: "locks_at True s t" and a: "cv_asleep pred s" by (auto simp: cv_inv_def cv_locks_def)
  from l show "wait_pc (cpc s t) \<or> one_pc (cpc s t) \<or> notify_pc (cpc s t) \<Longrightarrow> holder s = Some t"
    "t \<in> unlocking s \<Longrightarrow> holder s = Some t" "t \<in> unlocking s \<Longrightarrow> cpc s t = C_Waiting \<or> cpc s t = C_Relock"
    unfolding locks_at_def by blast+
  from a show "t \<in> unlocking s \<Longrightarrow> \<not> pred t (shared s)" unfolding cv_asleep_def by blast
  from l show "one_ok s (cpc s t)" unfolding locks_at_def by (cases "cpc s t") auto
qed

text \<open>Whoever takes a step under the lock, nobody is between queueing and unlocking.\<close>

lemma cv_no_unlocker:
  assumes "cv_inv pred True s" "holder s = Some t" "cpc s t \<noteq> C_Waiting" "cpc s t \<noteq> C_Relock"
  shows "unlocking s = {}"
  using cv_lockedD(2,4) [OF assms(1)] assms(2-4) by fastforce

lemma cv_repI:
  assumes "cv_inv pred True s" "\<And>x. x \<in> unlocking s \<Longrightarrow> awaiters s = Some x"
    "chain (cnext s) (awaiters s) stk" "a = cv_abs s stk"
  shows "cv_rep pred s a"
  using assms unfolding cv_rep_def by blast

text \<open>A step that the contract does not see.\<close>

lemma cv_rep_stutter:
  assumes "cv_inv pred True s'" "\<forall>x \<in> unlocking s. awaiters s = Some x"
    "chain (cnext s') (awaiters s') stk" "unlocking s' = unlocking s" "awaiters s' = awaiters s"
    "holder s' = holder s" "shared s' = shared s" "cv_woken s' stk = cv_woken s stk"
  shows "cv_rep pred s' (cv_abs s stk)"
  using assms by (intro cv_repI [of pred s' stk]) (auto simp: cv_abs_def)

lemma cv_woken_goto:
  "cpc s' = (cpc s)(t := p) \<Longrightarrow> cpc s t \<noteq> C_Waiting \<Longrightarrow> cpc s t \<noteq> C_Relock \<Longrightarrow> p \<noteq> C_Waiting \<Longrightarrow>
    p \<noteq> C_Relock \<Longrightarrow> cv_woken s' stk = cv_woken s stk"
  unfolding cv_woken_def by (rule Collect_cong) simp

text \<open>A step of a coroutine that is not suspended and does not touch the stack.\<close>

lemma cv_rep_goto:
  assumes inv: "cv_inv pred True s" and inv': "cv_inv pred True s'"
    and top: "\<forall>x \<in> unlocking s. awaiters s = Some x" and stk: "chain (cnext s) (awaiters s) stk"
    and "cpc s t \<noteq> C_Waiting" "cpc s t \<noteq> C_Relock" "p \<noteq> C_Waiting" "p \<noteq> C_Relock"
    and eqs: "cpc s' = (cpc s)(t := p)" "cnext s' = (cnext s)(t := v)" "unlocking s' = unlocking s"
      "awaiters s' = awaiters s" "holder s' = holder s" "shared s' = shared s"
  shows "cv_rep pred s' (cv_abs s stk)"
proof (rule cv_rep_stutter [OF inv' top])
  have "t \<notin> set stk" using cv_stack_waiting [OF inv stk] assms(5) by blast
  then show "chain (cnext s') (awaiters s') stk" using stk eqs by simp
  show "cv_woken s' stk = cv_woken s stk" by (rule cv_woken_goto [OF eqs(1)]) (use assms(5-8) in auto)
qed (use eqs in auto)

lemma cv_rep_step_pc:
  assumes inv: "cv_inv pred True s" and inv': "cv_inv pred True s'"
    and top: "\<forall>x \<in> unlocking s. awaiters s = Some x" and stk: "chain (cnext s) (awaiters s) stk"
    and step: "cv_step pred t b (cpc s t) s = Next s'"
  shows "\<exists>a'. (a' = cv_abs s stk \<or> cv_spec_step pred (cv_abs s stk) a') \<and> cv_rep pred s' a'"
proof (cases "cpc s t")
  case C_Test
  have "cv_rep pred s' (cv_abs s stk)"
    by (rule cv_rep_goto [OF inv inv' top stk, where t = t and v = "cnext s t"
          and p = "if pred t (shared s) then C_Idle else C_Load"]) (use C_Test step in \<open>auto simp: cv_defs\<close>)
  then show ?thesis by blast
next
  case C_Load
  have "cv_rep pred s' (cv_abs s stk)"
    by (rule cv_rep_goto [OF inv inv' top stk, where t = t and v = "cnext s t" and p = "C_Push (awaiters s)"])
      (use C_Load step in \<open>auto simp: cv_defs\<close>)
  then show ?thesis by blast
next
  case (C_Push a)
  show ?thesis
  proof (cases "awaiters s = a \<and> \<not> b")
    case True
    have h: "holder s = Some t" using cv_lockedD(1) [OF inv, of t] C_Push by simp
    have u: "unlocking s = {}" by (rule cv_no_unlocker [OF inv h]) (use C_Push in auto)
    have t: "t \<notin> set stk" using cv_stack_waiting [OF inv stk, of t] C_Push by auto
    have s': "s' = c_goto t C_Waiting (s\<lparr>cnext := (cnext s)(t := a), awaiters := Some t, unlocking := {t}\<rparr>)"
      using C_Push True step u by (simp add: cv_defs)
    have "cv_woken s' (t # stk) = cv_woken s stk"
      unfolding cv_woken_def by (rule Collect_cong) (use s' C_Push in auto)
    moreover have "filter (\<lambda>x. x \<noteq> t) stk = stk" using t by (auto simp: filter_id_conv)
    ultimately have "cv_abs s stk = cv_abs s' (t # stk)" using s' u by (simp add: cv_abs_def)
    moreover have "chain (cnext s') (awaiters s') (t # stk)" using s' stk t True by simp
    ultimately have "cv_rep pred s' (cv_abs s stk)" using s' by (intro cv_repI [OF inv']) auto
    then show ?thesis by blast
  next
    case False
    have "cv_rep pred s' (cv_abs s stk)"
      by (rule cv_rep_goto [OF inv inv' top stk, where t = t and v = a and p = "C_Push (awaiters s)"])
        (use C_Push False step in \<open>auto simp: cv_defs\<close>)
    then show ?thesis by blast
  qed
next
  case C_Relock
  then have h: "holder s = None" "s' = c_goto t C_Test (s\<lparr>holder := Some t\<rparr>)"
    using step by (auto simp: cv_defs split: if_splits)
  have u: "unlocking s = {}" using cv_lockedD(2) [OF inv] h(1) by auto
  have "t \<in> cv_woken s stk" using C_Relock by (simp add: cv_woken_def)
  then have "cv_spec_step pred (cv_abs s stk)
      ((cv_abs s stk)\<lparr>cs_holder := Some t, cs_woken := cs_woken (cv_abs s stk) - {t}\<rparr>)"
    by (intro spec_relock) (simp_all add: cv_abs_def h)
  moreover have "cv_woken s' stk = cv_woken s stk - {t}"
    using h(2) by (auto simp: cv_woken_def)
  then have "(cv_abs s stk)\<lparr>cs_holder := Some t, cs_woken := cs_woken (cv_abs s stk) - {t}\<rparr> = cv_abs s' stk"
    using h(2) by (simp add: cv_abs_def)
  moreover have "cv_rep pred s' (cv_abs s' stk)" using h(2) stk u by (intro cv_repI [OF inv']) auto
  ultimately show ?thesis by auto
next
  case (C_AllCas a)
  show ?thesis
  proof (cases "awaiters s = a \<and> \<not> b")
    case True
    have h: "holder s = Some t" using cv_lockedD(1) [OF inv, of t] C_AllCas by simp
    have u: "unlocking s = {}" by (rule cv_no_unlocker [OF inv h]) (use C_AllCas in auto)
    have s': "s' = c_goto t (C_Resume a) (s\<lparr>awaiters := None\<rparr>)" using C_AllCas True step by (simp add: cv_defs)
    have "cv_woken s' [] = cv_woken s stk \<union> set stk"
      using s' C_AllCas cv_stack_waiting [OF inv stk] by (auto simp: cv_woken_def)
    then have "cv_abs s' [] = (cv_abs s stk)\<lparr>cs_queue := [], cs_woken := cs_woken (cv_abs s stk) \<union> set (cs_queue (cv_abs s stk))\<rparr>"
      using s' u by (simp add: cv_abs_def)
    moreover have "cv_rep pred s' (cv_abs s' [])" using s' u by (intro cv_repI [OF inv']) auto
    moreover have "cs_holder (cv_abs s stk) = Some t" using h by (simp add: cv_abs_def)
    ultimately show ?thesis using spec_notify_all by metis
  next
    case False
    have "cv_rep pred s' (cv_abs s stk)"
      by (rule cv_rep_goto [OF inv inv' top stk, where t = t and v = "cnext s t" and p = "C_AllCas (awaiters s)"])
        (use C_AllCas False step in \<open>auto simp: cv_defs\<close>)
    then show ?thesis by blast
  qed
next
  case (C_OneRead x)
  then obtain a where x: "x = Some a" using step by (cases x) (auto simp: cv_defs)
  have "cv_rep pred s' (cv_abs s stk)"
    by (rule cv_rep_goto [OF inv inv' top stk, where t = t and v = "cnext s t" and p = "C_OneCas a (cnext s a)"])
      (use C_OneRead x step in \<open>auto simp: cv_defs split: if_splits\<close>)
  then show ?thesis by blast
next
  case (C_OneCas a n)
  show ?thesis
  proof (cases "awaiters s = Some a \<and> \<not> b")
    case True
    have h: "holder s = Some t" using cv_lockedD(1) [OF inv, of t] C_OneCas by simp
    have u: "unlocking s = {}" by (rule cv_no_unlocker [OF inv h]) (use C_OneCas in auto)
    have n: "n = cnext s a" using cv_lockedD(5) [OF inv, of t] C_OneCas by simp
    from True stk obtain q where q: "stk = a # q" "chain (cnext s) (cnext s a) q" by (auto simp: chain_Some)
    have s': "s' = c_goto t (C_OneClear a) (s\<lparr>awaiters := n\<rparr>)" using C_OneCas True step by (simp add: cv_defs)
    have "a \<notin> set q" using chain_not_in_tail q(2) by fast
    moreover have "cpc s a = C_Waiting" using cv_stack_waiting [OF inv stk] q(1) by simp
    ultimately have "cv_woken s' q = insert a (cv_woken s stk)"
      using s' C_OneCas q(1) by (auto simp: cv_woken_def)
    then have "cv_abs s' q = (cv_abs s stk)\<lparr>cs_queue := q, cs_woken := insert a (cs_woken (cv_abs s stk))\<rparr>"
      using s' u by (simp add: cv_abs_def)
    moreover have "cv_rep pred s' (cv_abs s' q)" using s' u n q(2) by (intro cv_repI [OF inv']) auto
    moreover have "cs_holder (cv_abs s stk) = Some t" "cs_queue (cv_abs s stk) = a # q"
      using h u q(1) by (simp_all add: cv_abs_def)
    ultimately show ?thesis using spec_notify_one by metis
  next
    case False
    have "cv_rep pred s' (cv_abs s stk)"
      by (rule cv_rep_goto [OF inv inv' top stk, where t = t and v = "cnext s t" and p = "C_OneRead (awaiters s)"])
        (use C_OneCas False step in \<open>auto simp: cv_defs\<close>)
    then show ?thesis by blast
  qed
next
  case (C_OneClear a)
  have s': "s' = c_goto t (C_Resume (Some a)) (s\<lparr>cnext := (cnext s)(a := None)\<rparr>)"
    using C_OneClear step by (auto simp: cv_defs split: if_splits)
  have "cv_rep pred s' (cv_abs s stk)"
  proof (rule cv_rep_stutter [OF inv' top])
    show "chain (cnext s') (awaiters s') stk" using cv_cleared_off_stack [OF inv stk C_OneClear] stk s' by simp
    show "cv_woken s' stk = cv_woken s stk" by (rule cv_woken_goto [of s' s t]) (use s' C_OneClear in auto)
  qed (use s' in auto)
  then show ?thesis by blast
next
  case (C_Resume p)
  show ?thesis
  proof (cases p)
    case None
    have "cv_rep pred s' (cv_abs s stk)"
      by (rule cv_rep_goto [OF inv inv' top stk, where t = t and v = "cnext s t" and p = C_Idle])
        (use C_Resume None step in \<open>auto simp: cv_defs\<close>)
    then show ?thesis by blast
  next
    case (Some a)
    with C_Resume have r: "cpc s t = C_Resume (Some a)" by simp
    note off = cv_resumed_off_stack [OF inv stk r]
    have s': "s' = c_goto a C_Relock (c_goto t (C_Resume (cnext s a)) s)"
      using r step off(2) by (simp add: cv_defs)
    have "cv_rep pred s' (cv_abs s stk)"
      by (rule cv_rep_stutter [OF inv' top]) (use s' stk off r in \<open>auto simp: cv_woken_def\<close>)
    then show ?thesis by blast
  qed
qed (use step in simp_all)

lemma cv_rep_exec:
  assumes rep: "cv_rep pred s a" and exec: "cv_exec pred True allow_one e s = Next s'"
  shows "\<exists>a'. (a' = a \<or> cv_spec_step pred a a') \<and> cv_rep pred s' a'"
proof -
  from rep obtain stk where inv: "cv_inv pred True s" and top: "\<forall>x \<in> unlocking s. awaiters s = Some x"
    and stk: "chain (cnext s) (awaiters s) stk" and a: "a = cv_abs s stk" by (auto simp: cv_rep_def)
  have inv': "cv_inv pred True s'" by (rule cv_exec_inv [OF inv _ exec]) simp
  have idle: "t \<notin> set stk" if "cpc s t = C_Idle" for t using cv_stack_waiting [OF inv stk] that by auto
  have same: "cv_rep pred s' (cv_abs s' stk)"
    if "cpc s' = cpc s" "cnext s' = cnext s" "awaiters s' = awaiters s" "unlocking s' \<subseteq> unlocking s"
    using that top stk by (intro cv_repI [OF inv']) auto
  have call: "cv_rep pred s' a"
    if "cpc s t = C_Idle" "s' = c_goto t p s" "p \<noteq> C_Waiting" "p \<noteq> C_Relock" for t p
    unfolding a by (rule cv_rep_goto [OF inv inv' top stk, where t = t and v = "cnext s t" and p = p])
      (use that in auto)
  show ?thesis
  proof (cases e)
    case (Acquire t)
    with exec have t: "cpc s t = C_Idle" "holder s = None" "s' = s\<lparr>holder := Some t\<rparr>" by (auto split: if_splits)
    have "cv_spec_step pred a (a\<lparr>cs_holder := Some t\<rparr>)"
      by (rule spec_acquire) (use t idle in \<open>auto simp: a cv_abs_def cv_woken_def\<close>)
    moreover have "cv_abs s' stk = a\<lparr>cs_holder := Some t\<rparr>" using t by (simp add: a cv_abs_def cv_woken_def)
    ultimately show ?thesis using same t(3) by auto
  next
    case (Release t)
    with exec have t: "holder s = Some t" "s' = s\<lparr>holder := None\<rparr>" by (auto split: if_splits)
    have "cv_spec_step pred a (a\<lparr>cs_holder := None\<rparr>)" by (rule spec_release) (simp add: a cv_abs_def t)
    moreover have "cv_abs s' stk = a\<lparr>cs_holder := None\<rparr>" using t by (simp add: a cv_abs_def cv_woken_def)
    ultimately show ?thesis using same t(2) by auto
  next
    case (Update t d)
    with exec have t: "holder s = Some t" "s' = s\<lparr>shared := d\<rparr>" by (auto split: if_splits)
    have "cv_spec_step pred a (a\<lparr>cs_data := d\<rparr>)" by (rule spec_update [of _ t]) (simp add: a cv_abs_def t)
    moreover have "cv_abs s' stk = a\<lparr>cs_data := d\<rparr>" using t by (simp add: a cv_abs_def cv_woken_def)
    ultimately show ?thesis using same t(2) by auto
  next
    case (Wait t)
    with exec call [of t C_Test] show ?thesis by (auto split: if_splits)
  next
    case (NotifyAll t)
    with exec call [of t "C_AllCas (awaiters s)"] show ?thesis by (auto split: if_splits)
  next
    case (NotifyOne t)
    with exec have "cpc s t = C_Idle" "s' = c_goto t (if awaiters s = None then C_Idle else C_OneRead (awaiters s)) s"
      by (auto split: if_splits)
    from call [OF this] have "cv_rep pred s' a" by (cases "awaiters s") simp_all
    then show ?thesis by blast
  next
    case (CvStep t b)
    with exec have "cv_step pred t b (cpc s t) s = Next s'" by simp
    from cv_rep_step_pc [OF inv inv' top stk this] show ?thesis by (simp add: a)
  next
    case (CvUnlock t)
    with exec have t: "t \<in> unlocking s" "s' = s\<lparr>holder := None, unlocking := unlocking s - {t}\<rparr>"
      by (auto simp: cv_unlock_def split: if_splits)
    have h: "holder s = Some t" and np: "\<not> pred t (shared s)" using cv_lockedD(2,3) [OF inv t(1)] by auto
    have "x = t" if "x \<in> unlocking s" for x using cv_lockedD(2) [OF inv that] h by simp
    then have u: "unlocking s = {t}" using t(1) by blast
    from top t(1) stk obtain q where q: "stk = t # q" by (auto simp: chain_Some)
    have "t \<notin> set q" using chain_distinct [OF stk] q by simp
    then have f: "filter (\<lambda>x. x \<noteq> t) q = q" by (auto simp: filter_id_conv)
    have "cv_spec_step pred a (a\<lparr>cs_holder := None, cs_queue := t # cs_queue a\<rparr>)"
      by (rule spec_wait) (simp_all add: a cv_abs_def h np)
    moreover have "cv_abs s' stk = a\<lparr>cs_holder := None, cs_queue := t # cs_queue a\<rparr>"
      using t u q f by (simp add: a cv_abs_def cv_woken_def)
    ultimately show ?thesis using same t(2) by auto
  qed
qed

interpretation cv_contract: refining_machine "cv_init d" "cv_exec pred True allow_one" "cv_rep pred"
  "cv_spec_step pred" "cv_spec_init d"
proof
  show "cv_rep pred (cv_init d) (cv_spec_init d)" by (rule cv_rep_init)
next
  fix s a e s' assume "cv_rep pred s a" "cv_exec pred True allow_one e s = Next s'"
  then show "\<exists>a'. (a' = a \<or> cv_spec_step pred a a') \<and> cv_rep pred s' a'" by (rule cv_rep_exec)
next
  fix s a e f assume "cv_rep pred s a"
  then have "cv_inv pred True s" by (simp add: cv_rep_def)
  then show "cv_exec pred True allow_one e s \<noteq> Fault f" by (rule cv_exec_no_fault)
qed

section \<open>The gates of the shared mutex\<close>

text \<open>A gate of the shared mutex seen as a condition variable with the lock \<open>mut_\<close> and the data \<open>state_\<close>.\<close>

definition gate_view :: "(shm \<Rightarrow> nat list) \<Rightarrow> (shm_pc \<Rightarrow> bool) \<Rightarrow> shm \<Rightarrow> 32 word cv_spec" where
  "gate_view q w s = \<lparr>cs_holder = shm_mut s, cs_data = shm_state s, cs_queue = q s,
     cs_woken = {x. w (hpc s x)}\<rparr>"

fun woken1 :: "shm_pc \<Rightarrow> bool" where
  "woken1 H_WRelock1 = True" | "woken1 H_RRelock = True" | "woken1 _ = False"

fun woken2 :: "shm_pc \<Rightarrow> bool" where
  "woken2 H_WRelock2 = True" | "woken2 _ = False"

definition within :: "(nat \<Rightarrow> 'd \<Rightarrow> bool) \<Rightarrow> 'd cv_spec \<Rightarrow> 'd cv_spec \<Rightarrow> bool" where
  "within pred a a' \<longleftrightarrow> a' = a \<or> cv_spec_step pred a a'"

lemma woken_upd: "{x. w (((hpc s)(t := p)) x)} = (if w p then insert t {x. w (hpc s x)} else {x. w (hpc s x)} - {t})"
  by auto

lemma gate_frame:
  assumes "q s' = q s" "shm_mut s' = shm_mut s" "shm_state s' = shm_state s" "\<And>x. w (hpc s' x) = w (hpc s x)"
  shows "within pred (gate_view q w s) (gate_view q w s')"
  using assms by (simp add: within_def gate_view_def)

lemma gate_same:
  assumes "q s' = q s" "shm_mut s' = shm_mut s" "shm_state s' = shm_state s" "hpc s' = (hpc s)(t := p)"
    "w p = w (hpc s t)"
  shows "within pred (gate_view q w s) (gate_view q w s')"
  by (rule gate_frame) (use assms in auto)

lemma gate_acquire:
  assumes "q s' = q s" "shm_mut s = None" "shm_mut s' = Some t" "shm_state s' = shm_state s"
    "hpc s' = (hpc s)(t := p)" "\<not> w p" "t \<notin> set (q s)"
  shows "within pred (gate_view q w s) (gate_view q w s')"
proof (cases "w (hpc s t)")
  case True
  have "gate_view q w s' = (gate_view q w s)\<lparr>cs_holder := Some t, cs_woken := cs_woken (gate_view q w s) - {t}\<rparr>"
    using assms by (auto simp: gate_view_def woken_upd)
  moreover have "cv_spec_step pred (gate_view q w s) \<dots>"
    by (rule spec_relock) (use assms True in \<open>simp_all add: gate_view_def\<close>)
  ultimately show ?thesis by (simp add: within_def)
next
  case False
  have "gate_view q w s' = (gate_view q w s)\<lparr>cs_holder := Some t\<rparr>"
    using assms False by (auto simp: gate_view_def woken_upd)
  moreover have "cv_spec_step pred (gate_view q w s) \<dots>"
    by (rule spec_acquire) (use assms False in \<open>simp_all add: gate_view_def\<close>)
  ultimately show ?thesis by (simp add: within_def)
qed

lemma gate_release:
  assumes "q s' = q s" "shm_mut s = Some t" "shm_mut s' = None" "shm_state s' = shm_state s"
    "hpc s' = (hpc s)(t := p)" "w p = w (hpc s t)"
  shows "within pred (gate_view q w s) (gate_view q w s')"
proof -
  have "gate_view q w s' = (gate_view q w s)\<lparr>cs_holder := None\<rparr>"
    using assms by (auto simp: gate_view_def woken_upd)
  moreover have "cv_spec_step pred (gate_view q w s) \<dots>"
    by (rule spec_release) (use assms in \<open>simp add: gate_view_def\<close>)
  ultimately show ?thesis by (simp add: within_def)
qed

lemma gate_update:
  assumes "q s' = q s" "shm_mut s = Some t" "shm_mut s' = shm_mut s"
    "hpc s' = (hpc s)(t := p)" "w p = w (hpc s t)"
  shows "within pred (gate_view q w s) (gate_view q w s')"
proof -
  have "gate_view q w s' = (gate_view q w s)\<lparr>cs_data := shm_state s'\<rparr>"
    using assms by (auto simp: gate_view_def woken_upd)
  moreover have "cv_spec_step pred (gate_view q w s) \<dots>"
    by (rule spec_update [of _ t]) (use assms in \<open>simp add: gate_view_def\<close>)
  ultimately show ?thesis by (simp add: within_def)
qed

lemma gate_wait:
  assumes "q s' = t # q s" "shm_mut s = Some t" "shm_mut s' = None" "shm_state s' = shm_state s"
    "hpc s' = (hpc s)(t := p)" "w p = w (hpc s t)" "\<not> pred t (shm_state s)"
  shows "within pred (gate_view q w s) (gate_view q w s')"
proof -
  have "gate_view q w s' = (gate_view q w s)\<lparr>cs_holder := None, cs_queue := t # cs_queue (gate_view q w s)\<rparr>"
    using assms by (auto simp: gate_view_def woken_upd)
  moreover have "cv_spec_step pred (gate_view q w s) \<dots>"
    by (rule spec_wait) (use assms in \<open>simp_all add: gate_view_def\<close>)
  ultimately show ?thesis by (simp add: within_def)
qed

lemma gate_notify_all:
  assumes "q s' = []" "shm_mut s = Some t" "shm_mut s' = shm_mut s" "shm_state s' = shm_state s"
    "\<And>x. w (hpc s' x) \<longleftrightarrow> w (hpc s x) \<or> x \<in> set (q s)"
  shows "within pred (gate_view q w s) (gate_view q w s')"
proof -
  have "gate_view q w s' = (gate_view q w s)\<lparr>cs_queue := [],
      cs_woken := cs_woken (gate_view q w s) \<union> set (cs_queue (gate_view q w s))\<rparr>"
    using assms by (auto simp: gate_view_def)
  moreover have "cv_spec_step pred (gate_view q w s) \<dots>"
    by (rule spec_notify_all [of _ t]) (use assms in \<open>simp add: gate_view_def\<close>)
  ultimately show ?thesis by (simp add: within_def)
qed

lemma gate_notify_one:
  assumes "q s = x # q s'" "shm_mut s = Some t" "shm_mut s' = shm_mut s" "shm_state s' = shm_state s"
    "\<And>y. w (hpc s' y) \<longleftrightarrow> w (hpc s y) \<or> y = x"
  shows "within pred (gate_view q w s) (gate_view q w s')"
proof -
  have "gate_view q w s' = (gate_view q w s)\<lparr>cs_queue := q s', cs_woken := insert x (cs_woken (gate_view q w s))\<rparr>"
    using assms by (auto simp: gate_view_def)
  moreover have "cv_spec_step pred (gate_view q w s) \<dots>"
    by (rule spec_notify_one [of _ t]) (use assms in \<open>simp_all add: gate_view_def\<close>)
  ultimately show ?thesis by (simp add: within_def)
qed

text \<open>Nobody waits on \<open>gate1_\<close> while a reader could enter, nor on \<open>gate2_\<close> while there are no readers.\<close>

definition gate1_pred :: "nat \<Rightarrow> 32 word \<Rightarrow> bool" where
  "gate1_pred t w \<longleftrightarrow> w < max_readers"

definition gate2_pred :: "nat \<Rightarrow> 32 word \<Rightarrow> bool" where
  "gate2_pred t w \<longleftrightarrow> readers w = 0"

abbreviation gates_within :: "shm \<Rightarrow> shm \<Rightarrow> bool" where
  "gates_within s s' \<equiv> within gate1_pred (gate_view gate1 woken1 s) (gate_view gate1 woken1 s') \<and>
     within gate2_pred (gate_view gate2 woken2 s) (gate_view gate2 woken2 s')"

lemma gates_step:
  assumes ok: "shm_ok n a s t" and gates: "\<And>x. shm_ok n a s x"
    and word: "\<And>x. write_entered (shm_state s) \<Longrightarrow> \<not> gate1_pred x (shm_state s)"
    and step: "shm_step t (hpc s t) s = Next s'"
  shows "gates_within s s'"
proof -
  have q: "on_gate1 (hpc s x) \<longleftrightarrow> x \<in> set (gate1 s)" "hpc s x = H_WWait2 \<longleftrightarrow> x \<in> set (gate2 s)" for x
    using shm_okD(7,8) [OF gates] by auto
  have mut: "in_mut (hpc s t) \<Longrightarrow> shm_mut s = Some t" using shm_okD(4) [OF ok] .
  have lock: "gates_within s s'"
    if "mut_lock t p s = Next s'" "\<not> on_gate1 (hpc s t)" "hpc s t \<noteq> H_WWait2" "\<not> woken1 p" "\<not> woken2 p" for p
    using that q by (intro conjI gate_acquire [where t = t and p = p]) (auto simp: mut_lock_def split: if_splits)
  have unlock: "gates_within s s'"
    if "mut_unlock t p s = Next s'" "in_mut (hpc s t)" "\<not> woken1 (hpc s t)" "\<not> woken2 (hpc s t)"
      "\<not> woken1 p" "\<not> woken2 p" for p
    using that mut by (intro conjI gate_release [where t = t and p = p]) (auto simp: mut_unlock_def)
  have update: "gates_within s s'"
    if "s' = h_goto t p (s\<lparr>shm_state := w\<rparr>)" "in_mut (hpc s t)" "\<not> woken1 (hpc s t)" "\<not> woken2 (hpc s t)"
      "\<not> woken1 p" "\<not> woken2 p" for p w
    using that mut by (intro conjI gate_update [where t = t and p = p]) auto
  have move: "gates_within s s'"
    if "s' = h_goto t p s" "\<not> woken1 (hpc s t)" "\<not> woken2 (hpc s t)" "\<not> woken1 p" "\<not> woken2 p" for p
    using that by (intro conjI gate_same [where t = t and p = p]) auto
  have wait1: "gates_within s s'"
    if "wait_gate1 t p s = Next s'" "in_mut (hpc s t)" "\<not> woken1 (hpc s t)" "\<not> woken2 (hpc s t)"
      "\<not> woken1 p" "\<not> woken2 p" "\<not> gate1_pred t (shm_state s)" for p
    using that mut by (intro conjI gate_wait [where t = t and p = p] gate_release [where t = t and p = p])
      (auto simp: wait_gate1_def)
  have wait2: "gates_within s s'"
    if "wait_gate2 t p s = Next s'" "in_mut (hpc s t)" "\<not> woken1 (hpc s t)" "\<not> woken2 (hpc s t)"
      "\<not> woken1 p" "\<not> woken2 p" "\<not> gate2_pred t (shm_state s)" for p
    using that mut by (intro conjI gate_wait [where t = t and p = p] gate_release [where t = t and p = p])
      (auto simp: wait_gate2_def)
  show ?thesis
  proof (cases "hpc s t")
    case H_UNotify
    with step have s': "s' = h_goto t H_UDone (notify_all1 s)" by simp
    have w: "woken1 (woken (hpc s x))" "\<not> woken2 (woken (hpc s x))" "\<not> woken2 (hpc s x)" if "x \<in> set (gate1 s)" for x
      using q(1) [of x] that by (cases "hpc s x"; simp)+
    have t: "t \<notin> set (gate1 s)" using q(1) [of t] H_UNotify by simp
    have "within gate1_pred (gate_view gate1 woken1 s) (gate_view gate1 woken1 s')"
      by (rule gate_notify_all [where t = t]) (use s' mut H_UNotify w t in \<open>auto simp: notify_all1_def\<close>)
    moreover have "within gate2_pred (gate_view gate2 woken2 s) (gate_view gate2 woken2 s')"
      by (rule gate_frame) (use s' H_UNotify w t in \<open>auto simp: notify_all1_def\<close>)
    ultimately show ?thesis ..
  next
    case (H_SNotify prev)
    note t = q [of t, unfolded H_SNotify]
    consider "s' = h_goto t H_SDone s"
      | x as where "gate1 s = x # as" "s' = h_goto t H_SDone (s\<lparr>gate1 := as, hpc := (hpc s)(x := woken (hpc s x))\<rparr>)"
      | x as where "gate2 s = x # as" "s' = h_goto t H_SDone (s\<lparr>gate2 := as, hpc := (hpc s)(x := woken (hpc s x))\<rparr>)"
      using step H_SNotify
      by (auto simp: unlockShared_notify_def notify_one1_def notify_one2_def Let_def split: if_splits list.splits)
    then show ?thesis
    proof cases
      case 1
      then show ?thesis by (rule move) (simp_all add: H_SNotify)
    next
      case 2
      have x: "on_gate1 (hpc s x)" "x \<noteq> t" using q(1) [of x] t 2(1) by auto
      have "within gate1_pred (gate_view gate1 woken1 s) (gate_view gate1 woken1 s')"
        by (rule gate_notify_one [where t = t and x = x])
          (use 2 x mut H_SNotify in \<open>cases "hpc s x"; auto\<close>)+
      moreover have "within gate2_pred (gate_view gate2 woken2 s) (gate_view gate2 woken2 s')"
        by (rule gate_frame) (use 2 x H_SNotify in \<open>cases "hpc s x"; auto\<close>)+
      ultimately show ?thesis ..
    next
      case 3
      have x: "hpc s x = H_WWait2" "x \<noteq> t" using q(2) [of x] t 3(1) by auto
      have "within gate2_pred (gate_view gate2 woken2 s) (gate_view gate2 woken2 s')"
        by (rule gate_notify_one [where t = t and x = x]) (use 3 x mut H_SNotify in auto)
      moreover have "within gate1_pred (gate_view gate1 woken1 s) (gate_view gate1 woken1 s')"
        by (rule gate_frame) (use 3 x H_SNotify in auto)
      ultimately show ?thesis by blast
    qed
  next
    case H_WLock
    with step show ?thesis by (intro lock [of H_WTest]) simp_all
  next
    case H_WRelock1
    with step show ?thesis by (intro lock [of H_WTest]) simp_all
  next
    case H_WRelock2
    with step show ?thesis by (intro lock [of H_WTest2]) simp_all
  next
    case H_ULock
    with step show ?thesis by (intro lock [of H_UClear]) simp_all
  next
    case H_RLock
    with step show ?thesis by (intro lock [of H_RTest]) simp_all
  next
    case H_RRelock
    with step show ?thesis by (intro lock [of H_RTest]) simp_all
  next
    case H_SLock
    with step show ?thesis by (intro lock [of H_SDec]) simp_all
  next
    case H_WDone
    with step show ?thesis by (intro unlock [of H_Writer]) simp_all
  next
    case H_UDone
    with step show ?thesis by (intro unlock [of H_Idle]) simp_all
  next
    case H_RDone
    with step show ?thesis by (intro unlock [of H_Reader]) simp_all
  next
    case H_SDone
    with step show ?thesis by (intro unlock [of H_Idle]) simp_all
  next
    case (H_TryWDone ok)
    with step show ?thesis by (intro unlock [of "if ok then H_Writer else H_Idle"]) simp_all
  next
    case (H_TryRDone ok)
    with step show ?thesis by (intro unlock [of "if ok then H_Reader else H_Idle"]) simp_all
  next
    case H_WFlag
    with step show ?thesis by (intro update [where p = H_WTest2 and w = "shm_state s OR write_entered_flag"]) simp_all
  next
    case H_UClear
    with step show ?thesis by (intro update [where p = H_UNotify and w = 0]) (simp_all split: if_splits)
  next
    case H_RInc
    with step show ?thesis by (intro update [where p = H_RDone and w = "shm_state s + 1"]) simp_all
  next
    case H_SDec
    with step show ?thesis by (intro update [where p = "H_SNotify (shm_state s)" and w = "shm_state s - 1"]) (simp_all split: if_splits)
  next
    case H_TryW
    show ?thesis
    proof (cases "shm_state s = 0")
      case True
      with H_TryW step show ?thesis by (intro update [where p = "H_TryWDone True" and w = write_entered_flag]) simp_all
    next
      case False
      with H_TryW step show ?thesis by (intro move [of "H_TryWDone False"]) simp_all
    qed
  next
    case H_TryR
    show ?thesis
    proof (cases "shm_state s < max_readers")
      case True
      with H_TryR step show ?thesis by (intro update [where p = "H_TryRDone True" and w = "shm_state s + 1"]) simp_all
    next
      case False
      with H_TryR step show ?thesis by (intro move [of "H_TryRDone False"]) simp_all
    qed
  next
    case H_WTest
    show ?thesis
    proof (cases "write_entered (shm_state s)")
      case True
      with H_WTest step word show ?thesis by (intro wait1 [of H_WWait1]) simp_all
    next
      case False
      with H_WTest step show ?thesis by (intro move [of H_WFlag]) simp_all
    qed
  next
    case H_WTest2
    show ?thesis
    proof (cases "gate2_pred t (shm_state s)")
      case True
      with H_WTest2 step show ?thesis by (intro move [of H_WDone]) (simp_all add: gate2_pred_def)
    next
      case False
      with H_WTest2 step show ?thesis by (intro wait2 [of H_WWait2]) (simp_all add: gate2_pred_def)
    qed
  next
    case H_RTest
    show ?thesis
    proof (cases "gate1_pred t (shm_state s)")
      case True
      with H_RTest step show ?thesis by (intro move [of H_RInc]) (simp_all add: gate1_pred_def flip: not_less)
    next
      case False
      with H_RTest step show ?thesis by (intro wait1 [of H_RWait]) (simp_all add: gate1_pred_def not_less)
    qed
  qed (use step in simp_all)
qed

lemma gates_exec:
  assumes rep: "shm_rep n s a" and n: "n < 2 ^ 31" and exec: "shm_exec n e s = Next s'"
  shows "gates_within s s'"
proof -
  have ok: "shm_ok n a s x" for x using shm_repD(1) [OF rep] .
  have q: "on_gate1 (hpc s x) \<longleftrightarrow> x \<in> set (gate1 s)" "hpc s x = H_WWait2 \<longleftrightarrow> x \<in> set (gate2 s)" for x
    using shm_okD(7,8) [OF ok] by auto
  have r: "card (rw_readers a) < 2 ^ 31" using readers_bound(2) [OF rep] n by simp
  have word: "\<not> gate1_pred x (shm_state s)" if "write_entered (shm_state s)" for x
    using that sh_write_entered [OF r] sh_less_max [OF r] shm_repD(2) [OF rep] by (simp add: gate1_pred_def)
  have call: "gates_within s s'"
    if "s' = h_goto t p s" "hpc s t = H_Idle \<or> hpc s t = H_Writer \<or> hpc s t = H_Reader" "\<not> woken1 p" "\<not> woken2 p"
    for t p using that by (intro conjI gate_same [where t = t and p = p]) auto
  have tryLock: "gates_within s s'"
    if "mut_tryLock t p s = Next s'" "hpc s t = H_Idle" "\<not> woken1 p" "\<not> woken2 p" for t p
  proof (cases "shm_mut s = None")
    case True
    with that q [of t] show ?thesis
      by (intro conjI gate_acquire [where t = t and p = p]) (auto simp: mut_tryLock_def)
  next
    case False
    with that call [of t H_Idle] show ?thesis by (simp add: mut_tryLock_def)
  qed
  show ?thesis
  proof (cases e)
    case (WLock t)
    with exec show ?thesis by (intro call [of t H_WLock]) (auto split: if_splits)
  next
    case (WTryLock t)
    with exec show ?thesis by (intro tryLock [of t H_TryW]) (auto split: if_splits)
  next
    case (WUnlock t)
    with exec show ?thesis by (intro call [of t H_ULock]) (auto split: if_splits)
  next
    case (RLock t)
    with exec show ?thesis by (intro call [of t H_RLock]) (auto split: if_splits)
  next
    case (RTryLock t)
    with exec show ?thesis by (intro tryLock [of t H_TryR]) (auto split: if_splits)
  next
    case (RUnlock t)
    with exec show ?thesis by (intro call [of t H_SLock]) (auto split: if_splits)
  next
    case (HStep t)
    with exec show ?thesis using gates_step [OF ok ok word] by simp
  qed
qed

section \<open>Properties\<close>



text \<open>
  Property C9 (the shared mutex uses its gates as the contract asks). Every step of the shared
  mutex is, for each of its two condition variables, a step of the contract with the lock \<open>mut_\<close> or
  leaves it alone: it waits and notifies only while it holds \<open>mut_\<close>, never waits on \<open>gate1_\<close> while
  a reader could enter, and never on \<open>gate2_\<close> when there are no readers.
\<close>
theorem shm_gates_keep_contract:
  assumes "n < 2 ^ 31" and "reach (shm_exec n) shm_init s" and "shm_exec n e s = Next s'"
  shows "gates_within s s'"
proof -
  from refining_machine.reach_rep [OF shm_machine [OF assms(1)] assms(2)] obtain a where "shm_rep n s a" by blast
  from gates_exec [OF this assms(1,3)] show ?thesis .
qed

text \<open>The last reader leaves while a writer sleeps on \<open>gate2_\<close>.\<close>

definition shm_leaving :: shm where
  "shm_leaving = \<lparr>shm_mut = Some 0, shm_state = write_entered_flag, gate1 = [2], gate2 = [1],
     hpc = (\<lambda>_. H_Idle)(0 := H_SNotify (write_entered_flag + 1), 1 := H_WWait2, 2 := H_RWait)\<rparr>"

lemma shm_leaving_reach: "reach (shm_exec 3) shm_init shm_leaving"
proof (rule run_reach [OF shm_demo_reach])
  show "run (shm_exec 3) [RUnlock 0, HStep 0, HStep 0] shm_demo = Next shm_leaving"
    by (simp add: shm_defs shm_demo_def shm_leaving_def readers_def max_readers_def write_entered_flag_def
        fun_upd_twist)
qed

theorem shm_gates_keep_contract_witness:
  "\<exists>s'. shm_exec 3 (HStep 0) shm_leaving = Next s' \<and> gate2 s' = [] \<and> gates_within shm_leaving s'"
proof -
  let ?s' = "(h_goto 0 H_SDone (h_goto 1 H_WRelock2 shm_leaving))\<lparr>gate2 := []\<rparr>"
  have st: "shm_exec 3 (HStep 0) shm_leaving = Next ?s'"
    by (simp add: shm_defs shm_leaving_def notify_one2_def write_entered_def readers_def max_readers_def
        write_entered_flag_def fun_upd_twist)
  from shm_gates_keep_contract [OF _ shm_leaving_reach st] st show ?thesis by auto
qed

end
