(* ===== verification/LockStack.thy ===== *)
theory LockStack
  imports LockClient CondVarSpec
begin

text \<open>
  A component that uses a lock through its contract, put on top of a lock of the library.

  The theories of the condition variable and of the shared mutex have a field that says who holds
  their lock.  Here that field is no longer asked: an operation that acquires the lock goes on when
  the lock below has been granted, and one that releases it calls the unlock operation below.  The
  theories of the components carry over because the field and the lock always agree.
  \<^verbatim>\<open>SharedMutex\<close> is \<open>SharedMutexBase<SpinLock>\<close> with a count of 128
  (\<^verbatim>\<open>include/sharedmutex.hpp\<close>, at its end).
\<close>

section \<open>The composition\<close>

record ('l, 'c) stack =
  lower :: 'l
  upper :: 'c

datatype ('el, 'ec) stack_event =
    Low 'el        \<comment> \<open>a step of the lock that is not a call of unlock\<close>
  | Use 'ec        \<comment> \<open>a step of the component above\<close>
  | Drop 'el 'ec   \<comment> \<open>a step of the component that calls unlock\<close>

text \<open>
  \<open>acquires e c\<close> is the coroutine that needs the lock for \<open>e\<close>, \<open>releases e c\<close> the one that
  gives it back; \<open>forget\<close> empties the field for the holder.
\<close>

fun stack_exec ::
    "('el \<Rightarrow> 'l \<Rightarrow> 'l outcome) \<Rightarrow> ('l \<Rightarrow> nat \<Rightarrow> bool) \<Rightarrow> ('el \<Rightarrow> nat option) \<Rightarrow>
     ('ec \<Rightarrow> 'c \<Rightarrow> 'c outcome) \<Rightarrow> ('ec \<Rightarrow> 'c \<Rightarrow> nat option) \<Rightarrow> ('ec \<Rightarrow> 'c \<Rightarrow> nat option) \<Rightarrow> ('c \<Rightarrow> 'c) \<Rightarrow>
     ('el, 'ec) stack_event \<Rightarrow> ('l, 'c) stack \<Rightarrow> ('l, 'c) stack outcome" where
  "stack_exec exec holds unlocks cexec acquires releases forget (Low e) s =
     (if unlocks e = None then map_next (\<lambda>l. s\<lparr>lower := l\<rparr>) (exec e (lower s)) else Blocked)"
| "stack_exec exec holds unlocks cexec acquires releases forget (Use e) s =
     (if releases e (upper s) \<noteq> None then Blocked
      else case acquires e (upper s) of
          None \<Rightarrow> map_next (\<lambda>c. s\<lparr>upper := c\<rparr>) (cexec e (upper s))
        | Some t \<Rightarrow> if holds (lower s) t then map_next (\<lambda>c. s\<lparr>upper := c\<rparr>) (cexec e (forget (upper s))) else Blocked)"
| "stack_exec exec holds unlocks cexec acquires releases forget (Drop e' e) s =
     (if releases e (upper s) = None \<or> unlocks e' \<noteq> releases e (upper s) then Blocked
      else bind_outcome (exec e' (lower s)) (\<lambda>l. map_next (\<lambda>c. \<lparr>lower = l, upper = c\<rparr>) (cexec e (upper s))))"

definition stack_init :: "'l \<Rightarrow> 'c \<Rightarrow> ('l, 'c) stack" where
  "stack_init l c = \<lparr>lower = l, upper = c\<rparr>"

section \<open>The contract of a user\<close>

text \<open>What a component must do with its lock: not ask for it twice, and go on once it is free.\<close>

locale lock_user =
  fixes cinit :: 'c
    and cexec :: "'ec \<Rightarrow> 'c \<Rightarrow> 'c outcome"
    and held :: "'c \<Rightarrow> nat option"
    and acquires :: "'ec \<Rightarrow> 'c \<Rightarrow> nat option"
    and releases :: "'ec \<Rightarrow> 'c \<Rightarrow> nat option"
    and forget :: "'c \<Rightarrow> 'c"
  assumes free_init: "held cinit = None"
    and forget_free: "held c = None \<Longrightarrow> forget c = c"
    and not_twice: "reach cexec cinit c \<Longrightarrow> acquires e c = Some t \<Longrightarrow> held c \<noteq> Some t"
    and acquire: "acquires e c = Some t \<Longrightarrow> held c = None \<Longrightarrow> \<exists>c'. cexec e c = Next c' \<and> held c' = Some t"
    and release: "reach cexec cinit c \<Longrightarrow> releases e c = Some t \<Longrightarrow> held c = Some t"
    and release_step: "releases e c = Some t \<Longrightarrow> cexec e c = Next c' \<Longrightarrow> held c' = None"
    and keep: "acquires e c = None \<Longrightarrow> releases e c = None \<Longrightarrow> cexec e c = Next c' \<Longrightarrow> held c' = held c"
    and user_no_fault: "reach cexec cinit c \<Longrightarrow> cexec e c \<noteq> Fault f"

locale locked_user = exclusive_lock init exec holds unlocks +
    lock_user cinit cexec held acquires releases forget
  for init :: 's and exec :: "'e \<Rightarrow> 's \<Rightarrow> 's outcome" and holds unlocks
    and cinit :: 'c and cexec :: "'ec \<Rightarrow> 'c \<Rightarrow> 'c outcome" and held acquires releases forget
begin

abbreviation sexec :: "('e, 'ec) stack_event \<Rightarrow> ('s, 'c) stack \<Rightarrow> ('s, 'c) stack outcome" where
  "sexec \<equiv> stack_exec exec holds unlocks cexec acquires releases forget"

definition sinv :: "('s, 'c) stack \<Rightarrow> bool" where
  "sinv s \<longleftrightarrow> reach exec init (lower s) \<and> reach cexec cinit (upper s) \<and>
     (\<forall>t. held (upper s) = Some t \<longrightarrow> holds (lower s) t)"

lemma sinv_init: "sinv (stack_init init cinit)"
  by (simp add: sinv_def stack_init_def reach_init free_init)

text \<open>Whom the lock below is granted finds the field above empty.\<close>

lemma granted_free:
  assumes "sinv s" "holds (lower s) t" "acquires e (upper s) = Some t"
  shows "held (upper s) = None"
proof (rule ccontr)
  assume "held (upper s) \<noteq> None"
  then obtain u where u: "held (upper s) = Some u" by auto
  with assms(1) have "holds (lower s) u" by (simp add: sinv_def)
  with assms(1,2) exclusive [of "lower s" u t] have "u = t" by (simp add: sinv_def)
  with not_twice [of "upper s" e t] assms(1,3) u show False by (simp add: sinv_def)
qed

lemma sinv_step:
  assumes inv: "sinv s" and step: "sexec e s = Next s'"
  shows "sinv s'"
proof (cases e)
  case (Low e1)
  with step obtain l where l: "exec e1 (lower s) = Next l" "s' = s\<lparr>lower := l\<rparr>" "unlocks e1 = None"
    by (auto split: if_splits)
  with inv keeps [OF l(1)] show ?thesis by (auto simp: sinv_def intro: reach_step)
next
  case (Use e2)
  show ?thesis
  proof (cases "acquires e2 (upper s)")
    case None
    with Use step obtain c where c: "cexec e2 (upper s) = Next c" "s' = s\<lparr>upper := c\<rparr>" "releases e2 (upper s) = None"
      by (auto split: if_splits)
    from keep [OF None c(3,1)] c inv show ?thesis by (auto simp: sinv_def intro: reach_step)
  next
    case (Some t)
    with Use step have h: "holds (lower s) t" by (auto split: if_splits)
    have f: "held (upper s) = None" by (rule granted_free [OF inv h Some])
    with Use step Some obtain c where c: "cexec e2 (upper s) = Next c" "s' = s\<lparr>upper := c\<rparr>"
      by (auto simp: forget_free split: if_splits)
    with acquire [OF Some f] have "held c = Some t" by auto
    with c h inv show ?thesis by (auto simp: sinv_def intro: reach_step)
  qed
next
  case (Drop e1 e2)
  with step obtain t l c where c: "releases e2 (upper s) = Some t" "unlocks e1 = Some t" "exec e1 (lower s) = Next l"
    "cexec e2 (upper s) = Next c" "s' = \<lparr>lower = l, upper = c\<rparr>"
    by (auto split: if_splits)
  with release_step [OF c(1,4)] inv show ?thesis by (auto simp: sinv_def intro: reach_step)
qed

lemma stack_invariant: "invariant_machine (stack_init init cinit) sexec sinv"
  by unfold_locales (auto intro: sinv_init sinv_step)

lemma stack_reach:
  assumes "reach sexec (stack_init init cinit) s"
  shows "reach cexec cinit (upper s)" "reach exec init (lower s)" "held (upper s) = Some t \<Longrightarrow> holds (lower s) t"
  using invariant_machine.reach_inv [OF stack_invariant assms] by (simp_all add: sinv_def)

text \<open>The lock below never grants what the component above would refuse.\<close>

lemma stack_granted:
  assumes "reach sexec (stack_init init cinit) s" "holds (lower s) t" "acquires e (upper s) = Some t"
    "releases e (upper s) = None"
  shows "\<exists>c. sexec (Use e) s = Next (s\<lparr>upper := c\<rparr>) \<and> cexec e (upper s) = Next c \<and> held c = Some t"
proof -
  have f: "held (upper s) = None"
    by (rule granted_free [OF invariant_machine.reach_inv [OF stack_invariant assms(1)] assms(2,3)])
  with acquire [OF assms(3)] obtain c where "cexec e (upper s) = Next c" "held c = Some t" by blast
  with f assms(2-4) show ?thesis by (simp add: forget_free)
qed

lemma stack_no_fault:
  assumes "reach sexec (stack_init init cinit) s"
  shows "sexec e s \<noteq> Fault f"
proof -
  note r = stack_reach(1,2) [OF assms]
  have inv: "sinv s" by (rule invariant_machine.reach_inv [OF stack_invariant assms])
  show ?thesis
  proof (cases e)
    case (Low e1)
    with exclusive_no_fault [OF r(2)] show ?thesis by simp
  next
    case (Use e2)
    show ?thesis
    proof (cases "acquires e2 (upper s)")
      case None
      with Use user_no_fault [OF r(1)] show ?thesis by simp
    next
      case (Some t)
      with Use user_no_fault [OF r(1)] granted_free [OF inv _ Some] show ?thesis by (simp add: forget_free)
    qed
  next
    case (Drop e1 e2)
    with exclusive_no_fault [OF r(2), of e1] user_no_fault [OF r(1)] show ?thesis
      by (cases "exec e1 (lower s)") auto
  qed
qed

end

section \<open>The shared mutex as a user\<close>

text \<open>Where a coroutine takes \<open>mut_\<close>, and where it gives it back: at the end of an operation or to wait.\<close>

fun locks_mut :: "shm_pc \<Rightarrow> bool" where
  "locks_mut H_WLock = True" | "locks_mut H_WRelock1 = True" | "locks_mut H_WRelock2 = True"
| "locks_mut H_ULock = True" | "locks_mut H_RLock = True" | "locks_mut H_RRelock = True"
| "locks_mut H_SLock = True" | "locks_mut _ = False"

fun unlocks_mut :: "32 word \<Rightarrow> shm_pc \<Rightarrow> bool" where
  "unlocks_mut w H_WDone = True" | "unlocks_mut w H_UDone = True" | "unlocks_mut w H_RDone = True"
| "unlocks_mut w H_SDone = True" | "unlocks_mut w (H_TryWDone ok) = True" | "unlocks_mut w (H_TryRDone ok) = True"
| "unlocks_mut w H_WTest = write_entered w" | "unlocks_mut w H_WTest2 = (readers w \<noteq> 0)"
| "unlocks_mut w H_RTest = (w \<ge> max_readers)" | "unlocks_mut w _ = False"

fun shm_acquires :: "nat \<Rightarrow> shm_event \<Rightarrow> shm \<Rightarrow> nat option" where
  "shm_acquires n (WTryLock t) s = (if t < n \<and> hpc s t = H_Idle then Some t else None)"
| "shm_acquires n (RTryLock t) s = (if t < n \<and> hpc s t = H_Idle then Some t else None)"
| "shm_acquires n (HStep t) s = (if locks_mut (hpc s t) then Some t else None)"
| "shm_acquires n (WLock t) s = None"
| "shm_acquires n (WUnlock t) s = None"
| "shm_acquires n (RLock t) s = None"
| "shm_acquires n (RUnlock t) s = None"

fun shm_releases :: "shm_event \<Rightarrow> shm \<Rightarrow> nat option" where
  "shm_releases (HStep t) s = (if unlocks_mut (shm_state s) (hpc s t) then Some t else None)"
| "shm_releases (WTryLock t) s = None"
| "shm_releases (RTryLock t) s = None"
| "shm_releases (WLock t) s = None"
| "shm_releases (WUnlock t) s = None"
| "shm_releases (RLock t) s = None"
| "shm_releases (RUnlock t) s = None"

definition shm_forget :: "shm \<Rightarrow> shm" where
  "shm_forget s = s\<lparr>shm_mut := None\<rparr>"

text \<open>Who holds \<open>mut_\<close> is inside an operation that will give it back.\<close>

lemma woken_in_mut: "\<not> in_mut p \<Longrightarrow> \<not> in_mut (woken p)"
  by (cases p) auto

lemma unlocks_in_mut: "unlocks_mut w p \<Longrightarrow> in_mut p"
  by (cases p) auto

lemma locks_not_in_mut: "locks_mut p \<Longrightarrow> \<not> in_mut p"
  by (cases p) auto

definition mut_inside :: "shm \<Rightarrow> bool" where
  "mut_inside s \<longleftrightarrow> (\<forall>t. shm_mut s = Some t \<longrightarrow> in_mut (hpc s t))"

lemma mut_inside_goto:
  "mut_inside s \<Longrightarrow> in_mut p \<Longrightarrow> mut_inside (h_goto t p s)"
  "mut_inside s \<Longrightarrow> in_mut p \<Longrightarrow> mut_inside (s\<lparr>shm_state := w, hpc := (hpc s)(t := p)\<rparr>)"
  by (simp_all add: mut_inside_def)

lemma mut_inside_lock: "mut_lock t p s = Next s' \<Longrightarrow> in_mut p \<Longrightarrow> mut_inside s'"
  by (auto simp: mut_lock_def mut_inside_def split: if_splits)

lemma mut_inside_free: "shm_mut s' = None \<Longrightarrow> mut_inside s'"
  by (simp add: mut_inside_def)

lemma notify_in_mut:
  assumes "\<And>x. x \<in> set (gate1 s) \<or> x \<in> set (gate2 s) \<Longrightarrow> shm_mut s \<noteq> Some x" "mut_inside s"
  shows "mut_inside (notify_all1 s)" "mut_inside (notify_one1 s)" "mut_inside (notify_one2 s)"
  using assms by (auto simp: mut_inside_def notify_all1_def notify_one1_def notify_one2_def split: list.splits)

lemma mut_inside_call: "mut_inside s \<Longrightarrow> \<not> in_mut (hpc s t) \<Longrightarrow> mut_inside (h_goto t p s)"
  by (auto simp: mut_inside_def)

lemma mut_inside_tryLock: "mut_inside s \<Longrightarrow> mut_tryLock t p s = Next s' \<Longrightarrow> in_mut p \<Longrightarrow> hpc s t = H_Idle \<Longrightarrow> mut_inside s'"
  by (auto simp: mut_tryLock_def mut_inside_def split: if_splits)

lemma mut_inside_step:
  assumes rep: "shm_rep n s a" and inv: "mut_inside s" and step: "shm_exec n e s = Next s'"
  shows "mut_inside s'"
proof (cases e)
  case (HStep t)
  with step have st: "shm_step t (hpc s t) s = Next s'" by simp
  have gate: "shm_mut s \<noteq> Some x" if "x \<in> set (gate1 s) \<or> x \<in> set (gate2 s)" for x
  proof -
    have "on_gate1 (hpc s x) \<or> hpc s x = H_WWait2" using that shm_okD(7,8) [OF shm_repD(1) [OF rep]] by blast
    then have "\<not> in_mut (hpc s x)" by (cases "hpc s x") auto
    with inv show ?thesis by (auto simp: mut_inside_def)
  qed
  note notify = notify_in_mut [OF gate inv]
  show ?thesis
  proof (cases "hpc s t")
    case H_UNotify
    with st notify(1) show ?thesis by (auto intro: mut_inside_goto)
  next
    case (H_SNotify prev)
    with st obtain s1 where "s' = h_goto t H_SDone s1" "mut_inside s1"
      using notify inv by (auto simp: unlockShared_notify_def Let_def split: if_splits)
    then show ?thesis by (auto intro: mut_inside_goto)
  qed (use st inv in \<open>auto simp: mut_unlock_def wait_gate1_def wait_gate2_def mut_inside_free
      split: if_splits intro: mut_inside_goto mut_inside_lock\<close>)
next
  case (WTryLock t)
  with step inv show ?thesis by (auto split: if_splits intro: mut_inside_tryLock)
next
  case (RTryLock t)
  with step inv show ?thesis by (auto split: if_splits intro: mut_inside_tryLock)
qed (use step inv in \<open>auto split: if_splits intro: mut_inside_call\<close>)

lemma shm_mut_inside:
  assumes "n < 2 ^ 31" "reach (shm_exec n) shm_init s"
  shows "\<exists>a. shm_rep n s a" "mut_inside s"
proof -
  note m = refining_machine.reach_rep [OF shm_machine [OF assms(1)]]
  from m [OF assms(2)] show "\<exists>a. shm_rep n s a" by blast
  from assms(2) show "mut_inside s"
  proof induction
    case reach_init
    show ?case by (simp add: mut_inside_def shm_init_def)
  next
    case (reach_step s e s')
    from m [OF reach_step.hyps(1)] mut_inside_step [OF _ reach_step.IH reach_step.hyps(2)] show ?case by blast
  qed
qed

lemma shm_user:
  assumes "n < 2 ^ 31"
  shows "lock_user shm_init (shm_exec n) shm_mut (shm_acquires n) shm_releases shm_forget"
proof
  fix e s t assume r: "reach (shm_exec n) shm_init s"
  note inside = shm_mut_inside [OF assms r]
  show "shm_acquires n e s = Some t \<Longrightarrow> shm_mut s \<noteq> Some t"
    using inside(2) locks_not_in_mut by (cases e) (auto simp: mut_inside_def split: if_splits)
  from inside(1) obtain a where rep: "shm_rep n s a" by blast
  from shm_okD(4) [OF shm_repD(1) [OF rep, of t]] unlocks_in_mut
  show "shm_releases e s = Some t \<Longrightarrow> shm_mut s = Some t" by (cases e) (auto split: if_splits)
  show "shm_exec n e s \<noteq> Fault f" for f
    by (rule refining_machine.rep_no_fault [OF shm_machine [OF assms] rep])
next
  fix e s t assume "shm_acquires n e s = Some t" "shm_mut s = None"
  then show "\<exists>s'. shm_exec n e s = Next s' \<and> shm_mut s' = Some t"
    by (cases e; cases "hpc s t") (auto simp: mut_lock_def mut_tryLock_def split: if_splits)
next
  fix e s t s' assume "shm_releases e s = Some t" "shm_exec n e s = Next s'"
  then show "shm_mut s' = None"
    by (cases e; cases "hpc s t") (auto simp: shm_defs split: if_splits)
next
  fix e s s' assume "shm_acquires n e s = None" "shm_releases e s = None" "shm_exec n e s = Next s'"
  then show "shm_mut s' = shm_mut s"
  proof (cases e)
    case (HStep t)
    with \<open>shm_acquires n e s = None\<close> \<open>shm_releases e s = None\<close> \<open>shm_exec n e s = Next s'\<close> show ?thesis
      by (cases "hpc s t") (auto simp: shm_defs notify_all1_def notify_one1_def notify_one2_def split: if_splits list.splits)
  qed (auto simp: mut_tryLock_def split: if_splits)
qed (simp_all add: shm_init_def shm_forget_def)

section \<open>The condition variable as a user\<close>

fun cv_acquires :: "'d cv_event \<Rightarrow> 'd cv_sys \<Rightarrow> nat option" where
  "cv_acquires (Acquire t) s = (if cpc s t = C_Idle \<and> holder s \<noteq> Some t then Some t else None)"
| "cv_acquires (CvStep t b) s = (if cpc s t = C_Relock then Some t else None)"
| "cv_acquires (Release t) s = None"
| "cv_acquires (Update t d) s = None"
| "cv_acquires (Wait t) s = None"
| "cv_acquires (NotifyAll t) s = None"
| "cv_acquires (NotifyOne t) s = None"
| "cv_acquires (CvUnlock t) s = None"

fun cv_releases :: "'d cv_event \<Rightarrow> 'd cv_sys \<Rightarrow> nat option" where
  "cv_releases (Release t) s = (if cpc s t = C_Idle \<and> holder s = Some t then Some t else None)"
| "cv_releases (CvUnlock t) s = (if t \<in> unlocking s then Some t else None)"
| "cv_releases (Acquire t) s = None"
| "cv_releases (CvStep t b) s = None"
| "cv_releases (Update t d) s = None"
| "cv_releases (Wait t) s = None"
| "cv_releases (NotifyAll t) s = None"
| "cv_releases (NotifyOne t) s = None"

definition cv_forget :: "'d cv_sys \<Rightarrow> 'd cv_sys" where
  "cv_forget s = s\<lparr>holder := None\<rparr>"

text \<open>A coroutine that was resumed does not hold the lock it asks for.\<close>

definition relock_free :: "'d cv_sys \<Rightarrow> bool" where
  "relock_free s \<longleftrightarrow> (\<forall>t. cpc s t = C_Relock \<longrightarrow> holder s \<noteq> Some t)"

lemma relock_free_step:
  assumes inv: "cv_inv pred True s" and free: "relock_free s" and step: "cv_step pred t b (cpc s t) s = Next s'"
  shows "relock_free s'"
proof (cases "cpc s t")
  case (C_Resume p)
  show ?thesis
  proof (cases p)
    case None
    with C_Resume step free show ?thesis by (auto simp: cv_defs relock_free_def split: if_splits)
  next
    case (Some a)
    have "holder s = Some t" using cv_lockedD(1) [OF inv, of t] C_Resume by simp
    with Some C_Resume step free show ?thesis by (auto simp: cv_defs relock_free_def split: if_splits)
  qed
next
  case (C_OneRead x)
  with step free show ?thesis by (cases x) (auto simp: cv_defs relock_free_def split: if_splits)
qed (use step free in \<open>auto simp: cv_defs relock_free_def split: if_splits\<close>)

lemma cv_reach_relock_free: "reach (cv_exec pred True allow_one) (cv_init d) s \<Longrightarrow> relock_free s"
proof (induction rule: reach.induct)
  case reach_init
  show ?case by (simp add: relock_free_def cv_init_def)
next
  case (reach_step s e s')
  have inv: "cv_inv pred True s" using cv_locked.reach_inv [OF reach_step.hyps(1)] .
  show ?case
  proof (cases e)
    case (CvStep t b)
    with reach_step.hyps(2) relock_free_step [OF inv reach_step.IH] show ?thesis by simp
  qed (use reach_step.hyps(2) reach_step.IH in \<open>auto simp: relock_free_def cv_unlock_def split: if_splits\<close>)
qed

lemma cv_step_holder: "cv_step pred t b p s = Next s' \<Longrightarrow> p \<noteq> C_Relock \<Longrightarrow> holder s' = holder s"
  by (cases p) (auto simp: cv_defs split: if_splits option.splits)

interpretation cv_user: lock_user "cv_init (d :: 'd)" "cv_exec pred True allow_one" holder cv_acquires cv_releases cv_forget
proof
  fix e :: "'d cv_event" and s t assume r: "reach (cv_exec pred True allow_one) (cv_init d) s"
  have inv: "cv_inv pred True s" using cv_locked.reach_inv [OF r] .
  show "cv_acquires e s = Some t \<Longrightarrow> holder s \<noteq> Some t"
    using cv_reach_relock_free [OF r] by (cases e) (auto simp: relock_free_def split: if_splits)
  show "cv_releases e s = Some t \<Longrightarrow> holder s = Some t"
    using cv_lockedD(2) [OF inv] by (cases e) (auto split: if_splits)
  show "cv_exec pred True allow_one e s \<noteq> Fault f" for f by (rule cv_exec_no_fault [OF inv])
next
  fix e :: "'d cv_event" and s t assume "cv_acquires e s = Some t" "holder s = None"
  then show "\<exists>s'. cv_exec pred True allow_one e s = Next s' \<and> holder s' = Some t"
    by (cases e) (auto simp: cv_relock_def split: if_splits)
next
  fix e :: "'d cv_event" and s t s' assume "cv_releases e s = Some t" "cv_exec pred True allow_one e s = Next s'"
  then show "holder s' = None" by (cases e) (auto simp: cv_unlock_def split: if_splits)
next
  fix e :: "'d cv_event" and s s' assume "cv_acquires e s = None" "cv_releases e s = None" "cv_exec pred True allow_one e s = Next s'"
  then show "holder s' = holder s" by (cases e) (auto simp: cv_unlock_def dest: cv_step_holder split: if_splits)
qed (simp_all add: cv_init_def cv_forget_def)

section \<open>The library's combinations\<close>

text \<open>\<open>SharedMutex\<close> over \<open>SpinLock\<close> with its count, and the condition variable over \<open>SpinLock\<close>.\<close>

interpretation spin128: exclusive_lock spin_init "spin_exec 128" spin_holds spin_unlocks
  by (rule spin_exclusive) (simp_all add: INT_MIN_def INT_MAX_def)

interpretation shm_spin: locked_user spin_init "spin_exec 128" spin_holds spin_unlocks
  shm_init "shm_exec 2147483647" shm_mut "shm_acquires 2147483647" shm_releases shm_forget
  by (intro locked_user.intro spin128.exclusive_lock_axioms shm_user) simp

interpretation cv_spin: locked_user spin_init "spin_exec 1024" spin_holds spin_unlocks
  "cv_init d" "cv_exec pred True allow_one" holder cv_acquires cv_releases cv_forget
  by (intro locked_user.intro spin_lock.exclusive_lock_axioms cv_user.lock_user_axioms)

abbreviation shared_mutex_exec ::
    "(spin_event, shm_event) stack_event \<Rightarrow> (spin_sys, shm) stack \<Rightarrow> (spin_sys, shm) stack outcome" where
  "shared_mutex_exec \<equiv> stack_exec (spin_exec 128) spin_holds spin_unlocks (shm_exec 2147483647)
     (shm_acquires 2147483647) shm_releases shm_forget"

abbreviation cv_spin_exec ::
    "(nat \<Rightarrow> 'd \<Rightarrow> bool) \<Rightarrow> bool \<Rightarrow> (spin_event, 'd cv_event) stack_event \<Rightarrow> (spin_sys, 'd cv_sys) stack \<Rightarrow>
      (spin_sys, 'd cv_sys) stack outcome" where
  "cv_spin_exec pred allow_one \<equiv> stack_exec (spin_exec 1024) spin_holds spin_unlocks (cv_exec pred True allow_one)
     cv_acquires cv_releases cv_forget"

section \<open>Properties\<close>

text \<open>
  Property C7 (the shared mutex over its spin lock). \<open>SharedMutex\<close>, with every step of the spin lock
  it really uses, never faults; it refines the abstract reader-writer lock; whoever is inside one of
  its operations holds the spin lock; and a coroutine that the spin lock is granted always goes on.
\<close>
theorem shared_mutex_over_spinlock:
  assumes "reach shared_mutex_exec (stack_init spin_init shm_init) s"
  shows "(\<exists>a. reach_spec rw_step rw_init a \<and> shm_rep 2147483647 (upper s) a) \<and>
    (\<forall>t. in_mut (hpc (upper s) t) \<longrightarrow> spin_holds (lower s) t) \<and> (\<forall>e f. shared_mutex_exec e s \<noteq> Fault f) \<and>
    (\<forall>t. spin_holds (lower s) t \<and> locks_mut (hpc (upper s) t) \<longrightarrow>
      (\<exists>s'. shared_mutex_exec (Use (HStep t)) s = Next s' \<and> in_mut (hpc (upper s') t)))"
proof (intro conjI allI impI)
  note r = shm_spin.stack_reach [OF assms]
  from shm.reach_rep [OF r(1)] show rep: "\<exists>a. reach_spec rw_step rw_init a \<and> shm_rep 2147483647 (upper s) a" .
  then obtain a where a: "shm_rep 2147483647 (upper s) a" by blast
  show "spin_holds (lower s) t" if "in_mut (hpc (upper s) t)" for t
    using r(3) shm_okD(4) [OF shm_repD(1) [OF a] that] .
  show "shared_mutex_exec e s \<noteq> Fault f" for e f by (rule shm_spin.stack_no_fault [OF assms])
  fix t assume t: "spin_holds (lower s) t \<and> locks_mut (hpc (upper s) t)"
  have "shm_releases (HStep t) (upper s) = None" using t by (cases "hpc (upper s) t") auto
  with shm_spin.stack_granted [OF assms, of t "HStep t"] t obtain c where
    c: "shared_mutex_exec (Use (HStep t)) s = Next (s\<lparr>upper := c\<rparr>)"
      "shm_exec 2147483647 (HStep t) (upper s) = Next c" by auto
  from t c(2) have "in_mut (hpc c t)"
    by (cases "hpc (upper s) t") (auto simp: mut_lock_def split: if_splits)
  with c(1) show "\<exists>s'. shared_mutex_exec (Use (HStep t)) s = Next s' \<and> in_mut (hpc (upper s') t)" by auto
qed

text \<open>Coroutine 0 has called \<open>coLock\<close> and been granted the spin lock.\<close>

definition shm_granted :: "(spin_sys, shm) stack" where
  "shm_granted = \<lparr>lower = \<lparr>locked = True, spin_pc = (\<lambda>_. S_Idle)(0 := S_Owner)\<rparr>,
     upper = shm_init\<lparr>hpc := (\<lambda>_. H_Idle)(0 := H_WLock)\<rparr>\<rparr>"

lemma shm_granted_reach: "reach shared_mutex_exec (stack_init spin_init shm_init) shm_granted"
proof (rule run_reach [OF reach_init])
  show "run shared_mutex_exec [Use (WLock 0), Low (SpinCoLock 0), Low (SpinStep 0)] (stack_init spin_init shm_init) =
      Next shm_granted"
    by (simp add: stack_init_def shm_granted_def spin_init_def shm_init_def spin_defs)
qed

theorem shared_mutex_over_spinlock_witness:
  "\<exists>s'. shared_mutex_exec (Use (HStep 0)) shm_granted = Next s' \<and> in_mut (hpc (upper s') 0)"
proof -
  have "spin_holds (lower shm_granted) 0 \<and> locks_mut (hpc (upper shm_granted) 0)"
    by (simp add: shm_granted_def spin_holds_def)
  with shared_mutex_over_spinlock [OF shm_granted_reach] show ?thesis by blast
qed

text \<open>
  Property C10 (the condition variable over a spin lock). Used with \<open>SpinLock\<close> and notified under it,
  the condition variable never faults and keeps its contract; whoever holds its lock holds the spin
  lock, no coroutine that is still queueing or testing its predicate can lose it, and a resumed
  coroutine that the spin lock is granted goes back to its test.
\<close>
theorem condvar_over_spinlock:
  assumes "reach (cv_spin_exec pred allow_one) (stack_init spin_init (cv_init d)) s"
  shows "(\<exists>a. reach_spec (cv_spec_step pred) (cv_spec_init d) a \<and> cv_rep pred (upper s) a) \<and>
    (\<forall>t. wait_pc (cpc (upper s) t) \<or> t \<in> unlocking (upper s) \<longrightarrow> spin_holds (lower s) t) \<and>
    (\<forall>e f. cv_spin_exec pred allow_one e s \<noteq> Fault f) \<and>
    (\<forall>t b. spin_holds (lower s) t \<and> cpc (upper s) t = C_Relock \<longrightarrow>
      (\<exists>s'. cv_spin_exec pred allow_one (Use (CvStep t b)) s = Next s' \<and> cpc (upper s') t = C_Test))"
proof (intro conjI allI impI)
  note r = cv_spin.stack_reach [OF assms]
  have inv: "cv_inv pred True (upper s)" using cv_locked.reach_inv [OF r(1)] .
  from cv_contract.reach_rep [OF r(1)]
  show "\<exists>a. reach_spec (cv_spec_step pred) (cv_spec_init d) a \<and> cv_rep pred (upper s) a" .
  show "spin_holds (lower s) t" if "wait_pc (cpc (upper s) t) \<or> t \<in> unlocking (upper s)" for t
    using r(3) cv_lockedD(1,2) [OF inv, of t] that by blast
  show "cv_spin_exec pred allow_one e s \<noteq> Fault f" for e f by (rule cv_spin.stack_no_fault [OF assms])
  fix t b assume t: "spin_holds (lower s) t \<and> cpc (upper s) t = C_Relock"
  with cv_spin.stack_granted [OF assms, of t "CvStep t b"] obtain c where
    c: "cv_spin_exec pred allow_one (Use (CvStep t b)) s = Next (s\<lparr>upper := c\<rparr>)"
      "cv_exec pred True allow_one (CvStep t b) (upper s) = Next c" by auto
  from t c(2) have "cpc c t = C_Test" by (auto simp: cv_relock_def split: if_splits)
  with c(1) show "\<exists>s'. cv_spin_exec pred allow_one (Use (CvStep t b)) s = Next s' \<and> cpc (upper s') t = C_Test" by auto
qed

text \<open>Coroutine 0 holds the spin lock and tests its predicate.\<close>

definition cv_testing :: "(spin_sys, nat cv_sys) stack" where
  "cv_testing = \<lparr>lower = \<lparr>locked = True, spin_pc = (\<lambda>_. S_Idle)(0 := S_Owner)\<rparr>,
     upper = (cv_init 0)\<lparr>holder := Some 0, cpc := (\<lambda>_. C_Idle)(0 := C_Test)\<rparr>\<rparr>"

lemma cv_testing_reach:
  "reach (cv_spin_exec (\<lambda>_ d. 0 < d) True) (stack_init spin_init (cv_init 0)) cv_testing"
proof (rule run_reach [OF reach_init])
  show "run (cv_spin_exec (\<lambda>_ d. 0 < d) True) [Low (SpinTryLock 0), Use (Acquire 0), Use (Wait 0)]
      (stack_init spin_init (cv_init 0)) = Next cv_testing"
    by (simp add: stack_init_def cv_testing_def spin_init_def cv_init_def spin_defs spin_holds_def cv_forget_def)
qed

theorem condvar_over_spinlock_witness: "spin_holds (lower cv_testing) 0"
proof -
  have "wait_pc (cpc (upper cv_testing) 0)" by (simp add: cv_testing_def)
  with condvar_over_spinlock [OF cv_testing_reach] show ?thesis by blast
qed

end
