(* ===== verification/Rcu.thy ===== *)
theory Rcu
  imports Prelude
begin

text \<open>
  The read-copy-update mechanism of \<^verbatim>\<open>src/rcu.cpp\<close> and \<^verbatim>\<open>include/rcu.hpp\<close>:
  the per-core version words, the global sequencer, \<open>rcu_read_lock\<close>, \<open>rcu_offline\<close> and
  \<open>synchronize_rcu\<close>, one memory access per step.

  Stores do not take effect at once: every core has a FIFO store buffer (total store order), a
  core reads its own newest buffered store first, a read-modify-write and
  \<open>atomic_thread_fence(seq_cst)\<close> wait until the buffer of the core is empty.  So the fence of
  \<open>rcu_read_lock\<close> has an effect in the model and the proofs depend on it.  \<open>unsigned long\<close>
  is a 64-bit word, and \<open>g_syncs\<close> counts the increments of the sequencer without wrapping.
\<close>

section \<open>Memory\<close>

datatype store =
    StVersion "64 word"   \<comment> \<open>to \<open>versions[core]\<close> of the storing core\<close>
  | StPtr nat             \<comment> \<open>to the RCU-protected pointer\<close>
  | StField nat int       \<comment> \<open>to the field \<open>a\<close> of an object\<close>

fun is_version :: "store \<Rightarrow> bool" where
  "is_version (StVersion _) = True"
| "is_version (StPtr _) = False"
| "is_version (StField _ _) = False"

record rcu_mem =
  versions :: "nat \<Rightarrow> 64 word"
  sequencer :: "64 word"
  gp :: nat
  field_a :: "nat \<Rightarrow> int"
  buf :: "nat \<Rightarrow> store list"      \<comment> \<open>oldest store first\<close>
  rcu_count :: "nat \<Rightarrow> int"       \<comment> \<open>\<open>thread_local\<close>, one per core\<close>
  g_syncs :: nat

definition DONE :: "64 word" where
  "DONE = 9223372036854775807"     \<comment> \<open>\<open>LONG_LONG_MAX\<close>\<close>

definition rcu_init :: "'a rcu_mem_scheme \<Rightarrow> 'a rcu_mem_scheme" where
  "rcu_init s = s\<lparr>versions := (\<lambda>i. if i < 256 then DONE else versions s i)\<rparr>"

fun commit :: "nat \<Rightarrow> store \<Rightarrow> 'a rcu_mem_scheme \<Rightarrow> 'a rcu_mem_scheme" where
  "commit c (StVersion v) s = s\<lparr>versions := (versions s)(c := v)\<rparr>"
| "commit c (StPtr p) s = s\<lparr>gp := p\<rparr>"
| "commit c (StField p x) s = s\<lparr>field_a := (field_a s)(p := x)\<rparr>"

definition put :: "nat \<Rightarrow> store \<Rightarrow> 'a rcu_mem_scheme \<Rightarrow> 'a rcu_mem_scheme" where
  "put c st s = s\<lparr>buf := (buf s)(c := buf s c @ [st])\<rparr>"

definition flush :: "nat \<Rightarrow> 'a rcu_mem_scheme \<Rightarrow> 'a rcu_mem_scheme outcome" where
  "flush c s = (case buf s c of
      [] \<Rightarrow> Blocked
    | st # rest \<Rightarrow> Next (commit c st (s\<lparr>buf := (buf s)(c := rest)\<rparr>)))"

text \<open>What a core reads: its newest buffered store to the location, else memory.\<close>

fun view_version :: "store list \<Rightarrow> 64 word \<Rightarrow> 64 word" where
  "view_version [] v = v"
| "view_version (StVersion w # b) v = view_version b w"
| "view_version (StPtr _ # b) v = view_version b v"
| "view_version (StField _ _ # b) v = view_version b v"

fun view_ptr :: "store list \<Rightarrow> nat \<Rightarrow> nat" where
  "view_ptr [] v = v"
| "view_ptr (StVersion _ # b) v = view_ptr b v"
| "view_ptr (StPtr p # b) v = view_ptr b p"
| "view_ptr (StField _ _ # b) v = view_ptr b v"

fun view_field :: "store list \<Rightarrow> nat \<Rightarrow> int \<Rightarrow> int" where
  "view_field [] p v = v"
| "view_field (StVersion _ # b) p v = view_field b p v"
| "view_field (StPtr _ # b) p v = view_field b p v"
| "view_field (StField q x # b) p v = view_field b p (if q = p then x else v)"

section \<open>Operations\<close>

text \<open>
  \<open>rcu_read_lock\<close>: the counter is bumped; on its 1024th value it is reset and the core
  publishes the version it has seen.
\<close>

datatype reader_pc =
    R_Out                  \<comment> \<open>outside any read-side section\<close>
  | R_Load                 \<comment> \<open>before loading the sequencer\<close>
  | R_Compare "64 word"    \<comment> \<open>before comparing with the own version\<close>
  | R_Store "64 word"      \<comment> \<open>before storing the own version\<close>
  | R_Fence                \<comment> \<open>before the fence\<close>
  | R_In "nat option"      \<comment> \<open>in the section, with the pointer it has dereferenced\<close>

definition read_lock_enter :: "nat \<Rightarrow> 'a rcu_mem_scheme \<Rightarrow> reader_pc \<times> 'a rcu_mem_scheme" where
  "read_lock_enter c s =
     (let k = rcu_count s c + 1
      in if k = 1024 then (R_Load, s\<lparr>rcu_count := (rcu_count s)(c := 0)\<rparr>)
         else (R_In None, s\<lparr>rcu_count := (rcu_count s)(c := k)\<rparr>))"

definition read_lock_load :: "'a rcu_mem_scheme \<Rightarrow> reader_pc" where
  "read_lock_load s = R_Compare (sequencer s)"

definition read_lock_compare :: "nat \<Rightarrow> 64 word \<Rightarrow> 'a rcu_mem_scheme \<Rightarrow> reader_pc" where
  "read_lock_compare c global_version s =
     (if global_version = view_version (buf s c) (versions s c) then R_In None
      else R_Store global_version)"

definition read_lock_store :: "nat \<Rightarrow> 64 word \<Rightarrow> 'a rcu_mem_scheme \<Rightarrow> 'a rcu_mem_scheme" where
  "read_lock_store c global_version s = put c (StVersion global_version) s"

definition read_lock_fence :: "nat \<Rightarrow> 'a rcu_mem_scheme \<Rightarrow> reader_pc option" where
  "read_lock_fence c s = (if buf s c = [] then Some (R_In None) else None)"

definition rcu_read_unlock :: "'a rcu_mem_scheme \<Rightarrow> 'a rcu_mem_scheme" where
  "rcu_read_unlock s = s"

definition rcu_offline :: "nat \<Rightarrow> 'a rcu_mem_scheme \<Rightarrow> 'a rcu_mem_scheme" where
  "rcu_offline c s = put c (StVersion DONE) (s\<lparr>rcu_count := (rcu_count s)(c := 1023)\<rparr>)"

definition rcu_assign_pointer :: "nat \<Rightarrow> nat \<Rightarrow> 'a rcu_mem_scheme \<Rightarrow> 'a rcu_mem_scheme" where
  "rcu_assign_pointer c v s = put c (StPtr v) s"

definition rcu_dereference :: "nat \<Rightarrow> 'a rcu_mem_scheme \<Rightarrow> nat" where
  "rcu_dereference c s = view_ptr (buf s c) (gp s)"

text \<open>
  \<open>synchronize_rcu\<close>: the increment (a read-modify-write, so the buffer must be empty) and one
  turn of the loop over the cores.
\<close>

definition sync_begin :: "nat \<Rightarrow> 'a rcu_mem_scheme \<Rightarrow> (64 word \<times> 'a rcu_mem_scheme) option" where
  "sync_begin c s =
     (if buf s c = [] then
        Some (sequencer s + 1, s\<lparr>sequencer := sequencer s + 1, g_syncs := Suc (g_syncs s)\<rparr>)
      else None)"

datatype scan = ScanDone | ScanNext nat | ScanYield

definition sync_scan :: "nat \<Rightarrow> nat \<Rightarrow> 64 word \<Rightarrow> nat \<Rightarrow> 'a rcu_mem_scheme \<Rightarrow> scan" where
  "sync_scan num_threads current_core writer_version i s =
     (if \<not> i < num_threads then ScanDone
      else if i = current_core then ScanNext (Suc i)
      else if writer_version > versions s i then ScanYield
      else ScanNext (Suc i))"

section \<open>Lemmas on buffers and versions\<close>

lemma view_version_append: "view_version (b @ b') v = view_version b' (view_version b v)"
  by (induction b v rule: view_version.induct) auto

lemma view_ptr_append: "view_ptr (b @ b') v = view_ptr b' (view_ptr b v)"
  by (induction b v rule: view_ptr.induct) auto

lemma view_field_append: "view_field (b @ b') p v = view_field b' p (view_field b p v)"
  by (induction b p v rule: view_field.induct) auto

lemmas view_append = view_version_append view_ptr_append view_field_append

lemma view_version_none: "filter is_version b = [] \<Longrightarrow> view_version b v = v"
  by (induction b v rule: view_version.induct) auto

lemma view_ptr_version: "filter (Not \<circ> is_version) b = [] \<Longrightarrow> view_ptr b v = v"
  by (induction b v rule: view_ptr.induct) auto

lemma view_field_version: "filter (Not \<circ> is_version) b = [] \<Longrightarrow> view_field b p v = v"
  by (induction b p v rule: view_field.induct) auto

lemma view_version_filter: "view_version b v = view_version (filter is_version b) v"
  by (induction b v rule: view_version.induct) auto

lemma view_ptr_filter: "view_ptr b v = view_ptr (filter (Not \<circ> is_version) b) v"
  by (induction b v rule: view_ptr.induct) auto

lemma view_field_filter: "view_field b p v = view_field (filter (Not \<circ> is_version) b) p v"
  by (induction b p v rule: view_field.induct) auto

lemma unat_DONE: "unat DONE = 2 ^ 63 - 1"
  by (simp add: DONE_def)

lemma unat_syncs: "n \<le> 2 ^ 63 - 1 \<Longrightarrow> unat (word_of_nat n :: 64 word) = n"
  by (simp add: unat_of_nat take_bit_nat_eq_self)

end
