(* ===== verification/RcuClient.thy ===== *)
theory RcuClient
  imports Rcu
begin

text \<open>
  The RCU workload of \<^verbatim>\<open>benchmarks/colocking.cpp\<close>: any number of readers
  (\<open>rcureader\<close>) on the cores and writers (\<open>rcuwriter\<close>) that take turns under
  \<open>rcu_mutex\<close>.  Two objects are used alternately; a writer publishes one, waits for the
  readers with \<open>synchronize_rcu\<close>, and then clears the field of the other, so a reader that
  still holds the retired object fails its assertion.

  A core runs one coroutine at a time, so the writer moves only while no read-side section is
  open on its core; a section is closed before its coroutine suspends.  \<open>rcu_mutex\<close> is used
  through its contract: one writer at a time, and its compare-exchanges drain the store buffer.
  The flag \<open>nested\<close> of the step function lifts the rule that no coroutine goes offline on a
  core with an open section.
\<close>

section \<open>State and steps\<close>

datatype writer_pc =
    W_Idle                              \<comment> \<open>\<open>rcu_mutex\<close> is free\<close>
  | W_Cur nat                           \<comment> \<open>locked, on this core: before \<open>cur = !cur\<close>\<close>
  | W_Fill nat                          \<comment> \<open>before \<open>newp->a = 8\<close>\<close>
  | W_Old nat                           \<comment> \<open>before \<open>oldp = rcu_dereference(gp)\<close>\<close>
  | W_Publish nat nat                   \<comment> \<open>before \<open>rcu_assign_pointer(gp, newp)\<close>\<close>
  | W_Add nat nat                       \<comment> \<open>before the increment of \<open>synchronize_rcu\<close>\<close>
  | W_Scan nat nat "64 word" nat        \<comment> \<open>in its loop, with \<open>writer_version\<close> and \<open>i\<close>\<close>
  | W_Yielded nat nat "64 word" nat     \<comment> \<open>suspended in its \<open>co_await yield()\<close>\<close>
  | W_Retire nat nat                    \<comment> \<open>before \<open>oldp->a = 0\<close>\<close>
  | W_Unlock nat                        \<comment> \<open>before \<open>rcu_mutex.unlock()\<close>\<close>

record rcu_sys = rcu_mem +
  rpc :: "nat \<Rightarrow> reader_pc"
  wr :: writer_pc
  cur :: nat

definition rcu_sys_init :: rcu_sys where
  "rcu_sys_init = rcu_init \<lparr>versions = (\<lambda>_. 0), sequencer = 0, gp = 0,
     field_a = (\<lambda>_. 0)(0 := 8, 1 := 0x3fffffff), buf = (\<lambda>_. []), rcu_count = (\<lambda>_. 1023),
     g_syncs = 0, rpc = (\<lambda>_. R_Out), wr = W_Idle, cur = 0\<rparr>"

abbreviation r_goto :: "nat \<Rightarrow> reader_pc \<Rightarrow> rcu_sys \<Rightarrow> rcu_sys" where
  "r_goto c p s \<equiv> s\<lparr>rpc := (rpc s)(c := p)\<rparr>"

definition reader_lock :: "nat \<Rightarrow> rcu_sys \<Rightarrow> rcu_sys outcome" where
  "reader_lock c s =
     (if rpc s c = R_Out then (let (p, s') = read_lock_enter c s in Next (r_goto c p s'))
      else Blocked)"

definition reader_step :: "nat \<Rightarrow> rcu_sys \<Rightarrow> rcu_sys outcome" where
  "reader_step c s = (case rpc s c of
      R_Out \<Rightarrow> Blocked
    | R_Load \<Rightarrow> Next (r_goto c (read_lock_load s) s)
    | R_Compare g \<Rightarrow> Next (r_goto c (read_lock_compare c g s) s)
    | R_Store g \<Rightarrow> Next (r_goto c R_Fence (read_lock_store c g s))
    | R_Fence \<Rightarrow> (case read_lock_fence c s of None \<Rightarrow> Blocked | Some p \<Rightarrow> Next (r_goto c p s))
    | R_In None \<Rightarrow> Next (r_goto c (R_In (Some (rcu_dereference c s))) s)
    | R_In (Some p) \<Rightarrow>
        if view_field (buf s c) p (field_a s p) = 8 then Next s else Fault AssertFailed)"

definition reader_unlock :: "nat \<Rightarrow> rcu_sys \<Rightarrow> rcu_sys outcome" where
  "reader_unlock c s = (case rpc s c of
      R_In _ \<Rightarrow> Next (r_goto c R_Out (rcu_read_unlock s))
    | _ \<Rightarrow> Blocked)"

text \<open>A coroutine on the core suspends or finishes: \<open>rcu_offline\<close>.\<close>

definition core_offline :: "bool \<Rightarrow> nat \<Rightarrow> rcu_sys \<Rightarrow> rcu_sys outcome" where
  "core_offline nested c s =
     (if nested \<or> rpc s c = R_Out then Next (rcu_offline c s) else Blocked)"

text \<open>Another coroutine somewhere calls \<open>synchronize_rcu\<close> or \<open>call_rcu\<close>.\<close>

definition other_sync :: "nat \<Rightarrow> rcu_sys \<Rightarrow> rcu_sys outcome" where
  "other_sync c s = (case sync_begin c s of None \<Rightarrow> Blocked | Some (_, s') \<Rightarrow> Next s')"

definition writer_start :: "nat \<Rightarrow> rcu_sys \<Rightarrow> rcu_sys outcome" where
  "writer_start c s =
     (if wr s = W_Idle \<and> rpc s c = R_Out \<and> buf s c = [] then Next (s\<lparr>wr := W_Cur c\<rparr>) else Blocked)"

fun w_core :: "writer_pc \<Rightarrow> nat option" where
  "w_core W_Idle = None"
| "w_core (W_Cur c) = Some c"
| "w_core (W_Fill c) = Some c"
| "w_core (W_Old c) = Some c"
| "w_core (W_Publish c _) = Some c"
| "w_core (W_Add c _) = Some c"
| "w_core (W_Scan c _ _ _) = Some c"
| "w_core (W_Yielded c _ _ _) = Some c"
| "w_core (W_Retire c _) = Some c"
| "w_core (W_Unlock c) = Some c"

fun writer_move :: "nat \<Rightarrow> writer_pc \<Rightarrow> rcu_sys \<Rightarrow> rcu_sys outcome" where
  "writer_move n W_Idle s = Blocked"
| "writer_move n (W_Cur c) s =
     Next (s\<lparr>cur := (if cur s = 0 then 1 else 0), wr := W_Fill c\<rparr>)"
| "writer_move n (W_Fill c) s = Next ((put c (StField (cur s) 8) s)\<lparr>wr := W_Old c\<rparr>)"
| "writer_move n (W_Old c) s = Next (s\<lparr>wr := W_Publish c (rcu_dereference c s)\<rparr>)"
| "writer_move n (W_Publish c oldp) s =
     Next ((rcu_assign_pointer c (cur s) s)\<lparr>wr := W_Add c oldp\<rparr>)"
| "writer_move n (W_Add c oldp) s = (case sync_begin c s of
      None \<Rightarrow> Blocked
    | Some (wv, s') \<Rightarrow> Next (s'\<lparr>wr := W_Scan c oldp wv 0\<rparr>))"
| "writer_move n (W_Scan c oldp wv i) s = (case sync_scan n c wv i s of
      ScanDone \<Rightarrow> Next (s\<lparr>wr := W_Retire c oldp\<rparr>)
    | ScanNext j \<Rightarrow> Next (s\<lparr>wr := W_Scan c oldp wv j\<rparr>)
    | ScanYield \<Rightarrow> Next ((rcu_offline c s)\<lparr>wr := W_Yielded c oldp wv i\<rparr>))"
| "writer_move n (W_Yielded c oldp wv i) s = Next (s\<lparr>wr := W_Scan c oldp wv i\<rparr>)"
| "writer_move n (W_Retire c oldp) s = Next ((put c (StField oldp 0) s)\<lparr>wr := W_Unlock c\<rparr>)"
| "writer_move n (W_Unlock c) s = (if buf s c = [] then Next (s\<lparr>wr := W_Idle\<rparr>) else Blocked)"

definition writer_step :: "nat \<Rightarrow> rcu_sys \<Rightarrow> rcu_sys outcome" where
  "writer_step n s = (case w_core (wr s) of
      None \<Rightarrow> Blocked
    | Some c \<Rightarrow> if rpc s c = R_Out then writer_move n (wr s) s else Blocked)"

datatype rcu_event =
    ReadLock nat | ReadStep nat | ReadUnlock nat | GoOffline nat | Drain nat | OtherSync nat
  | WriterStart nat | WriterStep

fun rcu_exec :: "nat \<Rightarrow> bool \<Rightarrow> rcu_event \<Rightarrow> rcu_sys \<Rightarrow> rcu_sys outcome" where
  "rcu_exec n nested (ReadLock c) s = (if c < n then reader_lock c s else Blocked)"
| "rcu_exec n nested (ReadStep c) s = reader_step c s"
| "rcu_exec n nested (ReadUnlock c) s = reader_unlock c s"
| "rcu_exec n nested (GoOffline c) s = core_offline nested c s"
| "rcu_exec n nested (Drain c) s = flush c s"
| "rcu_exec n nested (OtherSync c) s = other_sync c s"
| "rcu_exec n nested (WriterStart c) s = (if c < n then writer_start c s else Blocked)"
| "rcu_exec n nested WriterStep s = writer_step n s"

lemmas rcu_exec_defs = reader_lock_def reader_step_def reader_unlock_def core_offline_def
  other_sync_def writer_start_def writer_step_def flush_def put_def read_lock_enter_def
  read_lock_load_def read_lock_compare_def read_lock_store_def read_lock_fence_def
  rcu_read_unlock_def rcu_offline_def rcu_assign_pointer_def rcu_dereference_def
  sync_begin_def sync_scan_def Let_def

section \<open>The versions a core publishes\<close>

text \<open>
  A core is online when its version in memory is the one it last published and is not
  \<open>DONE\<close>.  In a read-side section it always is; before the refresh of \<open>rcu_read_lock\<close> its
  buffered versions are all \<open>DONE\<close>.
\<close>

definition online :: "rcu_sys \<Rightarrow> nat \<Rightarrow> bool" where
  "online s c \<longleftrightarrow> filter is_version (buf s c) = [] \<and> versions s c \<noteq> DONE"

definition all_done :: "rcu_sys \<Rightarrow> nat \<Rightarrow> bool" where
  "all_done s c \<longleftrightarrow> (\<forall>x \<in> set (buf s c). is_version x \<longrightarrow> x = StVersion DONE)"

definition fencing :: "rcu_sys \<Rightarrow> nat \<Rightarrow> bool" where
  "fencing s c \<longleftrightarrow> online s c \<or>
     (\<exists>ds g. filter is_version (buf s c) = ds @ [StVersion g] \<and> g \<noteq> DONE)"

definition reader_ok :: "rcu_sys \<Rightarrow> nat \<Rightarrow> bool" where
  "reader_ok s c \<longleftrightarrow> (case rpc s c of
      R_Out \<Rightarrow> all_done s c \<and> (rcu_count s c \<noteq> 1023 \<longrightarrow> online s c)
    | R_Load \<Rightarrow> all_done s c
    | R_Compare g \<Rightarrow> all_done s c \<and> unat g \<le> g_syncs s
    | R_Store g \<Rightarrow> all_done s c \<and> unat g \<le> g_syncs s
    | R_Fence \<Rightarrow> fencing s c
    | R_In _ \<Rightarrow> online s c)"

definition version_ok :: "rcu_sys \<Rightarrow> nat \<Rightarrow> bool" where
  "version_ok s c \<longleftrightarrow>
     (versions s c = DONE \<or> unat (versions s c) \<le> g_syncs s) \<and>
     (\<forall>v. StVersion v \<in> set (buf s c) \<longrightarrow> v = DONE \<or> unat v \<le> g_syncs s)"

definition versions_inv :: "rcu_sys \<Rightarrow> bool" where
  "versions_inv s \<longleftrightarrow> sequencer s = word_of_nat (g_syncs s) \<and>
     (g_syncs s < 2 ^ 63 - 1 \<longrightarrow> (\<forall>c. reader_ok s c \<and> version_ok s c))"

lemmas version_defs = reader_ok_def version_ok_def online_def all_done_def fencing_def

lemma small_not_DONE: "unat g \<le> k \<Longrightarrow> k < 2 ^ 63 - 1 \<Longrightarrow> g \<noteq> DONE"
  using unat_DONE by fastforce

lemma all_done_filter: "all_done s c \<longleftrightarrow> set (filter is_version (buf s c)) \<subseteq> {StVersion DONE}"
  by (auto simp: all_done_def)

lemma all_done_view:
  assumes "all_done s c"
  shows "view_version (buf s c) v = DONE \<or>
    (filter is_version (buf s c) = [] \<and> view_version (buf s c) v = v)"
proof -
  have "view_version b v = DONE \<or> (filter is_version b = [] \<and> view_version b v = v)"
    if "\<forall>x \<in> set b. is_version x \<longrightarrow> x = StVersion DONE" for b
    using that by (induction b v rule: view_version.induct) (auto simp: view_version_none)
  with assms show ?thesis by (auto simp: all_done_def)
qed

lemma versions_inv_init: "versions_inv rcu_sys_init"
  by (simp add: versions_inv_def rcu_sys_init_def rcu_init_def version_defs unat_DONE)

lemma core_ok_cong:
  assumes "rpc s' x = rpc s x" "buf s' x = buf s x" "versions s' x = versions s x"
    "rcu_count s' x = rcu_count s x" "g_syncs s \<le> g_syncs s'"
  shows "reader_ok s x \<Longrightarrow> reader_ok s' x" "version_ok s x \<Longrightarrow> version_ok s' x"
  using assms by (auto simp: version_defs split: reader_pc.splits)

text \<open>Only the buffer, version, counter and program counter of one core changed.\<close>

lemma versions_inv_local:
  assumes "versions_inv s"
    and "sequencer s' = sequencer s" "g_syncs s' = g_syncs s"
    and "\<And>x. x \<noteq> c \<Longrightarrow> buf s' x = buf s x \<and> versions s' x = versions s x \<and>
           rcu_count s' x = rcu_count s x \<and> rpc s' x = rpc s x"
    and "g_syncs s < 2 ^ 63 - 1 \<Longrightarrow> reader_ok s c \<Longrightarrow> version_ok s c \<Longrightarrow>
           sequencer s = word_of_nat (g_syncs s) \<Longrightarrow> reader_ok s' c \<and> version_ok s' c"
  shows "versions_inv s'"
  unfolding versions_inv_def
proof (intro conjI impI allI)
  show "sequencer s' = word_of_nat (g_syncs s')" using assms(1-3) by (simp add: versions_inv_def)
  fix x assume "g_syncs s' < 2 ^ 63 - 1"
  then have b: "g_syncs s < 2 ^ 63 - 1" by (simp add: assms(3))
  with assms(1) have ok: "reader_ok s x" "version_ok s x" "reader_ok s c" "version_ok s c"
    "sequencer s = word_of_nat (g_syncs s)"
    by (auto simp: versions_inv_def)
  have "reader_ok s' x \<and> version_ok s' x"
  proof (cases "x = c")
    case True with assms(5) b ok show ?thesis by blast
  next
    case False
    with assms(3,4) ok(1,2) show ?thesis by (auto intro: core_ok_cong [of s' x s])
  qed
  then show "reader_ok s' x" "version_ok s' x" by blast+
qed

lemma versions_inv_mono:
  assumes "versions_inv s" "rpc s' = rpc s" "buf s' = buf s" "versions s' = versions s"
    "rcu_count s' = rcu_count s" "g_syncs s \<le> g_syncs s'" "sequencer s' = word_of_nat (g_syncs s')"
  shows "versions_inv s'"
  using assms unfolding versions_inv_def by (auto intro: core_ok_cong [of s' _ s])

lemma versions_inv_bump:
  assumes "versions_inv s" "sync_begin c s = Some (wv, s')"
  shows "versions_inv (s'\<lparr>wr := w\<rparr>)"
  by (rule versions_inv_mono [OF assms(1)])
    (use assms in \<open>auto simp: sync_begin_def versions_inv_def split: if_splits\<close>)

lemma versions_inv_wr: "versions_inv s \<Longrightarrow> versions_inv (s\<lparr>wr := w\<rparr>)"
  by (rule versions_inv_mono) (auto simp: versions_inv_def)

lemma versions_inv_writer: "versions_inv s \<Longrightarrow> versions_inv (s\<lparr>cur := k, wr := w\<rparr>)"
  by (rule versions_inv_mono) (auto simp: versions_inv_def)

lemma versions_inv_put:
  assumes "versions_inv s" "\<not> is_version st"
  shows "versions_inv (put c st s)"
  by (rule versions_inv_local [OF assms(1), where c = c])
    (use assms(2) in \<open>auto simp: put_def version_defs split: reader_pc.splits\<close>)

lemma versions_inv_offline:
  assumes "versions_inv s" "rpc s c = R_Out"
  shows "versions_inv (rcu_offline c s)"
  by (rule versions_inv_local [OF assms(1), where c = c])
    (use assms(2) in \<open>auto simp: rcu_offline_def put_def version_defs\<close>)

lemma versions_inv_flush:
  assumes "versions_inv s" "flush c s = Next s'"
  shows "versions_inv s'"
proof -
  from assms(2) obtain st rest where st: "buf s c = st # rest"
    "s' = commit c st (s\<lparr>buf := (buf s)(c := rest)\<rparr>)"
    by (auto simp: flush_def split: list.splits)
  show ?thesis
  proof (rule versions_inv_local [OF assms(1), where c = c])
    assume "g_syncs s < 2 ^ 63 - 1" "reader_ok s c" "version_ok s c"
    with st show "reader_ok s' c \<and> version_ok s' c"
      by (cases st) (auto simp: version_defs Cons_eq_append_conv filter_empty_conv split: reader_pc.splits)
  qed (cases st; use st in auto)+
qed

lemma versions_inv_reader:
  assumes inv: "versions_inv s" and step: "reader_step c s = Next s'"
  shows "versions_inv s'"
proof (rule versions_inv_local [OF inv, where c = c])
  assume b: "g_syncs s < 2 ^ 63 - 1" and ok: "reader_ok s c" "version_ok s c"
    and seq: "sequencer s = word_of_nat (g_syncs s)"
  from seq b have u: "unat (sequencer s) = g_syncs s" by (simp add: unat_syncs)
  show "reader_ok s' c \<and> version_ok s' c"
  proof (cases "rpc s c")
    case (R_Compare g)
    with ok have g: "all_done s c" "unat g \<le> g_syncs s" by (auto simp: reader_ok_def)
    have "g \<noteq> DONE" using g(2) b by (rule small_not_DONE)
    moreover have "g = view_version (buf s c) (versions s c) \<Longrightarrow> online s c"
      using all_done_view [OF g(1), of "versions s c"] \<open>g \<noteq> DONE\<close> by (auto simp: online_def)
    ultimately show ?thesis using R_Compare ok g step
      by (auto simp: reader_step_def read_lock_compare_def version_defs)
  next
    case (R_Store g)
    with ok have g: "all_done s c" "unat g \<le> g_syncs s" by (auto simp: reader_ok_def)
    have "g \<noteq> DONE" using g(2) b by (rule small_not_DONE)
    with R_Store ok g step show ?thesis
      by (auto simp: reader_step_def read_lock_store_def put_def version_defs)
  qed (use ok step b u in \<open>auto simp: rcu_exec_defs version_defs split: if_splits option.splits\<close>)
qed (use step in \<open>auto simp: rcu_exec_defs split: reader_pc.splits if_splits option.splits\<close>)

lemma versions_inv_lock:
  assumes inv: "versions_inv s" and step: "reader_lock c s = Next s'"
  shows "versions_inv s'"
  by (rule versions_inv_local [OF inv, where c = c])
   (use step in \<open>auto simp: reader_lock_def read_lock_enter_def Let_def version_defs split: if_splits\<close>)

lemma versions_inv_unlock:
  assumes inv: "versions_inv s" and step: "reader_unlock c s = Next s'"
  shows "versions_inv s'"
  by (rule versions_inv_local [OF inv, where c = c])
   (use step in \<open>auto simp: reader_unlock_def rcu_read_unlock_def version_defs filter_empty_conv split: reader_pc.splits\<close>)

lemma versions_inv_write:
  assumes inv: "versions_inv s" and step: "writer_step n s = Next s'"
  shows "versions_inv s'"
proof -
  from step obtain c where c: "w_core (wr s) = Some c" "rpc s c = R_Out"
    "writer_move n (wr s) s = Next s'" by (auto simp: writer_step_def split: option.splits if_splits)
  show ?thesis
  proof (cases "wr s")
    case (W_Add c' old)
    with c(3) obtain wv s1 where "sync_begin c' s = Some (wv, s1)" "s' = s1\<lparr>wr := W_Scan c' old wv 0\<rparr>"
      by (auto split: option.splits)
    with versions_inv_bump [OF inv] show ?thesis by simp
  next
    case (W_Scan c' old wv i)
    with c inv versions_inv_offline [OF inv c(2)] show ?thesis
      by (auto split: scan.splits intro: versions_inv_wr)
  qed (use c inv in \<open>auto simp: rcu_assign_pointer_def split: if_splits intro!: versions_inv_wr versions_inv_writer versions_inv_put\<close>)
qed

lemma versions_inv_step:
  "versions_inv s \<Longrightarrow> rcu_exec n False e s = Next s' \<Longrightarrow> versions_inv s'"
proof (cases e)
  case (OtherSync c)
  assume "versions_inv s" "rcu_exec n False e s = Next s'"
  with OtherSync obtain wv where "sync_begin c s = Some (wv, s')"
    by (auto simp: other_sync_def split: option.splits)
  with versions_inv_bump [OF \<open>versions_inv s\<close>, of c wv s' "wr s'"] show ?thesis by simp
qed (auto simp: core_offline_def writer_start_def split: if_splits
       intro: versions_inv_lock versions_inv_reader versions_inv_unlock versions_inv_offline
         versions_inv_flush versions_inv_wr versions_inv_write)


section \<open>Which object a reader may hold\<close>

definition holds :: "rcu_sys \<Rightarrow> nat \<Rightarrow> nat \<Rightarrow> bool" where
  "holds s r p \<longleftrightarrow> rpc s r = R_In (Some p)"

definition wbuf :: "rcu_sys \<Rightarrow> nat \<Rightarrow> store list" where
  "wbuf s c = filter (Not \<circ> is_version) (buf s c)"

definition other :: "rcu_sys \<Rightarrow> nat" where
  "other s = (if cur s = 0 then 1 else 0)"

lemma other_neq [simp]: "other s \<noteq> cur s" "cur s \<noteq> other s"
  by (auto simp: other_def)

fun phase_ok :: "writer_pc \<Rightarrow> rcu_sys \<Rightarrow> bool" where
  "phase_ok W_Idle s \<longleftrightarrow> gp s = cur s \<and> field_a s (cur s) = 8 \<and> (\<forall>r p. holds s r p \<longrightarrow> p = cur s)"
| "phase_ok (W_Cur c) s \<longleftrightarrow> wbuf s c = [] \<and>
     gp s = cur s \<and> field_a s (cur s) = 8 \<and> (\<forall>r p. holds s r p \<longrightarrow> p = cur s)"
| "phase_ok (W_Fill c) s \<longleftrightarrow> wbuf s c = [] \<and>
     gp s = other s \<and> field_a s (other s) = 8 \<and> (\<forall>r p. holds s r p \<longrightarrow> p = other s)"
| "phase_ok (W_Old c) s \<longleftrightarrow>
     (wbuf s c = [StField (cur s) 8] \<or> wbuf s c = [] \<and> field_a s (cur s) = 8) \<and>
     gp s = other s \<and> field_a s (other s) = 8 \<and> (\<forall>r p. holds s r p \<longrightarrow> p = other s)"
| "phase_ok (W_Publish c oldp) s \<longleftrightarrow>
     (wbuf s c = [StField (cur s) 8] \<or> wbuf s c = [] \<and> field_a s (cur s) = 8) \<and> oldp = other s \<and>
     gp s = other s \<and> field_a s (other s) = 8 \<and> (\<forall>r p. holds s r p \<longrightarrow> p = other s)"
| "phase_ok (W_Add c oldp) s \<longleftrightarrow>
     (wbuf s c = [StField (cur s) 8, StPtr (cur s)] \<and> gp s = other s \<or>
      wbuf s c = [StPtr (cur s)] \<and> gp s = other s \<and> field_a s (cur s) = 8 \<or>
      wbuf s c = [] \<and> gp s = cur s \<and> field_a s (cur s) = 8) \<and>
     oldp = other s \<and> field_a s (other s) = 8 \<and>
     (\<forall>r p. holds s r p \<longrightarrow> p = cur s \<or> p = other s) \<and>
     (\<forall>r. holds s r (cur s) \<longrightarrow> r = c \<or> gp s = cur s) \<and> \<not> holds s c (other s)"
| "phase_ok (W_Scan c oldp wv i) s \<longleftrightarrow> wbuf s c = [] \<and> oldp = other s \<and>
     gp s = cur s \<and> field_a s (cur s) = 8 \<and> field_a s (other s) = 8 \<and>
     (\<forall>r p. holds s r p \<longrightarrow> p = cur s \<or>
        p = other s \<and> r \<noteq> c \<and> i \<le> r \<and> versions s r < wv)"
| "phase_ok (W_Yielded c oldp wv i) s \<longleftrightarrow> wbuf s c = [] \<and> oldp = other s \<and>
     gp s = cur s \<and> field_a s (cur s) = 8 \<and> field_a s (other s) = 8 \<and>
     (\<forall>r p. holds s r p \<longrightarrow> p = cur s \<or>
        p = other s \<and> r \<noteq> c \<and> i \<le> r \<and> versions s r < wv)"
| "phase_ok (W_Retire c oldp) s \<longleftrightarrow> wbuf s c = [] \<and> oldp = other s \<and>
     gp s = cur s \<and> field_a s (cur s) = 8 \<and> (\<forall>r p. holds s r p \<longrightarrow> p = cur s)"
| "phase_ok (W_Unlock c) s \<longleftrightarrow> (wbuf s c = [] \<or> wbuf s c = [StField (other s) 0]) \<and>
     gp s = cur s \<and> field_a s (cur s) = 8 \<and> (\<forall>r p. holds s r p \<longrightarrow> p = cur s)"

definition pointer_inv :: "nat \<Rightarrow> rcu_sys \<Rightarrow> bool" where
  "pointer_inv n s \<longleftrightarrow> cur s \<le> 1 \<and> (\<forall>r. rpc s r \<noteq> R_Out \<longrightarrow> r < n) \<and>
     (\<forall>c. w_core (wr s) \<noteq> Some c \<longrightarrow> wbuf s c = []) \<and> phase_ok (wr s) s"

lemma pointer_inv_init: "pointer_inv n rcu_sys_init"
  by (simp add: pointer_inv_def rcu_sys_init_def rcu_init_def wbuf_def holds_def)

text \<open>Every reader sees the field of the object it holds filled.\<close>

lemma pointer_inv_held:
  assumes "pointer_inv n s" "holds s r p"
  shows "p = cur s \<and> (field_a s p = 8 \<or>
      w_core (wr s) = Some r \<and> (wbuf s r = [StField p 8, StPtr p])) \<or>
    p = other s \<and> field_a s p = 8"
proof -
  from assms(1) have ph: "phase_ok (wr s) s" by (simp add: pointer_inv_def)
  show ?thesis
  proof (cases "wr s")
    case (W_Add c oldp)
    with ph assms(2) have "p = cur s \<or> p = other s" "field_a s (other s) = 8"
      "p = cur s \<Longrightarrow> field_a s p = 8 \<or> r = c \<and> wbuf s r = [StField (cur s) 8, StPtr (cur s)]"
      by auto
    with W_Add show ?thesis by auto
  qed (use ph assms(2) in \<open>simp; blast\<close>)+
qed

lemma pointer_inv_wbuf:
  assumes "pointer_inv n s"
  shows "set (wbuf s c) \<subseteq> {StField (cur s) 8, StPtr (cur s), StField (other s) 0}"
proof (cases "w_core (wr s) = Some c")
  case True
  with assms show ?thesis by (cases "wr s") (auto simp: pointer_inv_def)
qed (use assms in \<open>auto simp: pointer_inv_def\<close>)

lemma view_field_const:
  "(\<And>y. StField p y \<in> set b \<Longrightarrow> y = x) \<Longrightarrow> v = x \<Longrightarrow> view_field b p v = x"
proof (induction b p v rule: view_field.induct)
  case (4 q y b p v)
  have "(if q = p then y else v) = x" using "4.prems" by auto
  with "4.IH" "4.prems"(1) have "view_field b p (if q = p then y else v) = x" by auto
  then show ?case by (simp only: view_field.simps)
qed auto

lemma pointer_inv_read:
  assumes inv: "pointer_inv n s" and h: "holds s r p"
  shows "view_field (buf s r) p (field_a s p) = 8"
proof -
  from pointer_inv_held [OF inv h] consider
    "p = cur s" "field_a s p = 8" | "wbuf s r = [StField p 8, StPtr p]" |
    "p = other s" "field_a s p = 8" by blast
  then have "view_field (wbuf s r) p (field_a s p) = 8"
  proof cases
    case 1
    with pointer_inv_wbuf [OF inv, of r] show ?thesis
      by (intro view_field_const) auto
  next
    case 2
    then show ?thesis by simp
  next
    case 3
    show ?thesis 
    proof (cases "wr s = W_Unlock r") 
      case True
      with inv have "\<forall>r p. holds s r p \<longrightarrow> p = cur s" by (simp add: pointer_inv_def)
      with h 3 other_neq show ?thesis by metis
    next
      case False
      with inv have "StField (other s) 0 \<notin> set (wbuf s r)"
        by (cases "wr s"; cases "w_core (wr s) = Some r") (auto simp: pointer_inv_def)
      with pointer_inv_wbuf [OF inv, of r] 3 show ?thesis
        by (intro view_field_const) auto
    qed
  qed
  then show ?thesis by (simp add: wbuf_def view_field_filter [symmetric])
qed

text \<open>The pointer invariant depends on the fields below only.\<close>

lemma phase_ok_cong:
  assumes "cur s' = cur s" "gp s' = gp s" "field_a s' = field_a s" "wbuf s' = wbuf s"
    "\<And>r p. holds s' r p \<Longrightarrow> holds s r p \<and> versions s' r = versions s r"
  shows "phase_ok w s \<Longrightarrow> phase_ok w s'"
proof -
  have "other s' = other s" using assms(1) by (simp add: other_def)
  with assms(5) show "phase_ok w s \<Longrightarrow> phase_ok w s'"
    by (cases w) (simp add: assms(1-4); metis)+
qed

lemma pointer_inv_frame:
  assumes "pointer_inv n s" "cur s' = cur s" "gp s' = gp s" "field_a s' = field_a s"
    "wbuf s' = wbuf s" "wr s' = wr s"
    "\<And>r p. holds s' r p \<Longrightarrow> holds s r p \<and> versions s' r = versions s r"
    "\<And>r. rpc s' r \<noteq> R_Out \<Longrightarrow> r < n"
  shows "pointer_inv n s'"
  using assms phase_ok_cong [of s' s] by (auto simp: pointer_inv_def)

lemma wbuf_version: "is_version st \<Longrightarrow> wbuf (put c st s) = wbuf s"
  by (auto simp: wbuf_def put_def)

lemma online_buf: "online s c \<Longrightarrow> StVersion v \<notin> set (buf s c)"
  by (auto simp: online_def filter_empty_conv)

text \<open>Reader steps.\<close>

lemma pointer_inv_lock:
  assumes "pointer_inv n s" "c < n" "reader_lock c s = Next s'"
  shows "pointer_inv n s'"
  by (rule pointer_inv_frame [OF assms(1)])
    (use assms in \<open>auto simp: reader_lock_def read_lock_enter_def Let_def pointer_inv_def wbuf_def
       holds_def split: if_splits\<close>)

lemma pointer_inv_unlock:
  assumes "pointer_inv n s" "reader_unlock c s = Next s'"
  shows "pointer_inv n s'"
  by (rule pointer_inv_frame [OF assms(1)])
    (use assms in \<open>auto simp: reader_unlock_def rcu_read_unlock_def pointer_inv_def wbuf_def
       holds_def split: reader_pc.splits if_splits\<close>)

lemma pointer_inv_offline:
  assumes "pointer_inv n s" "rpc s c = R_Out"
  shows "pointer_inv n (rcu_offline c s)"
  by (rule pointer_inv_frame [OF assms(1)])
    (use assms in \<open>auto simp: rcu_offline_def put_def pointer_inv_def wbuf_def holds_def\<close>)

lemma pointer_inv_deref:
  assumes inv: "pointer_inv n s" and c: "rpc s c = R_In None"
  shows "pointer_inv n (r_goto c (R_In (Some (rcu_dereference c s))) s)"
proof -
  define d where "d = rcu_dereference c s"
  define s' where "s' = r_goto c (R_In (Some d)) s"
  have view: "d = view_ptr (wbuf s c) (gp s)"
    by (simp add: d_def rcu_dereference_def wbuf_def view_ptr_filter [symmetric])
  have s': "cur s' = cur s" "gp s' = gp s" "field_a s' = field_a s" "versions s' = versions s"
    "wr s' = wr s" "wbuf s' = wbuf s" "other s' = other s"
    by (simp_all add: s'_def other_def wbuf_def fun_eq_iff)
  have h: "holds s' r p \<longleftrightarrow> (if r = c then p = d else holds s r p)" for r p
    by (auto simp: holds_def s'_def)
  have ph: "phase_ok (wr s) s" and cn: "c < n"
    and others: "w_core (wr s) \<noteq> Some c \<Longrightarrow> wbuf s c = []"
    using inv c by (auto simp: pointer_inv_def)
  have "phase_ok (wr s) s'"
  proof (cases "wr s")
    case (W_Add w oldp)
    show ?thesis
    proof (cases "w = c")
      case True
      with ph W_Add have d: "d = cur s" by (auto simp: view)
      from ph W_Add True show ?thesis by (simp add: h s' d) blast
    next
      case False
      with others W_Add have d: "d = gp s" by (simp add: view)
      with ph W_Add False show ?thesis by (simp add: h s') metis
    qed
  next
    case (W_Scan w oldp wv i)
    with ph others have "d = cur s" by (cases "w = c") (auto simp: view)
    with ph W_Scan show ?thesis by (simp add: h s')
  next
    case (W_Yielded w oldp wv i)
    with ph others have "d = cur s" by (cases "w = c") (auto simp: view)
    with ph W_Yielded show ?thesis by (simp add: h s')
  next
    case (W_Old w)
    with ph others have "d = gp s" by (cases "w = c") (auto simp: view)
    with ph W_Old show ?thesis by (simp add: h s')
  next
    case (W_Publish w oldp)
    with ph others have "d = gp s" by (cases "w = c") (auto simp: view)
    with ph W_Publish show ?thesis by (simp add: h s')
  next
    case (W_Unlock w)
    with ph others have "d = gp s" by (cases "w = c") (auto simp: view)
    with ph W_Unlock show ?thesis by (simp add: h s')
  qed (use ph others in \<open>(cases "w_core (wr s) = Some c"; simp add: h s' view)\<close>)+
  moreover have "rpc s' r \<noteq> R_Out \<Longrightarrow> r < n" for r
    using inv cn by (auto simp: s'_def pointer_inv_def split: if_splits)
  ultimately have "pointer_inv n s'" using inv by (auto simp: pointer_inv_def s')
  then show ?thesis by (simp add: s'_def d_def)
qed

lemma pointer_inv_reader:
  assumes inv: "pointer_inv n s" and step: "reader_step c s = Next s'"
  shows "pointer_inv n s'"
proof (cases "rpc s c")
  case (R_Store g)
  show ?thesis
    by (rule pointer_inv_frame [OF inv])
      (use R_Store step inv in \<open>auto simp: reader_step_def read_lock_store_def put_def
         pointer_inv_def wbuf_def holds_def split: if_splits\<close>)
next
  case (R_In d)
  with step inv pointer_inv_deref [OF inv] show ?thesis
    by (cases d) (auto simp: reader_step_def split: if_splits)
next
  case (R_Compare g)
  show ?thesis
    by (rule pointer_inv_frame [OF inv])
      (use R_Compare step inv in \<open>auto simp: reader_step_def read_lock_compare_def
         pointer_inv_def wbuf_def holds_def split: if_splits\<close>)
next
  case R_Load
  show ?thesis
    by (rule pointer_inv_frame [OF inv])
      (use R_Load step inv in \<open>auto simp: reader_step_def read_lock_load_def
         pointer_inv_def wbuf_def holds_def split: if_splits\<close>)
next
  case R_Fence
  show ?thesis
    by (rule pointer_inv_frame [OF inv])
      (use R_Fence step inv in \<open>auto simp: reader_step_def read_lock_fence_def
         pointer_inv_def wbuf_def holds_def split: if_splits\<close>)
qed (use step in \<open>auto simp: reader_step_def\<close>)

text \<open>A store reaches memory: only the writer's core has stores to the pointer and the fields.\<close>

lemma pointer_inv_flush:
  assumes inv: "pointer_inv n s" and online: "\<And>r p. holds s r p \<Longrightarrow> online s r"
    and step: "flush c s = Next s'"
  shows "pointer_inv n s'"
proof -
  from step obtain st rest where b: "buf s c = st # rest"
    and s': "s' = commit c st (s\<lparr>buf := (buf s)(c := rest)\<rparr>)"
    by (auto simp: flush_def split: list.splits)
  show ?thesis
  proof (cases st)
    case (StVersion v)
    have "\<not> holds s c p" for p using online [of c p] b StVersion by (auto simp: online_def)
    then show ?thesis
      by (intro pointer_inv_frame [OF inv])
        (use inv b s' StVersion in \<open>auto simp: pointer_inv_def wbuf_def holds_def fun_eq_iff\<close>)
  next
    case (StPtr p)
    then have wb: "wbuf s c = StPtr p # filter (Not \<circ> is_version) rest" by (simp add: wbuf_def b)
    with inv have w: "w_core (wr s) = Some c" by (auto simp: pointer_inv_def)
    have wb': "wbuf s' = (wbuf s)(c := filter (Not \<circ> is_version) rest)"
      by (simp add: s' StPtr wbuf_def fun_eq_iff)
    have eq: "cur s' = cur s" "field_a s' = field_a s" "gp s' = p" "wr s' = wr s" "other s' = other s"
      "holds s' = holds s" "rpc s' = rpc s"
      by (simp_all add: s' StPtr other_def holds_def fun_eq_iff)
    have "phase_ok (wr s) s'"
      using inv w wb by (cases "wr s") (auto simp: pointer_inv_def eq wb')
    with inv w show ?thesis by (auto simp: pointer_inv_def eq wb')
  next
    case (StField p x)
    then have wb: "wbuf s c = StField p x # filter (Not \<circ> is_version) rest" by (simp add: wbuf_def b)
    with inv have w: "w_core (wr s) = Some c" by (auto simp: pointer_inv_def)
    have wb': "wbuf s' = (wbuf s)(c := filter (Not \<circ> is_version) rest)"
      by (simp add: s' StField wbuf_def fun_eq_iff)
    have eq: "cur s' = cur s" "field_a s' = (field_a s)(p := x)" "gp s' = gp s" "wr s' = wr s"
      "other s' = other s" "holds s' = holds s" "rpc s' = rpc s"
      by (simp_all add: s' StField other_def holds_def fun_eq_iff)
    have "phase_ok (wr s) s'"
      using inv w wb by (cases "wr s") (auto simp: pointer_inv_def eq wb')
    with inv w show ?thesis by (auto simp: pointer_inv_def eq wb')
  qed
qed

text \<open>Writer steps.\<close>

lemma writer_frame [simp]:
  "other (s\<lparr>wr := w\<rparr>) = other s" "wbuf (s\<lparr>wr := w\<rparr>) = wbuf s" "holds (s\<lparr>wr := w\<rparr>) = holds s"
  by (simp_all add: other_def wbuf_def holds_def fun_eq_iff)

lemma put_frame [simp]:
  "other (put c st s) = other s" "holds (put c st s) = holds s" "cur (put c st s) = cur s"
  "gp (put c st s) = gp s" "field_a (put c st s) = field_a s" "rpc (put c st s) = rpc s"
  "wr (put c st s) = wr s" "versions (put c st s) = versions s"
  by (simp_all add: other_def holds_def put_def fun_eq_iff)

lemma pointer_inv_start:
  assumes "pointer_inv n s" "writer_start c s = Next s'"
  shows "pointer_inv n s'"
  using assms
  by (auto simp: writer_start_def pointer_inv_def wbuf_def holds_def split: if_splits)

lemma pointer_inv_other_sync:
  assumes inv: "pointer_inv n s" and step: "other_sync c s = Next s'"
  shows "pointer_inv n s'"
  by (rule pointer_inv_frame [OF inv])
    (use inv step in \<open>auto simp: other_sync_def sync_begin_def pointer_inv_def wbuf_def holds_def
       split: if_splits\<close>)

lemma pointer_inv_write:
  assumes inv: "pointer_inv n s" and vers: "versions_inv s" and bound: "g_syncs s' < 2 ^ 63 - 1"
    and step: "writer_step n s = Next s'"
  shows "pointer_inv n s'"
proof -
  from step obtain c where c: "w_core (wr s) = Some c" "rpc s c = R_Out"
    "writer_move n (wr s) s = Next s'" by (auto simp: writer_step_def split: option.splits if_splits)
  have cur: "cur s = 0 \<or> cur s = 1" and rn: "\<And>r. rpc s r \<noteq> R_Out \<Longrightarrow> r < n"
    and others: "\<And>x. x \<noteq> c \<Longrightarrow> wbuf s x = []" and ph: "phase_ok (wr s) s"
    using inv c(1) by (auto simp: pointer_inv_def)
  have cur1: "cur s \<le> 1" using cur by auto
  have hc: "\<not> holds s c p" for p using c(2) by (simp add: holds_def)
  have put: "wbuf (put c st s) = (if is_version st then wbuf s else (wbuf s)(c := wbuf s c @ [st]))" for st
    by (auto simp: wbuf_def put_def fun_eq_iff)
  show ?thesis
  proof (cases "wr s")
    case W_Idle
    with c(1) show ?thesis by simp
  next
    case (W_Cur c')
    have e: "s' = s\<lparr>cur := (if cur s = 0 then 1 else 0), wr := W_Fill c\<rparr>" "c' = c"
      using W_Cur c by auto
    have o: "other s' = cur s" "wbuf s' = wbuf s" "holds s' = holds s" "rpc s' = rpc s"
      "gp s' = gp s" "field_a s' = field_a s" "wr s' = W_Fill c" "cur s' \<le> 1"
      using cur by (auto simp: e other_def wbuf_def holds_def fun_eq_iff)
    show ?thesis using ph W_Cur others rn e(2) o(8) unfolding pointer_inv_def o by (simp add: o)
  next
    case (W_Fill c')
    let ?s = "(put c (StField (cur s) 8) s)\<lparr>wr := W_Old c\<rparr>"
    have e: "s' = ?s" "c' = c" using W_Fill c by auto
    have o: "other ?s = other s" "wbuf ?s = wbuf (put c (StField (cur s) 8) s)" "holds ?s = holds s"
      "cur ?s = cur s" "gp ?s = gp s" "field_a ?s = field_a s" "wr ?s = W_Old c" "rpc ?s = rpc s"
      by (auto simp: other_def wbuf_def holds_def fun_eq_iff put_def)
    show ?thesis using ph W_Fill others rn cur1 unfolding e pointer_inv_def o by (simp add: o put)
  next
    case (W_Old c')
    let ?s = "s\<lparr>wr := W_Publish c (rcu_dereference c s)\<rparr>"
    have e: "s' = ?s" "c' = c" using W_Old c by auto
    have d: "rcu_dereference c s = other s" using ph W_Old e(2)
      by (auto simp: rcu_dereference_def view_ptr_filter [of "buf s c"] wbuf_def [symmetric])
    have o: "other ?s = other s" "wbuf ?s = wbuf s" "holds ?s = holds s"
      by (auto simp: other_def wbuf_def holds_def fun_eq_iff)
    show ?thesis using ph W_Old others rn cur1 d unfolding e by (simp add: pointer_inv_def o)
  next
    case (W_Publish c' oldp)
    let ?s = "(put c (StPtr (cur s)) s)\<lparr>wr := W_Add c oldp\<rparr>"
    have e: "s' = ?s" "c' = c" using W_Publish c by (auto simp: rcu_assign_pointer_def)
    have o: "other ?s = other s" "wbuf ?s = wbuf (put c (StPtr (cur s)) s)" "holds ?s = holds s"
      "cur ?s = cur s" "gp ?s = gp s" "field_a ?s = field_a s" "wr ?s = W_Add c oldp" "rpc ?s = rpc s"
      by (auto simp: other_def wbuf_def holds_def fun_eq_iff put_def)
    have "\<not> holds s r (cur s)" for r using ph W_Publish other_neq by (metis phase_ok.simps(5))
    then show ?thesis using ph W_Publish others rn cur1 hc unfolding e pointer_inv_def o
      by (simp add: o put)
  next
    case (W_Add c' oldp)
    with c obtain wv s1 where s1: "sync_begin c s = Some (wv, s1)" "s' = s1\<lparr>wr := W_Scan c oldp wv 0\<rparr>"
      and c': "c' = c" by (auto split: option.splits)
    then have b: "buf s c = []" and wv: "wv = sequencer s + 1" 
      and e: "s' = s\<lparr>sequencer := sequencer s + 1, g_syncs := Suc (g_syncs s), wr := W_Scan c oldp wv 0\<rparr>"
      by (auto simp: sync_begin_def split: if_splits)
    have "wv = word_of_nat (Suc (g_syncs s))" using vers wv by (simp add: versions_inv_def add.commute)
    moreover have "Suc (g_syncs s) < 2 ^ 63 - 1" using bound by (simp add: e)
    ultimately have u: "unat wv = Suc (g_syncs s)" by (simp only: unat_syncs less_imp_le)
    have "versions s r < wv" if "holds s r p" for r p
    proof -
      have "g_syncs s < 2 ^ 63 - 1" using bound by (simp add: e)
      with vers have "reader_ok s r" "version_ok s r" by (auto simp: versions_inv_def)
      with that have "unat (versions s r) \<le> g_syncs s"
        by (auto simp: holds_def reader_ok_def online_def version_ok_def)
      with u show ?thesis by (simp add: word_less_nat_alt)
    qed
    moreover have o: "other s' = other s" "wbuf s' = wbuf s" "holds s' = holds s" "rpc s' = rpc s"
      "cur s' = cur s" "gp s' = gp s" "field_a s' = field_a s" "wr s' = W_Scan c oldp wv 0"
      "versions s' = versions s"
      by (auto simp: e other_def wbuf_def holds_def fun_eq_iff)
    moreover have "wbuf s c = []" by (simp add: wbuf_def b)
    ultimately show ?thesis using ph W_Add c' others rn cur1 hc unfolding pointer_inv_def o
      by (simp add: o) metis
  next
    case (W_Scan c' oldp wv i)
    with c have c': "c' = c" by simp
    show ?thesis
    proof (cases "sync_scan n c wv i s")
      case ScanDone
      then have i: "\<not> i < n" by (auto simp: sync_scan_def split: if_splits)
      have e: "s' = s\<lparr>wr := W_Retire c oldp\<rparr>" using c W_Scan ScanDone by simp
      have o: "other s' = other s" "wbuf s' = wbuf s" "holds s' = holds s"
        by (auto simp: e other_def wbuf_def holds_def fun_eq_iff)
      have "holds s r p \<Longrightarrow> r < n" for r p using rn by (auto simp: holds_def)
      then have "holds s r p \<Longrightarrow> \<not> i \<le> r" for r p using i by (meson leD le_less_trans not_le)
      then have "\<forall>r p. holds s r p \<longrightarrow> p = cur s" using ph W_Scan by auto
      then show ?thesis using ph W_Scan c' others rn cur1 by (simp add: pointer_inv_def e o[unfolded e])
    next
      case (ScanNext j)
      then have j: "j = Suc i" "i = c \<or> \<not> versions s i < wv"
        by (auto simp: sync_scan_def split: if_splits)
      have e: "s' = s\<lparr>wr := W_Scan c oldp wv j\<rparr>" using c W_Scan ScanNext by simp
      have o: "other s' = other s" "wbuf s' = wbuf s" "holds s' = holds s"
        by (auto simp: e other_def wbuf_def holds_def fun_eq_iff)
      have h: "\<forall>r p. holds s r p \<longrightarrow> p = cur s \<or> p = other s \<and> r \<noteq> c \<and> i \<le> r \<and> versions s r < wv"
        using ph W_Scan c' by simp
      have "\<forall>r p. holds s r p \<longrightarrow> p = cur s \<or> p = other s \<and> r \<noteq> c \<and> j \<le> r \<and> versions s r < wv"
        using h j by (metis Suc_leI le_neq_implies_less)
      then show ?thesis using ph W_Scan c' others rn cur1 by (simp add: pointer_inv_def e o[unfolded e])
    next
      case ScanYield
      have e: "s' = (rcu_offline c s)\<lparr>wr := W_Yielded c oldp wv i\<rparr>" using c W_Scan ScanYield by simp
      have "wbuf (rcu_offline c s) = wbuf s" by (auto simp: rcu_offline_def wbuf_def put_def fun_eq_iff)
      then have o: "other s' = other s" "wbuf s' = wbuf s" "holds s' = holds s" "rpc s' = rpc s"
        "cur s' = cur s" "gp s' = gp s" "field_a s' = field_a s" "wr s' = W_Yielded c oldp wv i"
        "versions s' = versions s"
        by (auto simp: e other_def holds_def fun_eq_iff wbuf_def rcu_offline_def put_def)
      show ?thesis using ph W_Scan c' others rn cur1 unfolding pointer_inv_def o by (simp add: o)
    qed
  next
    case (W_Yielded c' oldp wv i)
    have e: "s' = s\<lparr>wr := W_Scan c oldp wv i\<rparr>" "c' = c" using c W_Yielded by auto
    have o: "other s' = other s" "wbuf s' = wbuf s" "holds s' = holds s"
      by (auto simp: e other_def wbuf_def holds_def fun_eq_iff)
    show ?thesis using ph W_Yielded others rn cur1 e(2) by (simp add: pointer_inv_def e(1) o[unfolded e])
  next
    case (W_Retire c' oldp)
    let ?s = "(put c (StField oldp 0) s)\<lparr>wr := W_Unlock c\<rparr>"
    have e: "s' = ?s" "c' = c" using W_Retire c by auto
    have o: "other ?s = other s" "wbuf ?s = wbuf (put c (StField oldp 0) s)" "holds ?s = holds s"
      "cur ?s = cur s" "gp ?s = gp s" "field_a ?s = field_a s" "wr ?s = W_Unlock c" "rpc ?s = rpc s"
      by (auto simp: other_def wbuf_def holds_def fun_eq_iff put_def)
    show ?thesis using ph W_Retire others rn cur1 unfolding e pointer_inv_def o by (simp add: o put)
  next
    case (W_Unlock c')
    have e: "s' = s\<lparr>wr := W_Idle\<rparr>" "c' = c" "wbuf s c = []"
      using c W_Unlock by (auto simp: wbuf_def split: if_splits)
    have o: "other s' = other s" "wbuf s' = wbuf s" "holds s' = holds s"
      by (auto simp: e other_def wbuf_def holds_def fun_eq_iff)
    have "wbuf s x = []" for x using others e(3) by (cases "x = c") auto
    then show ?thesis using ph W_Unlock rn cur1 by (simp add: pointer_inv_def e(1) o[unfolded e])
  qed
qed

definition rcu_inv :: "nat \<Rightarrow> rcu_sys \<Rightarrow> bool" where
  "rcu_inv n s \<longleftrightarrow> versions_inv s \<and> (g_syncs s < 2 ^ 63 - 1 \<longrightarrow> pointer_inv n s)"

lemma rcu_inv_init: "rcu_inv n rcu_sys_init"
  by (simp add: rcu_inv_def versions_inv_init pointer_inv_init)

lemma writer_move_syncs: "writer_move n w s = Next s' \<Longrightarrow> g_syncs s \<le> g_syncs s'"
  by (cases w) (auto simp: rcu_exec_defs split: option.splits scan.splits if_splits)

lemma commit_syncs [simp]: "g_syncs (commit c st s) = g_syncs s"
  by (cases st) auto

lemma rcu_syncs_mono: "rcu_exec n nested e s = Next s' \<Longrightarrow> g_syncs s \<le> g_syncs s'"
proof (cases e)
  case WriterStep
  assume "rcu_exec n nested e s = Next s'"
  with WriterStep show ?thesis
    by (auto simp: writer_step_def split: option.splits if_splits dest: writer_move_syncs)
qed (auto simp: rcu_exec_defs split: option.splits if_splits reader_pc.splits list.splits)

lemma rcu_inv_step:
  assumes inv: "rcu_inv n s" and step: "rcu_exec n False e s = Next s'"
  shows "rcu_inv n s'"
  unfolding rcu_inv_def
proof (intro conjI impI)
  have vers: "versions_inv s" using inv by (simp add: rcu_inv_def)
  then show "versions_inv s'" using step by (rule versions_inv_step)
  assume bound: "g_syncs s' < 2 ^ 63 - 1"
  with rcu_syncs_mono [OF step] have b: "g_syncs s < 2 ^ 63 - 1" by simp
  with inv have ptr: "pointer_inv n s" by (simp add: rcu_inv_def)
  have online: "holds s r p \<Longrightarrow> online s r" for r p
    using vers b by (auto simp: versions_inv_def reader_ok_def holds_def split: reader_pc.splits)
  show "pointer_inv n s'"
  proof (cases e)
    case (Drain c)
    with step online show ?thesis by (auto intro: pointer_inv_flush [OF ptr])
  qed (use step ptr vers bound in \<open>auto simp: core_offline_def split: if_splits
      intro: pointer_inv_lock pointer_inv_reader pointer_inv_unlock pointer_inv_offline
        pointer_inv_other_sync pointer_inv_start pointer_inv_write\<close>)
qed

interpretation rcu: invariant_machine rcu_sys_init "rcu_exec n False" "rcu_inv n"
  by unfold_locales (rule rcu_inv_init, rule rcu_inv_step)

lemma rcu_no_fault:
  assumes "rcu_inv n s" "g_syncs s < 2 ^ 63 - 1"
  shows "rcu_exec n nested e s \<noteq> Fault f"
proof (cases e)
  case (ReadStep c)
  have "view_field (buf s c) p (field_a s p) = 8" if "rpc s c = R_In (Some p)" for p
    using assms that by (intro pointer_inv_read) (auto simp: rcu_inv_def holds_def)
  with ReadStep show ?thesis
    by (auto simp: reader_step_def split: reader_pc.splits option.splits)
next
  case WriterStep
  have "writer_move n w s \<noteq> Fault f" for w
    by (cases w) (auto split: option.splits scan.splits)
  with WriterStep show ?thesis by (auto simp: writer_step_def split: option.splits)
qed (auto simp: reader_lock_def reader_unlock_def core_offline_def flush_def other_sync_def
       writer_start_def Let_def split: prod.splits reader_pc.splits list.splits option.splits)

section \<open>Properties\<close>

text \<open>
  Property C3 (readers never see a retired object). In every reachable state, with any number of
  cores and any interleaving of reader, writer, store-buffer and suspension steps, no step fails
  the reader's assertion that the field of the object it holds is 8, as long as fewer than
  \<open>LONG_LONG_MAX\<close> grace periods were started.
\<close>
theorem rcu_readers_safe:
  assumes "reach (rcu_exec n False) rcu_sys_init s" and "g_syncs s < 2 ^ 63 - 1"
  shows "rcu_exec n False e s \<noteq> Fault f"
  using rcu.reach_inv [OF assms(1)] assms(2) by (rule rcu_no_fault)

text \<open>A run in which core 0 enters its first section and dereferences the pointer.\<close>

definition reader_prefix :: "rcu_event list" where
  "reader_prefix = [ReadLock 0, ReadStep 0, ReadStep 0, ReadStep 0, Drain 0, ReadStep 0, ReadStep 0]"

definition reader_prefix_state :: rcu_sys where
  "reader_prefix_state = rcu_sys_init\<lparr>versions := (versions rcu_sys_init)(0 := 0),
     rcu_count := (\<lambda>_. 1023)(0 := 0), rpc := (\<lambda>_. R_Out)(0 := R_In (Some 0))\<rparr>"

lemmas rcu_run_simps = rcu_exec_defs rcu_sys_init_def rcu_init_def DONE_def

lemma reader_prefix_run:
  "run (rcu_exec (Suc n) nested) reader_prefix rcu_sys_init = Next reader_prefix_state"
  by (simp add: reader_prefix_def reader_prefix_state_def rcu_run_simps fun_eq_iff)

lemma reader_prefix_reach: "reach (rcu_exec (Suc n) nested) rcu_sys_init reader_prefix_state"
  by (rule run_reach [OF reach.reach_init reader_prefix_run])

theorem rcu_readers_safe_witness:
  "rcu_exec 2 False (ReadStep 0) reader_prefix_state \<noteq> Fault AssertFailed \<and>
   rpc reader_prefix_state 0 = R_In (Some 0)"
proof -
  have r: "reach (rcu_exec 2 False) rcu_sys_init reader_prefix_state"
    using reader_prefix_reach [of 1 False] by (simp add: numeral_2_eq_2)
  have b: "g_syncs reader_prefix_state < 2 ^ 63 - 1"
    by (simp add: reader_prefix_state_def rcu_run_simps)
  show ?thesis
    by (rule conjI [OF rcu_readers_safe [OF r b]]) (simp add: reader_prefix_state_def)
qed

text \<open>
  Property C17 (grace period). When the writer's \<open>synchronize_rcu\<close> has returned, no core is in a
  read-side section in which it dereferenced the pointer the writer replaced.
\<close>
theorem rcu_grace_period:
  assumes "reach (rcu_exec n False) rcu_sys_init s" and "g_syncs s < 2 ^ 63 - 1"
    and "wr s = W_Retire c oldp"
  shows "\<not> holds s r oldp"
proof -
  from rcu.reach_inv [OF assms(1)] assms(2) have "pointer_inv n s" by (simp add: rcu_inv_def)
  with assms(3) have "oldp = other s" "\<forall>r p. holds s r p \<longrightarrow> p = cur s"
    by (auto simp: pointer_inv_def)
  then show ?thesis using other_neq by metis
qed

text \<open>A writer that meets no reader: core 1 publishes the second object.\<close>

definition writer_run :: "rcu_event list" where
  "writer_run = [WriterStart 1, WriterStep, WriterStep, WriterStep, WriterStep, Drain 1, Drain 1,
     WriterStep, WriterStep, WriterStep, WriterStep]"

definition writer_state :: "rcu_sys \<Rightarrow> rcu_sys" where
  "writer_state s = s\<lparr>cur := 1, gp := 1, field_a := (field_a s)(1 := 8), sequencer := 1,
     g_syncs := 1, wr := W_Retire 1 0\<rparr>"

lemma writer_run_state: "run (rcu_exec 2 nested) writer_run rcu_sys_init = Next (writer_state rcu_sys_init)"
  by (simp add: writer_run_def writer_state_def rcu_run_simps fun_eq_iff)

theorem rcu_grace_period_witness: "\<not> holds (writer_state rcu_sys_init) 0 0"
proof (rule rcu_grace_period)
  show "reach (rcu_exec 2 False) rcu_sys_init (writer_state rcu_sys_init)"
    by (rule run_reach [OF reach.reach_init writer_run_state])
  show "g_syncs (writer_state rcu_sys_init) < 2 ^ 63 - 1" by (simp add: writer_state_def)
  show "wr (writer_state rcu_sys_init) = W_Retire 1 0" by (simp add: writer_state_def)
qed

text \<open>
  Property C37 (a read-side section must not resume another coroutine). If a coroutine may go
  offline on a core whose read-side section is still open, as happens when the section calls
  \<open>Mutex::unlock\<close> or a condition variable's \<open>notify\<close> and the coroutine resumed there
  suspends, then a schedule exists in which the reader sees a retired object.
\<close>
theorem rcu_nested_offline_unsafe:
  "\<exists>es. run (rcu_exec 2 True) es rcu_sys_init = Fault AssertFailed"
proof -
  have "run (rcu_exec 2 True) (reader_prefix @ [GoOffline 0, Drain 0] @ writer_run @
      [WriterStep, Drain 1, ReadStep 0]) rcu_sys_init = Fault AssertFailed"
    using reader_prefix_run [of 1 True]
    by (simp add: run_append numeral_2_eq_2 [symmetric])
      (simp add: reader_prefix_state_def writer_run_def rcu_run_simps)
  then show ?thesis by blast
qed

text \<open>
  Also shown (\<open>synchronize_rcu\<close> returns). If the version of every other core has reached the
  writer's, its loop passes all cores without yielding: it ends after at most one step per
  remaining core and one more, with memory unchanged.
\<close>
theorem rcu_synchronize_returns:
  assumes "wr s = W_Scan c oldp wv i" and "rpc s c = R_Out"
    and "\<And>r. i \<le> r \<Longrightarrow> r < n \<Longrightarrow> r \<noteq> c \<Longrightarrow> wv \<le> versions s r"
  shows "run (rcu_exec n False) (replicate (Suc (n - i)) WriterStep) s =
    Next (s\<lparr>wr := W_Retire c oldp\<rparr>)"
  using assms
proof (induction "n - i" arbitrary: i s)
  case 0
  then show ?case by (simp add: writer_step_def sync_scan_def)
next
  case (Suc k)
  then have i: "i < n" "k = n - Suc i" by auto
  let ?s = "s\<lparr>wr := W_Scan c oldp wv (Suc i)\<rparr>"
  have "i = c \<or> \<not> versions s i < wv" using Suc.prems(3) [of i] i(1) by auto
  then have step: "rcu_exec n False WriterStep s = Next ?s"
    using Suc.prems(1,2) i(1) by (auto simp: writer_step_def sync_scan_def)
  have "run (rcu_exec n False) (replicate (Suc (n - Suc i)) WriterStep) ?s =
      Next (?s\<lparr>wr := W_Retire c oldp\<rparr>)"
    using Suc.prems by (intro Suc.hyps(1) [OF i(2)]) auto
  moreover have "n - i = Suc (n - Suc i)" using i(1) by simp
  ultimately show ?case using step by simp
qed

theorem rcu_synchronize_returns_witness:
  "run (rcu_exec 2 False) (replicate 3 WriterStep) (rcu_sys_init\<lparr>wr := W_Scan 1 0 1 0\<rparr>) =
     Next (rcu_sys_init\<lparr>wr := W_Retire 1 0\<rparr>)"
proof -
  let ?s = "rcu_sys_init\<lparr>wr := W_Scan 1 0 1 0\<rparr>"
  have "run (rcu_exec 2 False) (replicate (Suc (2 - 0)) WriterStep) ?s = Next (?s\<lparr>wr := W_Retire 1 0\<rparr>)"
    by (rule rcu_synchronize_returns [where wv = 1])
      (auto simp: rcu_sys_init_def rcu_init_def DONE_def)
  then show ?thesis by (simp add: numeral_3_eq_3)
qed

end
