(* ===== verification/RcuStack.thy ===== *)
theory RcuStack
  imports LockStack RcuClient
begin

text \<open>
  The RCU workload of \<^verbatim>\<open>benchmarks/colocking.cpp\<close> with its mutex: the writers (\<open>rcuwriter\<close>) take
  turns by \<open>rcu_mutex\<close>, every step of which is a step here.  The theory \<open>RcuClient\<close> has one writer
  at a time; now any number of writer coroutines wait for the mutex, and the one that owns it takes
  the steps of the writer, on the core where it was resumed.  \<open>turn\<close> is the coroutine in the
  critical section.  The readers, the store buffers and the cores that go offline are as before.
\<close>

section \<open>The writers as users of a lock\<close>

record rcu_user =
  rcus :: rcu_sys
  turn :: nat

definition rcu_user_init :: rcu_user where
  "rcu_user_init = \<lparr>rcus = rcu_sys_init, turn = 0\<rparr>"

datatype rcu_user_event =
    Turn nat nat      \<comment> \<open>\<open>co_await rcu_mutex.coLock()\<close> has returned to this writer, on this core\<close>
  | Around rcu_event  \<comment> \<open>any other step\<close>

text \<open>Versions are compared as signed numbers: the model stops when they are used up.\<close>

fun rcu_user_exec :: "nat \<Rightarrow> rcu_user_event \<Rightarrow> rcu_user \<Rightarrow> rcu_user outcome" where
  "rcu_user_exec n (Turn t c) s =
     (if g_syncs (rcus s) < 2 ^ 63 - 1
      then map_next (\<lambda>r. \<lparr>rcus = r, turn = t\<rparr>) (rcu_exec n False (WriterStart c) (rcus s)) else Blocked)"
| "rcu_user_exec n (Around e) s =
     (if g_syncs (rcus s) < 2 ^ 63 - 1 \<and> (\<forall>c. e \<noteq> WriterStart c)
      then map_next (\<lambda>r. s\<lparr>rcus := r\<rparr>) (rcu_exec n False e (rcus s)) else Blocked)"

definition writing :: "rcu_user \<Rightarrow> nat option" where
  "writing s = (case w_core (wr (rcus s)) of None \<Rightarrow> None | Some c \<Rightarrow> Some (turn s))"

text \<open>A writer asks for the mutex when it has none, and its core is in no section.\<close>

fun rcu_acquires :: "nat \<Rightarrow> rcu_user_event \<Rightarrow> rcu_user \<Rightarrow> nat option" where
  "rcu_acquires n (Turn t c) s =
     (if g_syncs (rcus s) < 2 ^ 63 - 1 \<and> c < n \<and> rpc (rcus s) c = R_Out \<and> buf (rcus s) c = [] \<and> writing s \<noteq> Some t
      then Some t else None)"
| "rcu_acquires n (Around e) s = None"

fun at_unlock :: "writer_pc \<Rightarrow> bool" where
  "at_unlock (W_Unlock c) = True"
| "at_unlock w = False"

fun rcu_releases :: "rcu_user_event \<Rightarrow> rcu_user \<Rightarrow> nat option" where
  "rcu_releases (Turn t c) s = None"
| "rcu_releases (Around e) s = (if e = WriterStep \<and> at_unlock (wr (rcus s)) then writing s else None)"

definition rcu_forget :: "rcu_user \<Rightarrow> rcu_user" where
  "rcu_forget s = s\<lparr>rcus := (rcus s)\<lparr>wr := W_Idle\<rparr>\<rparr>"

lemma w_core_None [simp]: "w_core w = None \<longleftrightarrow> w = W_Idle"
  by (cases w) auto

lemma writing_None [simp]: "writing s = None \<longleftrightarrow> wr (rcus s) = W_Idle"
  by (cases "wr (rcus s)") (simp_all add: writing_def)

lemma commit_wr [simp]: "wr (commit c st s) = wr s"
  by (cases st) auto

text \<open>Only the writer moves the writer, and it stays on its core until it unlocks.\<close>

lemma rcu_exec_wr:
  assumes "rcu_exec n False e s = Next s'" "\<forall>c. e \<noteq> WriterStart c"
  shows "(e \<noteq> WriterStep \<longrightarrow> wr s' = wr s) \<and>
    (e = WriterStep \<longrightarrow> w_core (wr s') = (if at_unlock (wr s) then None else w_core (wr s)))"
proof (cases e)
  case WriterStep
  with assms show ?thesis
    by (cases "wr s") (auto simp: writer_step_def sync_begin_def put_def rcu_assign_pointer_def split: if_splits scan.splits)
qed (use assms in \<open>auto simp: rcu_exec_defs split: if_splits reader_pc.splits option.splits list.splits\<close>)

lemma rcu_user_reach:
  "reach (rcu_user_exec n) rcu_user_init s \<Longrightarrow> reach (rcu_exec n False) rcu_sys_init (rcus s)"
proof (induction rule: reach.induct)
  case (reach_step s e s')
  then show ?case by (cases e) (auto simp del: rcu_exec.simps split: if_splits elim: reach.reach_step)
qed (simp add: rcu_user_init_def reach_init)

interpretation rcu_writers: lock_user rcu_user_init "rcu_user_exec n" writing "rcu_acquires n" rcu_releases rcu_forget
proof
  fix e s f assume "reach (rcu_user_exec n) rcu_user_init s"
  from rcu_no_fault [OF rcu.reach_inv [OF rcu_user_reach [OF this]]]
  show "rcu_user_exec n e s \<noteq> Fault f" by (cases e) (auto simp del: rcu_exec.simps)
next
  fix e s t assume "rcu_acquires n e s = Some t" "writing s = None"
  moreover from this have "wr (rcus s) = W_Idle" by simp
  ultimately show "\<exists>s'. rcu_user_exec n e s = Next s' \<and> writing s' = Some t"
    by (cases e) (auto simp: writer_start_def writing_def split: if_splits)
next
  fix e s t s' assume "rcu_releases e s = Some t" "rcu_user_exec n e s = Next s'"
  then obtain r where "rcu_exec n False WriterStep (rcus s) = Next r" "at_unlock (wr (rcus s))" "s' = s\<lparr>rcus := r\<rparr>"
    by (cases e) (auto simp del: rcu_exec.simps split: if_splits)
  with rcu_exec_wr [of n WriterStep "rcus s" r] show "writing s' = None" by simp
next
  fix e s s' assume *: "rcu_acquires n e s = None" "rcu_releases e s = None" "rcu_user_exec n e s = Next s'"
  show "writing s' = writing s"
  proof (cases e)
    case (Turn t c)
    with * show ?thesis by (auto simp: writer_start_def writing_def split: if_splits)
  next
    case (Around e')
    with *(3) obtain r where r: "rcu_exec n False e' (rcus s) = Next r" "\<forall>c. e' \<noteq> WriterStart c" "s' = s\<lparr>rcus := r\<rparr>"
      by (auto split: if_splits)
    from rcu_exec_wr [OF r(1,2)] * Around r(3) show ?thesis
      by (cases "wr (rcus s)") (auto simp: writing_def split: if_splits)
  qed
qed (auto simp: rcu_user_init_def rcu_sys_init_def rcu_init_def rcu_forget_def writing_def split: option.splits if_splits
      elim!: rcu_acquires.elims rcu_releases.elims)

section \<open>The combination\<close>

interpretation rcu_mutex: locked_user mutex_init mutex_exec mutex_holds mutex_unlocks
  rcu_user_init "rcu_user_exec n" writing "rcu_acquires n" rcu_releases rcu_forget
  by (intro locked_user.intro mutex_lock.exclusive_lock_axioms rcu_writers.lock_user_axioms)

abbreviation rcu_mutex_exec ::
    "nat \<Rightarrow> (mutex_event, rcu_user_event) stack_event \<Rightarrow> (mutex_sys, rcu_user) stack \<Rightarrow>
      (mutex_sys, rcu_user) stack outcome" where
  "rcu_mutex_exec n \<equiv> stack_exec mutex_exec mutex_holds mutex_unlocks (rcu_user_exec n)
     (rcu_acquires n) rcu_releases rcu_forget"

section \<open>Properties\<close>


text \<open>Coroutine 7 owns the mutex, coroutine 8 waits for it.\<close>

definition rcu_turns :: "(mutex_event, rcu_user_event) stack_event list" where
  "rcu_turns = [Low (TryLock 7), Low (CoLock 8), Low (MStep 8 False), Low (MStep 8 False), Low (MStep 8 False)]"

lemma rcu_turns_run:
  "\<exists>s. run (rcu_mutex_exec 2) rcu_turns (stack_init mutex_init rcu_user_init) = Next s \<and>
     m_pc (lower s) 7 = M_Owner \<and> m_pc (lower s) 8 = M_Parked \<and> rcu_acquires 2 (Turn 7 1) (upper s) = Some 7"
  by (simp add: rcu_turns_def stack_init_def mutex_init_def mutex_step_defs rcu_user_init_def rcu_sys_init_def
      rcu_init_def writing_def)


end
