(* ===== verification/CondVarClient.thy ===== *)
theory CondVarClient
  imports CondVar
begin

text \<open>
  No wake-up is lost at a \<open>ConditionVariable<Lock>\<close>, for any client.

  The state of \<open>CondVar\<close> is extended by a history: \<open>owes\<close> are the coroutines that have changed the
  data since they last called \<open>notifyAll\<close>.  The history restricts nothing; it says what a client
  must have done for the sleepers to be woken.
\<close>

section \<open>A client and its debts\<close>

record 'd cv_client =
  cv :: "'d cv_sys"
  owes :: "nat set"

definition cv_client_init :: "'d \<Rightarrow> 'd cv_client" where
  "cv_client_init d = \<lparr>cv = cv_init d, owes = {}\<rparr>"

fun owes_after :: "'d cv_event \<Rightarrow> nat set \<Rightarrow> nat set" where
  "owes_after (Update t d) D = insert t D"
| "owes_after (NotifyAll t) D = D - {t}"
| "owes_after (Acquire t) D = D"
| "owes_after (Release t) D = D"
| "owes_after (Wait t) D = D"
| "owes_after (NotifyOne t) D = D"
| "owes_after (CvStep t b) D = D"
| "owes_after (CvUnlock t) D = D"

definition cv_client_exec ::
    "(nat \<Rightarrow> 'd \<Rightarrow> bool) \<Rightarrow> bool \<Rightarrow> bool \<Rightarrow> 'd cv_event \<Rightarrow> 'd cv_client \<Rightarrow> 'd cv_client outcome" where
  "cv_client_exec pred under_lock allow_one e s =
     map_next (\<lambda>c. \<lparr>cv = c, owes = owes_after e (owes s)\<rparr>) (cv_exec pred under_lock allow_one e (cv s))"

section \<open>What a step does to the stack of sleepers\<close>

lemma cv_step_shared: "cv_step pred t b p s = Next s' \<Longrightarrow> shared s' = shared s"
  by (cases p) (auto simp: cv_defs split: if_splits option.splits)

text \<open>Only the coroutine that pushes its awaiter comes on the stack.\<close>

lemma stack_step:
  assumes i: "cv_chains s stk own" and l: "locks_at under_lock s t"
    and step: "cv_step pred t b (cpc s t) s = Next s'" and c': "chain (cnext s') (awaiters s') stk'"
    and x: "x \<in> set stk'"
  shows "x \<in> set stk \<or> x = t \<and> (\<exists>a. cpc s t = C_Push a)"
proof -
  note c = chainsD [OF i]
  have same: "x \<in> set stk" if "chain (cnext s) (awaiters s) stk'"
    using chain_unique [OF c(1) that] x by simp
  show ?thesis
  proof (cases "cpc s t")
    case (C_Push a)
    then have t: "t \<notin> set stk" using c(5) [of t] by auto
    have upd: "chain ((cnext s)(t := v)) (awaiters s) stk" for v using c(1) t by simp
    show ?thesis
    proof (cases "awaiters s = a \<and> \<not> b")
      case True
      with C_Push step have "cnext s' = (cnext s)(t := a)" "awaiters s' = Some t" by (auto simp: cv_defs)
      with c' obtain r where r: "stk' = t # r" "chain ((cnext s)(t := a)) a r" by (auto simp: chain_Some)
      with chain_unique [OF upd [of a]] True have "r = stk" by metis
      with r x C_Push show ?thesis by auto
    next
      case False
      with C_Push step have "cnext s' = (cnext s)(t := a)" "awaiters s' = awaiters s" by (auto simp: cv_defs)
      with chain_unique [OF upd [of a]] c' x show ?thesis by auto
    qed
  next
    case (C_AllCas a)
    with step c' x same show ?thesis by (auto simp: cv_defs split: if_splits)
  next
    case (C_OneRead a)
    with step c' same show ?thesis by (auto simp: cv_defs split: option.splits if_splits)
  next
    case (C_OneCas a n)
    with l have one: "awaiters s = Some a" "n = cnext s a" by (simp_all add: locks_at_def)
    show ?thesis
    proof (cases b)
      case True
      with C_OneCas step c' same one show ?thesis by (auto simp: cv_defs)
    next
      case False
      with C_OneCas step one have "cnext s' = cnext s" "awaiters s' = cnext s a" by (auto simp: cv_defs)
      with c' one have "chain (cnext s) (awaiters s) (a # stk')" by simp
      from chain_unique [OF c(1) this] x show ?thesis by simp
    qed
  next
    case (C_OneClear a)
    with c(2) [of t] have "a \<in> set (own t)" by simp
    then have "a \<notin> set stk" by (rule c(3))
    then have "chain ((cnext s)(a := None)) (awaiters s) stk" using c(1) by simp
    with C_OneClear step c' chain_unique x show ?thesis by (fastforce simp: cv_defs split: if_splits)
  qed (use step c' same in \<open>auto simp: cv_defs split: option.splits if_splits\<close>)
qed

text \<open>A \<open>notifyAll\<close> that has not taken the list yet goes on trying, or takes all of it.\<close>

lemma all_cas_step:
  assumes "cv_step pred t b (cpc s t) s = Next s'" "cpc s t = C_AllCas a"
  shows "(\<exists>a'. cpc s' t = C_AllCas a') \<or> awaiters s' = None"
  using assms by (auto simp: cv_defs split: if_splits)

lemma cv_step_others:
  "cv_step pred t b p s = Next s' \<Longrightarrow> u \<noteq> t \<Longrightarrow> cpc s u = C_AllCas a \<Longrightarrow> cpc s' u = C_AllCas a"
  by (cases p) (auto simp: cv_defs split: if_splits option.splits)

section \<open>The invariant\<close>

definition announced :: "nat set \<Rightarrow> 'd cv_sys \<Rightarrow> bool" where
  "announced D s \<longleftrightarrow> D \<noteq> {} \<or> (\<exists>u a. cpc s u = C_AllCas a)"

definition no_lost :: "(nat \<Rightarrow> 'd \<Rightarrow> bool) \<Rightarrow> nat set \<Rightarrow> 'd cv_sys \<Rightarrow> bool" where
  "no_lost pred D s \<longleftrightarrow> (\<forall>stk t. chain (cnext s) (awaiters s) stk \<longrightarrow> t \<in> set stk \<longrightarrow>
     pred t (shared s) \<longrightarrow> announced D s)"

lemma no_lost_step:
  assumes inv: "cv_inv pred under_lock s" and nl: "no_lost pred D s"
    and step: "cv_step pred t b (cpc s t) s = Next s'"
  shows "no_lost pred D s'"
  unfolding no_lost_def
proof (intro allI impI)
  fix stk' x assume c': "chain (cnext s') (awaiters s') stk'" "x \<in> set stk'" "pred x (shared s')"
  from inv obtain stk own where i: "cv_chains s stk own" "locks_at under_lock s t" "cv_asleep pred s"
    by (auto simp: cv_inv_def cv_locks_def)
  have sh: "shared s' = shared s" by (rule cv_step_shared [OF step])
  have "\<not> (\<exists>a. cpc s t = C_Push a) \<or> x \<noteq> t" using i(3) c'(3) sh by (auto simp: cv_asleep_def)
  with stack_step [OF i(1,2) step c'(1,2)] have "x \<in> set stk" by blast
  with nl chainsD(1) [OF i(1)] c'(3) sh have ann: "announced D s" unfolding no_lost_def by metis
  show "announced D s'"
  proof (cases "\<exists>u a. u \<noteq> t \<and> cpc s u = C_AllCas a")
    case True
    with cv_step_others [OF step] show ?thesis unfolding announced_def by metis
  next
    case False
    with ann consider "D \<noteq> {}" | a where "cpc s t = C_AllCas a" unfolding announced_def by metis
    then show ?thesis
    proof cases
      case 2
      from all_cas_step [OF step this] c'(1,2) show ?thesis by (auto simp: announced_def)
    qed (simp add: announced_def)
  qed
qed

definition cv_client_inv :: "(nat \<Rightarrow> 'd \<Rightarrow> bool) \<Rightarrow> bool \<Rightarrow> 'd cv_client \<Rightarrow> bool" where
  "cv_client_inv pred under_lock s \<longleftrightarrow> cv_inv pred under_lock (cv s) \<and> no_lost pred (owes s) (cv s)"

lemma no_lost_cong:
  assumes "no_lost pred D s" "cnext s' = cnext s" "awaiters s' = awaiters s" "shared s' = shared s"
    "announced D s \<Longrightarrow> announced D' s'"
  shows "no_lost pred D' s'"
  using assms unfolding no_lost_def by auto

lemma announced_goto:
  assumes "announced D s" "cpc s t = C_Idle"
  shows "announced D (c_goto t p s)"
proof (cases "D = {}")
  case True
  with assms(1) obtain u a where u: "cpc s u = C_AllCas a" by (auto simp: announced_def)
  with assms(2) have "u \<noteq> t" by auto
  with u have "cpc (c_goto t p s) u = C_AllCas a" by simp
  then show ?thesis unfolding announced_def by blast
qed (simp add: announced_def)

lemma no_lost_exec:
  assumes inv: "cv_inv pred under_lock s" and nl: "no_lost pred D s"
    and step: "cv_exec pred under_lock allow_one e s = Next s'"
  shows "no_lost pred (owes_after e D) s'"
proof (cases e)
  case (CvStep t b)
  with no_lost_step [OF inv nl] step show ?thesis by simp
next
  case (Update t d)
  then show ?thesis by (auto simp: no_lost_def announced_def)
next
  case (NotifyAll t)
  with step show ?thesis by (auto simp: no_lost_def announced_def split: if_splits)
next
  case (Wait t)
  with step show ?thesis
    by (auto split: if_splits intro!: no_lost_cong [OF nl] announced_goto)
next
  case (NotifyOne t)
  with step show ?thesis
    by (auto simp del: fun_upd_apply split: if_splits intro!: no_lost_cong [OF nl] announced_goto)
qed (use step in \<open>auto simp: cv_unlock_def announced_def split: if_splits intro!: no_lost_cong [OF nl]\<close>)

lemma cv_client_safe:
  assumes "under_lock \<or> \<not> allow_one"
  shows "safe_machine (cv_client_init d) (cv_client_exec pred under_lock allow_one) (cv_client_inv pred under_lock)"
proof
  show "cv_client_inv pred under_lock (cv_client_init d)"
    using cv_inv_init by (auto simp: cv_client_inv_def cv_client_init_def no_lost_def cv_init_def)
  show "cv_client_inv pred under_lock s'"
    if "cv_client_inv pred under_lock s" "cv_client_exec pred under_lock allow_one e s = Next s'" for e s s'
    using that cv_exec_inv [OF _ assms] no_lost_exec by (auto simp: cv_client_inv_def cv_client_exec_def)
  show "cv_client_exec pred under_lock allow_one e s \<noteq> Fault f" if "cv_client_inv pred under_lock s" for e s f
    using that cv_exec_no_fault [of pred under_lock "cv s" allow_one e f] by (simp add: cv_client_inv_def cv_client_exec_def)
qed

interpretation cv_client_locked: safe_machine "cv_client_init d" "cv_client_exec pred True allow_one" "cv_client_inv pred True"
  by (rule cv_client_safe) simp

interpretation cv_client_all: safe_machine "cv_client_init d" "cv_client_exec pred False False" "cv_client_inv pred False"
  by (rule cv_client_safe) simp

section \<open>Properties\<close>

text \<open>
  Property C22 (no wake-up is lost). For clients that notify under the lock, and for clients that use
  \<open>notifyAll\<close> only: while a coroutine sleeps although its predicate holds, some coroutine that
  changed the data has not called \<open>notifyAll\<close> since, or a notification is in progress.  So when
  every change is followed by a \<open>notifyAll\<close>, sooner or later, and all of them have returned, every
  coroutine that still sleeps has a predicate that does not hold.
\<close>
theorem condvar_no_lost_wakeup:
  assumes "(under_lock \<or> \<not> allow_one)" and "reach (cv_client_exec pred under_lock allow_one) (cv_client_init d) s"
    and "cpc (cv s) t = C_Waiting" and "pred t (shared (cv s))"
  shows "owes s \<noteq> {} \<or> (\<exists>u. notify_pc (cpc (cv s) u) \<or> one_pc (cpc (cv s) u))"
proof -
  have inv: "cv_client_inv pred under_lock s"
    using safe_machine.axioms(1) [OF cv_client_safe [OF assms(1)]] assms(2) by (rule invariant_machine.reach_inv)
  then obtain stk own where i: "cv_chains (cv s) stk own" and nl: "no_lost pred (owes s) (cv s)"
    by (auto simp: cv_client_inv_def cv_inv_def)
  note c = chainsD [OF i]
  from c(5) [of t] assms(3) consider "t \<in> set stk" | u where "t \<in> set (own u)" by blast
  then show ?thesis
  proof cases
    case 1
    with nl c(1) assms(4) have "announced (owes s) (cv s)" unfolding no_lost_def by blast
    then show ?thesis unfolding announced_def by (metis notify_pc.simps(1))
  next
    case 2
    with c(2) [of u] have "notify_pc (cpc (cv s) u) \<or> one_pc (cpc (cv s) u)" by (cases "cpc (cv s) u") auto
    then show ?thesis by blast
  qed
qed

text \<open>Coroutine 0 sleeps, coroutine 1 has set the number it waits for and is in \<open>notifyAll\<close>.\<close>

definition cv_paid :: "nat cv_client" where
  "cv_paid = \<lparr>cv = cv_demo_waiting, owes = {}\<rparr>"

lemma cv_paid_reach: "reach (cv_client_exec (\<lambda>_ d. 0 < d) True True) (cv_client_init 0) cv_paid"
proof (rule run_reach [OF reach_init])
  show "run (cv_client_exec (\<lambda>_ d. 0 < d) True True)
      [Acquire 0, Wait 0, CvStep 0 False, CvStep 0 False, CvStep 0 False, CvUnlock 0, Acquire 1, Update 1 5, NotifyAll 1]
      (cv_client_init 0) = Next cv_paid"
    by (simp add: cv_client_exec_def cv_client_init_def cv_defs cv_init_def cv_paid_def cv_demo_waiting_def fun_upd_idem)
qed

theorem condvar_no_lost_wakeup_witness: "\<exists>u. notify_pc (cpc (cv cv_paid) u) \<or> one_pc (cpc (cv cv_paid) u)"
proof -
  have "cpc (cv cv_paid) 0 = C_Waiting" "0 < shared (cv cv_paid)" "owes cv_paid = {}"
    by (simp_all add: cv_paid_def cv_demo_waiting_def)
  with condvar_no_lost_wakeup [OF _ cv_paid_reach, of 0] show ?thesis by blast
qed

text \<open>
  Also shown (one \<open>notify_one\<close> is not enough). A client that changes the data for two sleepers and
  calls \<open>notifyOne\<close> only leaves the other one asleep with its predicate true and nobody to wake it:
  the debt stays.
\<close>
theorem condvar_notify_one_leaves_debt:
  "\<exists>es s. run (cv_client_exec (\<lambda>_ d. 0 < d) True True) es (cv_client_init (0 :: nat)) = Next s \<and>
     cpc (cv s) 0 = C_Waiting \<and> 0 < shared (cv s) \<and> owes s = {2} \<and> holder (cv s) = None \<and>
     (\<forall>u. \<not> notify_pc (cpc (cv s) u) \<and> \<not> one_pc (cpc (cv s) u))"
proof -
  let ?sleep = "\<lambda>t. [Acquire t, Wait t, CvStep t False, CvStep t False, CvStep t False, CvUnlock t]"
  let ?es = "?sleep 0 @ ?sleep 1 @ [Acquire 2, Update 2 5, NotifyOne 2, CvStep 2 False, CvStep 2 False, CvStep 2 False,
    CvStep 2 False, CvStep 2 False, Release 2]"
  obtain s where "run (cv_client_exec (\<lambda>_ d. 0 < d) True True) ?es (cv_client_init (0 :: nat)) = Next s"
    "cpc (cv s) = (\<lambda>_. C_Idle)(0 := C_Waiting, 1 := C_Relock)" "shared (cv s) = 5" "owes s = {2}" "holder (cv s) = None"
    by (simp add: cv_client_exec_def cv_client_init_def cv_defs cv_init_def fun_upd_idem fun_upd_twist
        del: bind_outcome_Next map_next_Next)
  then show ?thesis by (intro exI [of _ ?es] exI [of _ s]) simp
qed

end
