(* ===== verification/RcuCallback.thy ===== *)
theory RcuCallback
  imports Rcu
begin

text \<open>
  Deferred reclamation of \<^verbatim>\<open>src/rcu.cpp\<close>: the per-thread queue of
  \<open>rcu_head\<close>s, \<open>call_rcu\<close>, \<open>free_rcu\<close> and \<open>thread_call_rcu\<close>.

  \<open>h_next\<close>, \<open>h_version\<close> and \<open>h_func\<close> are the fields of every \<open>rcu_head\<close> in memory and
  \<open>h_freed\<close> the objects released so far; touching one of those is a fault.  The versions of
  the cores are an argument: they are what the loads of \<open>thread_call_rcu\<close> return.  The loop
  over the queue follows pointers, so it is a \<^theory_text>\<open>partial_function\<close>, whose value is
  \<open>None\<close> when it does not end.
\<close>

section \<open>State\<close>

datatype callback = FreeRcu | Callback nat

record rcu_queue =
  q_head :: "nat option"
  q_tail :: "nat option"
  q_count :: "64 word"

record rcu_cb = rcu_queue +
  h_next :: "nat \<Rightarrow> nat option"
  h_version :: "nat \<Rightarrow> 64 word"
  h_func :: "nat \<Rightarrow> callback"
  h_freed :: "nat set"
  cb_sequencer :: "64 word"
  invoked :: "nat list"       \<comment> \<open>heads whose callback has run, in order\<close>

section \<open>Operations\<close>

definition rcu_data_enqueue :: "nat \<Rightarrow> rcu_cb \<Rightarrow> 64 word \<times> rcu_cb" where
  "rcu_data_enqueue head s =
     (let s1 = (case q_tail s of
            None \<Rightarrow> s\<lparr>q_head := Some head, q_tail := Some head\<rparr>
          | Some t \<Rightarrow> s\<lparr>h_next := (h_next s)(t := Some head), q_tail := Some head\<rparr>);
          s2 = s1\<lparr>q_count := q_count s1 + 1\<rparr>
      in (q_count s2, s2))"

definition free_rcu_cb :: "nat \<Rightarrow> rcu_cb \<Rightarrow> rcu_cb" where
  "free_rcu_cb head s = s\<lparr>h_freed := insert head (h_freed s)\<rparr>"

definition invoke :: "nat \<Rightarrow> rcu_cb \<Rightarrow> rcu_cb" where
  "invoke head s =
     (let s1 = s\<lparr>invoked := invoked s @ [head]\<rparr>
      in case h_func s head of FreeRcu \<Rightarrow> free_rcu_cb head s1 | Callback _ \<Rightarrow> s1)"

definition UINT_MAX :: "64 word" where
  "UINT_MAX = 4294967295"

definition min_version :: "nat \<Rightarrow> nat \<Rightarrow> (nat \<Rightarrow> 64 word) \<Rightarrow> 64 word" where
  "min_version num_threads current_core vers =
     foldl (\<lambda>m i. if i = current_core then m else min m (vers i)) UINT_MAX [0..<num_threads]"

partial_function (option) reclaim_loop ::
    "64 word \<Rightarrow> nat option \<Rightarrow> rcu_cb \<Rightarrow> rcu_cb outcome option" where
  "reclaim_loop m node s = (case node of
      None \<Rightarrow> Some (Next s)
    | Some head \<Rightarrow>
        if head \<in> h_freed s then Some (Fault UseAfterFree)
        else (let node' = h_next s head
              in if h_version s head > m then Some (Next s)
                 else let s1 = (invoke head s)\<lparr>q_head := node'\<rparr>;
                          s2 = (if node' = None then s1\<lparr>q_tail := None\<rparr> else s1)
                      in reclaim_loop m node' s2))"

definition thread_call_rcu ::
    "nat \<Rightarrow> nat \<Rightarrow> (nat \<Rightarrow> 64 word) \<Rightarrow> rcu_cb \<Rightarrow> rcu_cb outcome option" where
  "thread_call_rcu num_threads current_core vers s =
     reclaim_loop (min_version num_threads current_core vers) (q_head s) s"

definition call_rcu ::
    "nat \<Rightarrow> nat \<Rightarrow> (nat \<Rightarrow> 64 word) \<Rightarrow> nat \<Rightarrow> callback \<Rightarrow> rcu_cb \<Rightarrow> rcu_cb outcome option" where
  "call_rcu num_threads current_core vers head func s =
     (let writer_version = cb_sequencer s + 1;
          s1 = s\<lparr>cb_sequencer := writer_version, h_version := (h_version s)(head := writer_version),
                 h_func := (h_func s)(head := func)\<rparr>;
          (cnt, s2) = rcu_data_enqueue head s1
      in if cnt \<ge> 1024 then thread_call_rcu num_threads current_core vers s2 else Some (Next s2))"

definition free_rcu ::
    "nat \<Rightarrow> nat \<Rightarrow> (nat \<Rightarrow> 64 word) \<Rightarrow> nat \<Rightarrow> rcu_cb \<Rightarrow> rcu_cb outcome option" where
  "free_rcu num_threads current_core vers head s =
     call_rcu num_threads current_core vers head FreeRcu s"

section \<open>The queue as a list\<close>

definition queue_rep :: "rcu_cb \<Rightarrow> nat list \<Rightarrow> bool" where
  "queue_rep s xs \<longleftrightarrow> chain (h_next s) (q_head s) xs \<and>
     q_tail s = (if xs = [] then None else Some (last xs)) \<and> set xs \<inter> h_freed s = {}"

definition queue_sorted :: "rcu_cb \<Rightarrow> nat list \<Rightarrow> bool" where
  "queue_sorted s xs \<longleftrightarrow> sorted_wrt (<) (map (h_version s) xs) \<and>
     (\<forall>h \<in> set xs. h_version s h \<le> cb_sequencer s)"

lemma chain_last: "chain nx p xs \<Longrightarrow> xs \<noteq> [] \<Longrightarrow> nx (last xs) = None"
  by (induction xs arbitrary: p) auto

lemma chain_snoc:
  assumes "chain nx p xs" "xs \<noteq> []" "h \<notin> set xs" "nx h = None"
  shows "chain (nx(last xs := Some h)) p (xs @ [h])"
  using assms(1) assms(2,3) chain_distinct [OF assms(1)]
proof (induction xs arbitrary: p)
  case (Cons a xs)
  show ?case
  proof (cases "xs = []")
    case True
    with Cons.prems assms(4) show ?thesis by auto
  next
    case False
    with Cons.prems have "last xs \<noteq> a" by auto
    with Cons False show ?thesis by simp
  qed
qed simp

lemma enqueue_rep:
  assumes "queue_rep s xs" "head \<notin> set xs" "head \<notin> h_freed s" "h_next s head = None"
  shows "queue_rep (snd (rcu_data_enqueue head s)) (xs @ [head])"
proof (cases "xs = []")
  case True
  with assms show ?thesis by (simp add: queue_rep_def rcu_data_enqueue_def Let_def)
next
  case False
  with assms chain_snoc [of "h_next s" "q_head s" xs head] show ?thesis
    by (cases "q_head s") (auto simp: queue_rep_def rcu_data_enqueue_def Let_def)
qed

lemma enqueue_frame [simp]:
  "cb_sequencer (snd (rcu_data_enqueue head s)) = cb_sequencer s"
  "h_version (snd (rcu_data_enqueue head s)) = h_version s"
  "h_freed (snd (rcu_data_enqueue head s)) = h_freed s"
  "h_func (snd (rcu_data_enqueue head s)) = h_func s"
  "invoked (snd (rcu_data_enqueue head s)) = invoked s"
  "q_count (snd (rcu_data_enqueue head s)) = q_count s + 1"
  "fst (rcu_data_enqueue head s) = q_count s + 1"
  by (simp_all add: rcu_data_enqueue_def Let_def split: option.split)

lemma invoke_frame [simp]:
  "h_next (invoke h s) = h_next s" "h_version (invoke h s) = h_version s"
  "h_func (invoke h s) = h_func s" "q_tail (invoke h s) = q_tail s"
  "q_count (invoke h s) = q_count s" "cb_sequencer (invoke h s) = cb_sequencer s"
  "invoked (invoke h s) = invoked s @ [h]"
  "h_freed (invoke h s) = (if h_func s h = FreeRcu then insert h (h_freed s) else h_freed s)"
  by (simp_all add: invoke_def free_rcu_cb_def Let_def split: callback.split)

text \<open>
  The loop ends and serves the longest prefix of the queue whose versions are at most \<open>m\<close>.
\<close>

lemma reclaim_loop_spec:
  assumes "queue_rep s xs"
  shows "\<exists>s'. reclaim_loop m (q_head s) s = Some (Next s') \<and>
    queue_rep s' (dropWhile (\<lambda>h. h_version s h \<le> m) xs) \<and>
    invoked s' = invoked s @ takeWhile (\<lambda>h. h_version s h \<le> m) xs \<and>
    h_freed s' = h_freed s \<union> {h \<in> set (takeWhile (\<lambda>h. h_version s h \<le> m) xs). h_func s h = FreeRcu} \<and>
    h_version s' = h_version s \<and> h_next s' = h_next s \<and> h_func s' = h_func s \<and>
    cb_sequencer s' = cb_sequencer s \<and> q_count s' = q_count s"
  using assms
proof (induction xs arbitrary: s)
  case Nil
  then have "q_head s = None" by (simp add: queue_rep_def)
  with Nil show ?case by (simp add: reclaim_loop.simps [of m None])
next
  case (Cons a xs)
  then have q: "q_head s = Some a" "chain (h_next s) (h_next s a) xs" "a \<notin> h_freed s"
    by (auto simp: queue_rep_def)
  have a: "a \<notin> set xs" using q(2) by (rule chain_not_in_tail)
  show ?case
  proof (cases "h_version s a \<le> m")
    case False
    then have "m < h_version s a" by simp
    with q Cons.prems show ?thesis by (simp add: reclaim_loop.simps [of m "Some a"] Let_def)
  next
    case True
    define s1 where "s1 = (invoke a s)\<lparr>q_head := h_next s a\<rparr>"
    define s2 where "s2 = (if h_next s a = None then s1\<lparr>q_tail := None\<rparr> else s1)"
    have f: "q_head s2 = h_next s a" "h_next s2 = h_next s" "h_version s2 = h_version s"
      "h_func s2 = h_func s" "cb_sequencer s2 = cb_sequencer s" "q_count s2 = q_count s"
      "invoked s2 = invoked s @ [a]" "h_freed s2 = (if h_func s a = FreeRcu then insert a (h_freed s) else h_freed s)"
      by (simp_all add: s2_def s1_def)
    have "q_tail s2 = (if xs = [] then None else Some (last xs))"
      using Cons.prems q(2) by (cases xs) (auto simp: s2_def s1_def queue_rep_def)
    with q Cons.prems a f have "queue_rep s2 xs" by (auto simp: queue_rep_def)
    note ih = Cons.IH [OF this, unfolded f]
    have "\<not> m < h_version s a" using True by simp
    then have step: "reclaim_loop m (q_head s) s = reclaim_loop m (h_next s a) s2"
      using q by (simp add: reclaim_loop.simps [of m "Some a"] Let_def s2_def s1_def)
    show ?thesis using ih True unfolding step by auto
  qed
qed

lemma min_version_le:
  "min_version n c vers \<le> UINT_MAX"
  "i < n \<Longrightarrow> i \<noteq> c \<Longrightarrow> min_version n c vers \<le> vers i"
proof -
  let ?f = "\<lambda>m i. if i = c then m else min m (vers i)"
  have le: "foldl ?f a xs \<le> a" for a xs
    by (induction xs arbitrary: a) (auto intro: order_trans [OF _ min.cobounded1])
  then show "min_version n c vers \<le> UINT_MAX" by (simp add: min_version_def)
  have "i \<in> set xs \<Longrightarrow> i \<noteq> c \<Longrightarrow> foldl ?f a xs \<le> vers i" for a xs
  proof (induction xs arbitrary: a)
    case (Cons x xs)
    show ?case
    proof (cases "x = i")
      case True
      with Cons.prems(2) le [of "min a (vers i)" xs] show ?thesis by simp
    next
      case False
      with Cons show ?thesis by simp
    qed
  qed simp
  then show "i < n \<Longrightarrow> i \<noteq> c \<Longrightarrow> min_version n c vers \<le> vers i" by (simp add: min_version_def)
qed


text \<open>The queue a sequence of \<open>call_rcu\<close> builds, with its versions in increasing order.\<close>

definition cb_inv :: "rcu_cb \<Rightarrow> nat list \<Rightarrow> bool" where
  "cb_inv s xs \<longleftrightarrow> queue_rep s xs \<and> queue_sorted s xs"

text \<open>What the caller owes: a fresh object, not queued, with its link cleared.\<close>

definition fresh_head :: "nat \<Rightarrow> rcu_cb \<Rightarrow> nat list \<Rightarrow> bool" where
  "fresh_head h s xs \<longleftrightarrow> h \<notin> set xs \<and> h \<notin> h_freed s \<and> h_next s h = None"

lemma sorted_wrt_dropWhile: "sorted_wrt P xs \<Longrightarrow> sorted_wrt P (dropWhile Q xs)"
  by (induction xs) auto

lemma queue_sorted_drop:
  assumes "queue_sorted s xs" "h_version s' = h_version s" "cb_sequencer s' = cb_sequencer s"
  shows "queue_sorted s' (dropWhile P xs)"
  using assms
  by (auto simp: queue_sorted_def sorted_wrt_map sorted_wrt_dropWhile dest: set_dropWhileD)

text \<open>On an ordered queue the served prefix is everything that is old enough.\<close>

lemma takeWhile_sorted:
  fixes f :: "'a \<Rightarrow> 'b::linorder"
  shows "sorted_wrt (<) (map f xs) \<Longrightarrow> set (takeWhile (\<lambda>h. f h \<le> m) xs) = {h \<in> set xs. f h \<le> m}"
  by (induction xs) (force simp: less_le_trans)+

lemma call_rcu_enqueued:
  assumes inv: "cb_inv s xs" and fresh: "fresh_head h s xs"
    and room: "unat (cb_sequencer s) < 2 ^ 64 - 1"
  shows "cb_inv (snd (rcu_data_enqueue h (s\<lparr>cb_sequencer := cb_sequencer s + 1,
      h_version := (h_version s)(h := cb_sequencer s + 1), h_func := (h_func s)(h := f)\<rparr>))) (xs @ [h])"
    (is "cb_inv (snd (rcu_data_enqueue h ?s)) _")
proof -
  have "queue_rep ?s xs" using inv by (simp add: cb_inv_def queue_rep_def)
  then have "queue_rep (snd (rcu_data_enqueue h ?s)) (xs @ [h])"
    using fresh by (intro enqueue_rep) (auto simp: fresh_head_def)
  moreover have "unat (cb_sequencer s + 1) = Suc (unat (cb_sequencer s))"
    using room by (rule unat_succ_64)
  then have lt: "cb_sequencer s < cb_sequencer s + 1" by (simp add: word_less_nat_alt)
  then have "\<forall>x \<in> set xs. h_version s x < cb_sequencer s + 1"
    using inv by (auto simp: cb_inv_def queue_sorted_def intro: le_less_trans)
  with inv fresh have "queue_sorted (snd (rcu_data_enqueue h ?s)) (xs @ [h])"
    by (auto simp: cb_inv_def queue_sorted_def sorted_wrt_append sorted_wrt_map fresh_head_def
        intro: less_imp_le)
  ultimately show ?thesis by (simp add: cb_inv_def)
qed

section \<open>Properties\<close>

text \<open>
  Property C32 (\<open>thread_call_rcu\<close>). On a queue in the order of its versions the function
  returns, runs the callbacks of exactly the queued objects whose version is at most the smallest
  version of the other cores (capped at \<open>UINT_MAX\<close>), in queue order, touches no released object,
  and leaves the others queued in order.
\<close>
theorem thread_call_rcu_correct:
  assumes "cb_inv s xs"
  shows "\<exists>s' done'. thread_call_rcu n c vers s = Some (Next s') \<and> invoked s' = invoked s @ done' \<and>
    set done' = {h \<in> set xs. h_version s h \<le> min_version n c vers} \<and>
    cb_inv s' (dropWhile (\<lambda>h. h_version s h \<le> min_version n c vers) xs) \<and>
    xs = done' @ dropWhile (\<lambda>h. h_version s h \<le> min_version n c vers) xs"
proof -
  let ?m = "min_version n c vers"
  let ?P = "\<lambda>h. h_version s h \<le> ?m"
  from assms have rep: "queue_rep s xs" and sorted: "queue_sorted s xs" by (auto simp: cb_inv_def)
  from reclaim_loop_spec [OF rep, of ?m] obtain s' where
    s': "reclaim_loop ?m (q_head s) s = Some (Next s')" "queue_rep s' (dropWhile ?P xs)"
      "invoked s' = invoked s @ takeWhile ?P xs" "h_version s' = h_version s"
      "cb_sequencer s' = cb_sequencer s" by blast
  have "cb_inv s' (dropWhile ?P xs)"
    using s' queue_sorted_drop [OF sorted] by (simp add: cb_inv_def)
  moreover have "set (takeWhile ?P xs) = {h \<in> set xs. ?P h}"
    using sorted by (intro takeWhile_sorted) (simp add: queue_sorted_def)
  ultimately show ?thesis using s'
    by (intro exI [of _ s'] exI [of _ "takeWhile ?P xs"]) (simp add: thread_call_rcu_def)
qed

text \<open>Two queued objects, 7 (version 1) and 9 (version 2), on core 0.\<close>

definition two_queued :: rcu_cb where
  "two_queued = \<lparr>q_head = Some 7, q_tail = Some 9, q_count = 2, h_next = (\<lambda>_. None)(7 := Some 9),
     h_version = (\<lambda>_. 0)(7 := 1, 9 := 2), h_func = (\<lambda>_. FreeRcu), h_freed = {},
     cb_sequencer = 2, invoked = []\<rparr>"

lemma two_queued_inv: "cb_inv two_queued [7, 9]"
  by (simp add: cb_inv_def queue_rep_def queue_sorted_def two_queued_def)

definition one_left :: rcu_cb where
  "one_left = two_queued\<lparr>q_head := Some 9, h_freed := {7}, invoked := [7]\<rparr>"

lemma min_version_two: "min_version 2 0 (\<lambda>_. 1) = 1"
  by (simp add: min_version_def upt_rec UINT_MAX_def min_def word_le_nat_alt)

lemma not_two_le_one: "\<not> 2 \<le> (1 :: 64 word)" "(1 :: 64 word) < 2"
  by (simp_all add: word_le_nat_alt word_less_nat_alt)

lemma two_queued_run: "thread_call_rcu 2 0 (\<lambda>_. 1) two_queued = Some (Next one_left)"
  using not_two_le_one
  by (simp add: thread_call_rcu_def min_version_two reclaim_loop.simps [of _ "Some 7"]
      reclaim_loop.simps [of _ "Some 9"] two_queued_def one_left_def invoke_def free_rcu_cb_def Let_def)

theorem thread_call_rcu_correct_witness:
  "\<exists>done'. invoked one_left = done' \<and> set done' = {7}"
proof -
  have e: "{h \<in> set [7, 9]. h_version two_queued h \<le> 1} = {7}" "invoked two_queued = []"
    using not_two_le_one by (auto simp: two_queued_def)
  show ?thesis
    using thread_call_rcu_correct [OF two_queued_inv, of 2 0 "\<lambda>_. 1"] two_queued_run
    by (simp only: min_version_two e) auto
qed

text \<open>
  Also shown (reclamation is safe). An object whose callback \<open>thread_call_rcu\<close> runs has a
  version that every other core has reached, so each of them has begun a section or gone offline
  after the object was handed to \<open>call_rcu\<close>.
\<close>
theorem thread_call_rcu_safe:
  assumes "cb_inv s xs" and "thread_call_rcu n c vers s = Some (Next s')"
    and "h \<in> set (invoked s')" and "h \<notin> set (invoked s)" and "i < n" and "i \<noteq> c"
  shows "h \<in> set xs \<and> h_version s h \<le> vers i"
proof -
  from assms(1) have "queue_rep s xs" by (simp add: cb_inv_def)
  from reclaim_loop_spec [OF this, of "min_version n c vers"] assms(2)
  have "invoked s' = invoked s @ takeWhile (\<lambda>h. h_version s h \<le> min_version n c vers) xs"
    by (auto simp: thread_call_rcu_def)
  with assms(3,4) have h: "h \<in> set xs" "h_version s h \<le> min_version n c vers"
    by (auto dest: set_takeWhileD)
  from h(2) min_version_le(2) [OF assms(5,6)] have "h_version s h \<le> vers i" by (rule order_trans)
  with h(1) show ?thesis ..
qed

theorem thread_call_rcu_safe_witness: "7 \<in> set [7, 9::nat] \<and> h_version two_queued 7 \<le> 1"
  by (rule thread_call_rcu_safe [OF two_queued_inv two_queued_run, where i = 1])
    (simp_all add: one_left_def two_queued_def)

text \<open>
  Also shown (\<open>call_rcu\<close> queues at the end). While the counter stays below 1024, handing a
  fresh object to \<open>call_rcu\<close> gives it the next version of the sequencer, appends it to the queue
  and runs no callback.
\<close>
theorem call_rcu_queues:
  assumes "cb_inv s xs" and "fresh_head h s xs" and "unat (cb_sequencer s) < 2 ^ 64 - 1"
    and "q_count s + 1 < 1024"
  shows "\<exists>s'. call_rcu n c vers h f s = Some (Next s') \<and> cb_inv s' (xs @ [h]) \<and>
    h_version s' h = cb_sequencer s + 1 \<and> h_func s' h = f \<and> q_count s' = q_count s + 1 \<and>
    invoked s' = invoked s"
  using call_rcu_enqueued [OF assms(1-3), of f] assms(4)
  by (auto simp: call_rcu_def Let_def prod.case_eq_if not_le)

theorem call_rcu_queues_witness:
  "\<exists>s'. call_rcu 2 0 (\<lambda>_. 0) 4 FreeRcu two_queued = Some (Next s') \<and> cb_inv s' [7, 9, 4]"
proof -
  have "fresh_head 4 two_queued [7, 9]" by (simp add: fresh_head_def two_queued_def)
  moreover have "unat (cb_sequencer two_queued) < 2 ^ 64 - 1" "q_count two_queued + 1 < 1024"
    by (simp_all add: two_queued_def)
  ultimately show ?thesis using call_rcu_queues [OF two_queued_inv, of 4] by fastforce
qed

text \<open>
  Property C40 (versions beyond \<open>UINT_MAX\<close> are never reclaimed). \<open>thread_call_rcu\<close> starts
  its minimum at \<open>UINT_MAX\<close>, so an object whose 64-bit version is larger stays queued even when
  every core is offline.
\<close>
theorem thread_call_rcu_uint_max:
  assumes "cb_inv s (h # xs)" and "UINT_MAX < h_version s h"
  shows "thread_call_rcu n c (\<lambda>_. DONE) s = Some (Next s)"
proof -
  from assms(1) have q: "q_head s = Some h" "h \<notin> h_freed s" by (auto simp: cb_inv_def queue_rep_def)
  have "min_version n c (\<lambda>_. DONE) < h_version s h"
    using min_version_le(1) assms(2) by (rule le_less_trans)
  with q show ?thesis
    by (simp add: thread_call_rcu_def reclaim_loop.simps [of _ "Some h"] Let_def)
qed

theorem thread_call_rcu_uint_max_witness:
  "thread_call_rcu 2 0 (\<lambda>_. DONE) (two_queued\<lparr>h_version := (\<lambda>_. 0)(7 := 4294967296, 9 := 4294967297),
       cb_sequencer := 4294967297\<rparr>) =
     Some (Next (two_queued\<lparr>h_version := (\<lambda>_. 0)(7 := 4294967296, 9 := 4294967297),
       cb_sequencer := 4294967297\<rparr>))"
  by (rule thread_call_rcu_uint_max [where xs = "[9]" and h = 7])
    (simp_all add: cb_inv_def queue_rep_def queue_sorted_def two_queued_def UINT_MAX_def)

text \<open>
  Also shown (the counter only grows). \<open>thread_call_rcu\<close> never lowers \<open>count\<close>, so from the
  1024th object on every \<open>call_rcu\<close> scans all cores and the queue, however short the queue is.
\<close>
theorem call_rcu_always_reclaims:
  assumes "cb_inv s xs" and "fresh_head h s xs" and "unat (cb_sequencer s) < 2 ^ 64 - 1"
    and "1024 \<le> q_count s" and "q_count s < 2 ^ 63"
  shows "\<exists>s1 s'. call_rcu n c vers h f s = thread_call_rcu n c vers s1 \<and>
    thread_call_rcu n c vers s1 = Some (Next s') \<and> q_count s' = q_count s + 1 \<and> 1024 \<le> q_count s'"
proof -
  let ?s = "s\<lparr>cb_sequencer := cb_sequencer s + 1,
      h_version := (h_version s)(h := cb_sequencer s + 1), h_func := (h_func s)(h := f)\<rparr>"
  let ?s1 = "snd (rcu_data_enqueue h ?s)"
  have "cb_inv ?s1 (xs @ [h])" using call_rcu_enqueued [OF assms(1-3)] .
  then have "queue_rep ?s1 (xs @ [h])" by (simp add: cb_inv_def)
  from reclaim_loop_spec [OF this, of "min_version n c vers"] obtain s' where
    s': "thread_call_rcu n c vers ?s1 = Some (Next s')" "q_count s' = q_count ?s1"
    by (auto simp: thread_call_rcu_def)
  have "unat (q_count s + 1) = Suc (unat (q_count s))"
    using assms(5) by (intro unat_succ_64) (simp add: word_less_nat_alt)
  then have "1024 \<le> q_count s + 1" using assms(4) by (simp add: word_le_nat_alt)
  then have "call_rcu n c vers h f s = thread_call_rcu n c vers ?s1"
    by (simp add: call_rcu_def Let_def prod.case_eq_if)
  with s' \<open>1024 \<le> q_count s + 1\<close> show ?thesis
    by (intro exI [of _ ?s1] exI [of _ s']) simp
qed

theorem call_rcu_always_reclaims_witness:
  "\<exists>s1 s'. call_rcu 2 0 (\<lambda>_. 0) 4 FreeRcu (two_queued\<lparr>q_count := 1024\<rparr>) = thread_call_rcu 2 0 (\<lambda>_. 0) s1 \<and>
     thread_call_rcu 2 0 (\<lambda>_. 0) s1 = Some (Next s') \<and> q_count s' = 1025"
proof -
  let ?s = "two_queued\<lparr>q_count := 1024\<rparr>"
  have "cb_inv ?s [7, 9]" using two_queued_inv by (simp add: cb_inv_def queue_rep_def queue_sorted_def)
  moreover have "fresh_head 4 ?s [7, 9]" by (simp add: fresh_head_def two_queued_def)
  moreover have "unat (cb_sequencer ?s) < 2 ^ 64 - 1" "1024 \<le> q_count ?s" "q_count ?s < 2 ^ 63"
    by (simp_all add: two_queued_def)
  ultimately show ?thesis using call_rcu_always_reclaims [of ?s "[7, 9]" 4 2 0 "\<lambda>_. 0" FreeRcu] by auto
qed

text \<open>
  Also shown (the link of a new object is not cleared). \<open>rcu_data_enqueue\<close> leaves the field
  \<open>next\<close> of the object it appends as the caller passed it; when it holds a stale pointer to a
  released object, the next reclamation follows it.
\<close>
theorem enqueue_stale_next:
  "\<exists>s s1. h_next s 5 = Some 3 \<and> q_head s = None \<and> q_tail s = None \<and>
     free_rcu 2 0 (\<lambda>_. DONE) 5 s = Some (Next s1) \<and>
     thread_call_rcu 2 0 (\<lambda>_. DONE) s1 = Some (Fault UseAfterFree)"
proof -
  define s where "s = \<lparr>q_head = None, q_tail = None, q_count = 0, h_next = (\<lambda>_. None)(5 := Some 3),
     h_version = (\<lambda>_. 0), h_func = (\<lambda>_. Callback 0), h_freed = {3}, cb_sequencer = 0, invoked = []\<rparr>"
  define s1 where "s1 = \<lparr>q_head = Some 5, q_tail = Some 5, q_count = 1, h_next = (\<lambda>_. None)(5 := Some 3),
     h_version = (\<lambda>_. 0)(5 := 1), h_func = (\<lambda>_. Callback 0)(5 := FreeRcu), h_freed = {3}, cb_sequencer = 1, invoked = []\<rparr>"
  have "free_rcu 2 0 (\<lambda>_. DONE) 5 s = Some (Next s1)"
    by (simp add: free_rcu_def call_rcu_def rcu_data_enqueue_def Let_def s_def s1_def not_le
        word_le_nat_alt)
  moreover have "thread_call_rcu 2 0 (\<lambda>_. DONE) s1 = Some (Fault UseAfterFree)"
    by (simp add: thread_call_rcu_def reclaim_loop.simps [of _ "Some 5"] reclaim_loop.simps [of _ "Some 3"]
        s1_def Let_def min_version_def upt_rec UINT_MAX_def DONE_def invoke_def free_rcu_cb_def
        min_def word_le_nat_alt word_less_nat_alt)
  ultimately show ?thesis by (intro exI [of _ s] exI [of _ s1]) (simp add: s_def)
qed

end
