(* ===== verification/RcuReclaim.thy ===== *)
theory RcuReclaim
  imports RcuClient RcuCallback
begin

text \<open>
  Deferred reclamation with concurrent readers: the read side of \<^verbatim>\<open>src/rcu.cpp\<close> and its
  \<open>call_rcu\<close>, \<open>free_rcu\<close> and \<open>thread_call_rcu\<close> at work together.

  Any number of cores run readers, and updates that take turns under a mutex to replace the object
  the pointer refers to; after the mutex is released, an update hands the old object to
  \<open>free_rcu\<close>.  Every core has its own queue (\<open>rcu_data\<close> is \<open>thread_local\<close>), so several cores queue
  and reclaim at the same time.  The loads of \<open>thread_call_rcu\<close> are steps of their own; its loop
  over the core's own queue is the one of the theory of the callbacks, in one step.  Objects that
  were released are not allocated again, and a new object has a null \<open>next\<close>.  \<open>role\<close> is a ghost
  field that says what has become of an object.
\<close>

section \<open>State and steps\<close>

datatype upd_pc =
    U_Idle
  | U_Locked nat               \<comment> \<open>with the new object: before \<open>old = rcu_dereference(gp)\<close>\<close>
  | U_Publish nat nat          \<comment> \<open>old and new: before \<open>rcu_assign_pointer(gp, new)\<close>\<close>
  | U_Unlock nat nat           \<comment> \<open>before the mutex is released\<close>
  | U_Call nat                 \<comment> \<open>before \<open>free_rcu(old)\<close>\<close>
  | U_Scan nat "64 word"       \<comment> \<open>in \<open>thread_call_rcu\<close>, with \<open>i\<close> and \<open>min_version\<close>\<close>

datatype obj_role = Ro_Fresh | Ro_New nat | Ro_Current | Ro_Retiring nat | Ro_Queued nat | Ro_Freed

record reclaim_sys =
  sys :: rcu_sys
  heads :: rcu_cb                  \<comment> \<open>the \<open>rcu_head\<close>s; its queue is the one used last\<close>
  data :: "nat \<Rightarrow> rcu_queue"       \<comment> \<open>\<open>rcu_data\<close> of the thread on each core\<close>
  upc :: "nat \<Rightarrow> upd_pc"
  mutex_owner :: "nat option"
  role :: "nat \<Rightarrow> obj_role"

definition empty_queue :: rcu_queue where
  "empty_queue = \<lparr>q_head = None, q_tail = None, q_count = 0\<rparr>"

definition reclaim_init :: reclaim_sys where
  "reclaim_init = \<lparr>sys = rcu_sys_init,
     heads = rcu_queue.extend empty_queue
       (rcu_cb.fields (\<lambda>_. None) (\<lambda>_. 0) (\<lambda>_. FreeRcu) {} 0 []),
     data = (\<lambda>_. empty_queue), upc = (\<lambda>_. U_Idle), mutex_owner = None,
     role = (\<lambda>p. if p = 0 then Ro_Current else Ro_Fresh)\<rparr>"

text \<open>The heads with the queue of core \<open>c\<close>, and back.\<close>

definition focus :: "nat \<Rightarrow> reclaim_sys \<Rightarrow> rcu_cb" where
  "focus c s = (heads s)\<lparr>q_head := q_head (data s c), q_tail := q_tail (data s c), q_count := q_count (data s c)\<rparr>"

definition unfocus :: "nat \<Rightarrow> rcu_cb \<Rightarrow> reclaim_sys \<Rightarrow> reclaim_sys" where
  "unfocus c h s = s\<lparr>heads := h,
     data := (data s)(c := \<lparr>q_head = q_head h, q_tail = q_tail h, q_count = q_count h\<rparr>)\<rparr>"

abbreviation u_goto :: "nat \<Rightarrow> upd_pc \<Rightarrow> reclaim_sys \<Rightarrow> reclaim_sys" where
  "u_goto c p s \<equiv> s\<lparr>upc := (upc s)(c := p)\<rparr>"

text \<open>A reader in its section uses the object it holds; the other steps are those of \<open>rcu_read_lock\<close>.\<close>

definition reader_use :: "nat \<Rightarrow> reclaim_sys \<Rightarrow> reclaim_sys outcome" where
  "reader_use c s = (case rpc (sys s) c of
      R_In (Some p) \<Rightarrow> if p \<in> h_freed (heads s) then Fault UseAfterFree else Next s
    | _ \<Rightarrow> map_next (\<lambda>y. s\<lparr>sys := y\<rparr>) (reader_step c (sys s)))"

text \<open>\<open>free_rcu\<close> up to the test of the count.\<close>

definition free_rcu_step :: "nat \<Rightarrow> nat \<Rightarrow> reclaim_sys \<Rightarrow> reclaim_sys outcome" where
  "free_rcu_step c head s = (case sync_begin c (sys s) of
      None \<Rightarrow> Blocked
    | Some (writer_version, y) \<Rightarrow>
        let h0 = focus c s;
            h1 = h0\<lparr>h_version := (h_version h0)(head := writer_version), h_func := (h_func h0)(head := FreeRcu)\<rparr>;
            (cnt, h2) = rcu_data_enqueue head h1
        in Next (u_goto c (if cnt \<ge> 1024 then U_Scan 0 UINT_MAX else U_Idle)
                   (unfocus c h2 (s\<lparr>sys := y, role := (role s)(head := Ro_Queued c)\<rparr>))))"

definition reclaim_finish :: "nat \<Rightarrow> 64 word \<Rightarrow> reclaim_sys \<Rightarrow> reclaim_sys outcome" where
  "reclaim_finish c m s = (case reclaim_loop m (q_head (data s c)) (focus c s) of
      None \<Rightarrow> Blocked
    | Some r \<Rightarrow> map_next (\<lambda>h. u_goto c U_Idle
        (unfocus c h (s\<lparr>role := (\<lambda>p. if p \<in> h_freed h then Ro_Freed else role s p)\<rparr>))) r)"

definition scan_step :: "nat \<Rightarrow> nat \<Rightarrow> nat \<Rightarrow> 64 word \<Rightarrow> reclaim_sys \<Rightarrow> reclaim_sys outcome" where
  "scan_step n c i m s =
     (if \<not> i < n then reclaim_finish c m s
      else Next (u_goto c (U_Scan (Suc i) (if i = c then m else min m (versions (sys s) i))) s))"

fun upd_step :: "nat \<Rightarrow> nat \<Rightarrow> upd_pc \<Rightarrow> reclaim_sys \<Rightarrow> reclaim_sys outcome" where
  "upd_step n c U_Idle s = Blocked"
| "upd_step n c (U_Locked new) s = Next (u_goto c (U_Publish (rcu_dereference c (sys s)) new) s)"
| "upd_step n c (U_Publish old new) s =
     Next (u_goto c (U_Unlock old new) (s\<lparr>sys := rcu_assign_pointer c new (sys s),
       role := (role s)(new := Ro_Current, old := Ro_Retiring c)\<rparr>))"
| "upd_step n c (U_Unlock old new) s =
     (if buf (sys s) c = [] then Next (u_goto c (U_Call old) (s\<lparr>mutex_owner := None\<rparr>)) else Blocked)"
| "upd_step n c (U_Call old) s = free_rcu_step c old s"
| "upd_step n c (U_Scan i m) s = scan_step n c i m s"

datatype reclaim_event =
    Re_Lock nat | Re_Read nat | Re_Unlock nat | Re_Offline nat | Re_Drain nat | Re_Sync nat
  | Re_Update nat nat | Re_Reclaim nat | Re_Step nat

text \<open>
  The updates and \<open>thread_call_rcu\<close> on a core run outside its read-side sections, because a core
  runs one coroutine at a time and sections are closed before a coroutine suspends.
\<close>

fun reclaim_exec :: "nat \<Rightarrow> reclaim_event \<Rightarrow> reclaim_sys \<Rightarrow> reclaim_sys outcome" where
  "reclaim_exec n (Re_Lock c) s =
     (if c < n then map_next (\<lambda>y. s\<lparr>sys := y\<rparr>) (reader_lock c (sys s)) else Blocked)"
| "reclaim_exec n (Re_Read c) s = reader_use c s"
| "reclaim_exec n (Re_Unlock c) s = map_next (\<lambda>y. s\<lparr>sys := y\<rparr>) (reader_unlock c (sys s))"
| "reclaim_exec n (Re_Offline c) s = map_next (\<lambda>y. s\<lparr>sys := y\<rparr>) (core_offline False c (sys s))"
| "reclaim_exec n (Re_Drain c) s = map_next (\<lambda>y. s\<lparr>sys := y\<rparr>) (flush c (sys s))"
| "reclaim_exec n (Re_Sync c) s = map_next (\<lambda>y. s\<lparr>sys := y\<rparr>) (other_sync c (sys s))"
| "reclaim_exec n (Re_Update c new) s =
     (if c < n \<and> upc s c = U_Idle \<and> mutex_owner s = None \<and> role s new = Ro_Fresh \<and> rpc (sys s) c = R_Out \<and>
         buf (sys s) c = []
      then Next (u_goto c (U_Locked new) (s\<lparr>mutex_owner := Some c, role := (role s)(new := Ro_New c)\<rparr>))
      else Blocked)"
| "reclaim_exec n (Re_Reclaim c) s =
     (if c < n \<and> upc s c = U_Idle \<and> rpc (sys s) c = R_Out then Next (u_goto c (U_Scan 0 UINT_MAX) s) else Blocked)"
| "reclaim_exec n (Re_Step c) s = (if rpc (sys s) c = R_Out then upd_step n c (upc s c) s else Blocked)"

section \<open>Invariant\<close>

fun pc_ok :: "reclaim_sys \<Rightarrow> nat \<Rightarrow> upd_pc \<Rightarrow> bool" where
  "pc_ok s c U_Idle \<longleftrightarrow> wbuf (sys s) c = []"
| "pc_ok s c (U_Locked new) \<longleftrightarrow> wbuf (sys s) c = [] \<and> mutex_owner s = Some c \<and> role s new = Ro_New c"
| "pc_ok s c (U_Publish old new) \<longleftrightarrow>
     wbuf (sys s) c = [] \<and> mutex_owner s = Some c \<and> role s new = Ro_New c \<and> old = gp (sys s)"
| "pc_ok s c (U_Unlock old new) \<longleftrightarrow>
     (wbuf (sys s) c = [StPtr new] \<and> gp (sys s) = old \<or> wbuf (sys s) c = [] \<and> gp (sys s) = new) \<and>
     mutex_owner s = Some c \<and> role s new = Ro_Current \<and> role s old = Ro_Retiring c"
| "pc_ok s c (U_Call old) \<longleftrightarrow> wbuf (sys s) c = [] \<and> role s old = Ro_Retiring c"
| "pc_ok s c (U_Scan i m) \<longleftrightarrow> wbuf (sys s) c = []"

fun unlocking_pc :: "upd_pc \<Rightarrow> bool" where
  "unlocking_pc (U_Unlock old new) = True"
| "unlocking_pc _ = False"

definition queue_ok :: "reclaim_sys \<Rightarrow> nat \<Rightarrow> bool" where
  "queue_ok s c \<longleftrightarrow> (\<exists>xs. queue_rep (focus c s) xs \<and> (\<forall>p. p \<in> set xs \<longleftrightarrow> role s p = Ro_Queued c))"

definition heads_ok :: "reclaim_sys \<Rightarrow> nat \<Rightarrow> bool" where
  "heads_ok s p \<longleftrightarrow> h_func (heads s) p = FreeRcu \<and> (p \<in> h_freed (heads s) \<longleftrightarrow> role s p = Ro_Freed) \<and>
     (h_next (heads s) p \<noteq> None \<longrightarrow> role s p = Ro_Freed \<or> (\<exists>c. role s p = Ro_Queued c))"

definition object_inv :: "nat \<Rightarrow> reclaim_sys \<Rightarrow> bool" where
  "object_inv n s \<longleftrightarrow> (\<forall>c. pc_ok s c (upc s c)) \<and>
     ((\<forall>c. \<not> unlocking_pc (upc s c)) \<longrightarrow> role s (gp (sys s)) = Ro_Current) \<and>
     (\<forall>c. queue_ok s c) \<and> (\<forall>p. heads_ok s p) \<and> (\<forall>r. rpc (sys s) r \<noteq> R_Out \<longrightarrow> r < n)"

text \<open>What an object a reader holds may be; a queued one has a newer version than the reader's core.\<close>

fun hold_ok :: "64 word \<Rightarrow> 64 word \<Rightarrow> obj_role \<Rightarrow> bool" where
  "hold_ok rv pv (Ro_Queued c) = (rv < pv)"
| "hold_ok rv pv Ro_Current = True"
| "hold_ok rv pv (Ro_Retiring c) = True"
| "hold_ok rv pv _ = False"

text \<open>The cores that \<open>thread_call_rcu\<close> has passed hold no object that is old enough.\<close>

fun scan_ok :: "reclaim_sys \<Rightarrow> nat \<Rightarrow> upd_pc \<Rightarrow> bool" where
  "scan_ok s c (U_Scan i m) \<longleftrightarrow>
     (\<forall>p r. role s p = Ro_Queued c \<and> h_version (heads s) p \<le> m \<and> r < i \<and> r \<noteq> c \<longrightarrow> \<not> holds (sys s) r p)"
| "scan_ok s c _ \<longleftrightarrow> True"

definition hold_inv :: "reclaim_sys \<Rightarrow> bool" where
  "hold_inv s \<longleftrightarrow> (\<forall>r p. holds (sys s) r p \<longrightarrow> hold_ok (versions (sys s) r) (h_version (heads s) p) (role s p)) \<and>
     (\<forall>c. scan_ok s c (upc s c))"

definition reclaim_inv :: "nat \<Rightarrow> reclaim_sys \<Rightarrow> bool" where
  "reclaim_inv n s \<longleftrightarrow> versions_inv (sys s) \<and> object_inv n s \<and> (g_syncs (sys s) < 2 ^ 63 - 1 \<longrightarrow> hold_inv s)"

lemma reclaim_inv_init: "reclaim_inv n reclaim_init"
proof -
  have "versions_inv (sys reclaim_init)" using versions_inv_init by (simp add: reclaim_init_def)
  moreover have "object_inv n reclaim_init"
    by (auto simp: object_inv_def reclaim_init_def heads_ok_def queue_ok_def queue_rep_def focus_def
        rcu_sys_init_def rcu_init_def wbuf_def empty_queue_def rcu_cb.defs rcu_queue.defs intro!: exI [of _ "[]"])
  moreover have "hold_inv reclaim_init"
    by (simp add: hold_inv_def reclaim_init_def rcu_sys_init_def rcu_init_def holds_def)
  ultimately show ?thesis by (simp add: reclaim_inv_def)
qed

lemma object_invD:
  assumes "object_inv n s"
  shows "pc_ok s c (upc s c)" "(\<And>c. \<not> unlocking_pc (upc s c)) \<Longrightarrow> role s (gp (sys s)) = Ro_Current"
    "queue_ok s c" "heads_ok s p" "rpc (sys s) r \<noteq> R_Out \<Longrightarrow> r < n"
  using assms by (auto simp: object_inv_def)

lemma object_invI:
  assumes "\<And>c. pc_ok s c (upc s c)" "(\<And>c. \<not> unlocking_pc (upc s c)) \<Longrightarrow> role s (gp (sys s)) = Ro_Current"
    "\<And>c. queue_ok s c" "\<And>p. heads_ok s p" "\<And>r. rpc (sys s) r \<noteq> R_Out \<Longrightarrow> r < n"
  shows "object_inv n s"
  using assms by (auto simp: object_inv_def)

lemma hold_invD:
  assumes "hold_inv s"
  shows "holds (sys s) r p \<Longrightarrow> hold_ok (versions (sys s) r) (h_version (heads s) p) (role s p)"
    "scan_ok s c (upc s c)"
  using assms by (auto simp: hold_inv_def)

text \<open>The mutex: at most one core is between its acquisition and its release.\<close>

fun locked_pc :: "upd_pc \<Rightarrow> bool" where
  "locked_pc (U_Locked new) = True"
| "locked_pc (U_Publish old new) = True"
| "locked_pc (U_Unlock old new) = True"
| "locked_pc _ = False"

lemma locked_owner:
  assumes "object_inv n s" "locked_pc (upc s c)"
  shows "mutex_owner s = Some c"
  using object_invD(1) [OF assms(1), of c] assms(2) by (cases "upc s c") auto

lemma unlocking_locked: "unlocking_pc p \<Longrightarrow> locked_pc p"
  by (cases p) auto

lemma locked_unique: "object_inv n s \<Longrightarrow> locked_pc (upc s c) \<Longrightarrow> locked_pc (upc s d) \<Longrightarrow> d = c"
  using locked_owner [of n s c] locked_owner [of n s d] by simp

text \<open>What \<open>rcu_dereference\<close> can return.\<close>

definition visible_role :: "obj_role \<Rightarrow> bool" where
  "visible_role ro \<longleftrightarrow> ro = Ro_Current \<or> (\<exists>c. ro = Ro_Retiring c)"

lemma gp_role:
  assumes "object_inv n s"
  shows "visible_role (role s (gp (sys s)))"
proof (cases "\<exists>c. unlocking_pc (upc s c)")
  case True
  then obtain c old new where "upc s c = U_Unlock old new" by (metis unlocking_pc.elims(2))
  with object_invD(1) [OF assms, of c] show ?thesis by (auto simp: visible_role_def)
next
  case False
  with object_invD(2) [OF assms] show ?thesis by (simp add: visible_role_def)
qed

lemma deref_role:
  assumes "object_inv n s"
  shows "visible_role (role s (rcu_dereference c (sys s)))"
proof -
  have v: "rcu_dereference c (sys s) = view_ptr (wbuf (sys s) c) (gp (sys s))"
    by (simp add: rcu_dereference_def wbuf_def view_ptr_filter [symmetric])
  show ?thesis
  proof (cases "wbuf (sys s) c = []")
    case True
    with v gp_role [OF assms] show ?thesis by simp
  next
    case False
    with object_invD(1) [OF assms, of c] obtain old new where
      "wbuf (sys s) c = [StPtr new]" "role s new = Ro_Current" by (cases "upc s c") auto
    with v show ?thesis by (simp add: visible_role_def)
  qed
qed

section \<open>Steps of the readers\<close>

text \<open>A step that changes \<open>sys\<close> only, keeps the pointer, and lets a core hold at most what it dereferences.\<close>

lemma pc_ok_sys:
  assumes "gp y = gp (sys s)" "wbuf y = wbuf (sys s)"
  shows "pc_ok s c pc \<Longrightarrow> pc_ok (s\<lparr>sys := y\<rparr>) c pc"
  using assms by (cases pc) auto

lemma sys_change:
  assumes inv: "reclaim_inv n s" and "versions_inv y" "g_syncs (sys s) \<le> g_syncs y" "gp y = gp (sys s)"
    "wbuf y = wbuf (sys s)" "\<And>r. rpc y r \<noteq> R_Out \<Longrightarrow> r < n"
    and h: "\<And>r p. g_syncs (sys s) < 2 ^ 63 - 1 \<Longrightarrow> holds y r p \<Longrightarrow>
      holds (sys s) r p \<and> versions y r = versions (sys s) r \<or> p = rcu_dereference r (sys s)"
  shows "reclaim_inv n (s\<lparr>sys := y\<rparr>)"
proof -
  let ?s = "s\<lparr>sys := y\<rparr>"
  from inv have o: "object_inv n s" and hi: "g_syncs (sys s) < 2 ^ 63 - 1 \<Longrightarrow> hold_inv s"
    by (simp_all add: reclaim_inv_def)
  have "object_inv n ?s"
  proof (rule object_invI)
    show "pc_ok ?s c (upc ?s c)" for c using pc_ok_sys [OF assms(4,5) object_invD(1) [OF o]] by simp
    show "queue_ok ?s c" for c using object_invD(3) [OF o, of c] by (simp add: queue_ok_def focus_def)
    show "heads_ok ?s p" for p using object_invD(4) [OF o, of p] by (simp add: heads_ok_def)
  qed (use object_invD(2) [OF o] assms in simp_all)
  moreover have "hold_inv ?s" if b: "g_syncs y < 2 ^ 63 - 1"
  proof -
    have b0: "g_syncs (sys s) < 2 ^ 63 - 1" using b assms(3) by simp
    note d = hold_invD [OF hi [OF b0]] and new = deref_role [OF o]
    have "hold_ok (versions y r) (h_version (heads s) p) (role s p)" if "holds y r p" for r p
      using h [OF b0 that] d(1) [of r p] new [of r] by (auto simp: visible_role_def)
    moreover have "scan_ok ?s c (upc s c)" for c
    proof (cases "upc s c")
      case (U_Scan i m)
      have "\<not> holds y r p" if "role s p = Ro_Queued c" "h_version (heads s) p \<le> m" "r < i" "r \<noteq> c" for p r
      proof
        assume "holds y r p"
        from h [OF b0 this] new [of r] that(1) have "holds (sys s) r p" by (auto simp: visible_role_def)
        with d(2) [of c] U_Scan that show False by auto
      qed
      with U_Scan show ?thesis by simp
    qed simp_all
    ultimately show ?thesis by (simp add: hold_inv_def)
  qed
  ultimately show ?thesis using assms(2) by (simp add: reclaim_inv_def)
qed

lemma reclaim_invD:
  assumes "reclaim_inv n s"
  shows "versions_inv (sys s)" "object_inv n s" "g_syncs (sys s) < 2 ^ 63 - 1 \<Longrightarrow> hold_inv s"
    "rpc (sys s) r \<noteq> R_Out \<Longrightarrow> r < n"
  using assms by (auto simp: reclaim_inv_def object_inv_def)

lemma inv_reader_lock:
  assumes "reclaim_inv n s" "c < n" "reader_lock c (sys s) = Next y"
  shows "reclaim_inv n (s\<lparr>sys := y\<rparr>)"
  by (rule sys_change [OF assms(1) versions_inv_lock [OF reclaim_invD(1) [OF assms(1)] assms(3)]])
    (use assms(2,3) reclaim_invD(4) [OF assms(1)] in \<open>auto simp: reader_lock_def read_lock_enter_def Let_def wbuf_def
       holds_def fun_eq_iff split: if_splits\<close>)

lemma inv_reader_step:
  assumes "reclaim_inv n s" "reader_step c (sys s) = Next y"
  shows "reclaim_inv n (s\<lparr>sys := y\<rparr>)"
proof (rule sys_change [OF assms(1) versions_inv_reader [OF reclaim_invD(1) [OF assms(1)] assms(2)]])
  note st = assms(2) [unfolded reader_step_def read_lock_load_def read_lock_compare_def read_lock_store_def
      put_def read_lock_fence_def]
  show "g_syncs (sys s) \<le> g_syncs y" "gp y = gp (sys s)" "wbuf y = wbuf (sys s)"
    using st by (auto simp: wbuf_def fun_eq_iff split: reader_pc.splits option.splits if_splits)
  show "rpc y r \<noteq> R_Out \<Longrightarrow> r < n" for r
    using st reclaim_invD(4) [OF assms(1)]
    by (auto split: reader_pc.splits option.splits if_splits)
  show "holds y r p \<Longrightarrow> holds (sys s) r p \<and> versions y r = versions (sys s) r \<or> p = rcu_dereference r (sys s)" for r p
    using st by (auto simp: holds_def split: reader_pc.splits option.splits if_splits)
qed

lemma inv_reader_unlock:
  assumes "reclaim_inv n s" "reader_unlock c (sys s) = Next y"
  shows "reclaim_inv n (s\<lparr>sys := y\<rparr>)"
  by (rule sys_change [OF assms(1) versions_inv_unlock [OF reclaim_invD(1) [OF assms(1)] assms(2)]])
    (use assms(2) reclaim_invD(4) [OF assms(1)] in \<open>auto simp: reader_unlock_def rcu_read_unlock_def wbuf_def holds_def
       fun_eq_iff split: reader_pc.splits if_splits\<close>)

lemma inv_offline:
  assumes "reclaim_inv n s" "core_offline False c (sys s) = Next y"
  shows "reclaim_inv n (s\<lparr>sys := y\<rparr>)"
proof -
  from assms(2) have y: "y = rcu_offline c (sys s)" "rpc (sys s) c = R_Out"
    by (auto simp: core_offline_def split: if_splits)
  show ?thesis
    by (rule sys_change [OF assms(1)])
      (use y versions_inv_offline [OF reclaim_invD(1) [OF assms(1)] y(2)] reclaim_invD(4) [OF assms(1)] in
        \<open>auto simp: rcu_offline_def put_def wbuf_def holds_def fun_eq_iff\<close>)
qed

lemma inv_sync:
  assumes "reclaim_inv n s" "other_sync c (sys s) = Next y"
  shows "reclaim_inv n (s\<lparr>sys := y\<rparr>)"
proof -
  from assms(2) obtain wv where y: "sync_begin c (sys s) = Some (wv, y)"
    by (auto simp: other_sync_def split: option.splits)
  have "versions_inv y" using versions_inv_bump [OF reclaim_invD(1) [OF assms(1)] y, of "wr y"] by simp
  then show ?thesis
    by (rule sys_change [OF assms(1)])
      (use y reclaim_invD(4) [OF assms(1)] in \<open>auto simp: sync_begin_def wbuf_def holds_def fun_eq_iff split: if_splits\<close>)
qed

text \<open>The store buffer: a version leaves it while the core holds nothing; the pointer when an update unlocks.\<close>

lemma online_no_version: "reader_ok y c \<Longrightarrow> holds y c p \<Longrightarrow> st \<in> set (buf y c) \<Longrightarrow> \<not> is_version st"
  by (auto simp: reader_ok_def holds_def online_def filter_empty_conv)

lemma inv_flush_version:
  assumes inv: "reclaim_inv n s" and b: "buf (sys s) c = StVersion v # rest"
    and y: "y = (sys s)\<lparr>buf := (buf (sys s))(c := rest), versions := (versions (sys s))(c := v)\<rparr>"
  shows "reclaim_inv n (s\<lparr>sys := y\<rparr>)"
proof (rule sys_change [OF inv])
  note vi = reclaim_invD(1) [OF inv]
  have "flush c (sys s) = Next y" using b y by (simp add: flush_def)
  from versions_inv_flush [OF vi this] show "versions_inv y" .
  show "wbuf y = wbuf (sys s)" using b y by (auto simp: wbuf_def)
  fix r p assume g: "g_syncs (sys s) < 2 ^ 63 - 1" and "holds y r p"
  then have h: "holds (sys s) r p" using y by (simp add: holds_def)
  have "r \<noteq> c"
  proof
    assume "r = c"
    have "reader_ok (sys s) c" using vi g by (simp add: versions_inv_def)
    from online_no_version [OF this, of p "StVersion v"] h b \<open>r = c\<close> show False by simp
  qed
  with h y show "holds (sys s) r p \<and> versions y r = versions (sys s) r \<or> p = rcu_dereference r (sys s)" by simp
qed (use y reclaim_invD(4) [OF inv] in auto)

text \<open>A change of the states, the pointer and the buffers of which the readers notice nothing.\<close>

lemma same_holds:
  assumes "reclaim_inv n s" "versions_inv (sys s')" "object_inv n s'" "g_syncs (sys s') = g_syncs (sys s)"
    "rpc (sys s') = rpc (sys s)" "versions (sys s') = versions (sys s)" "h_version (heads s') = h_version (heads s)"
    "\<And>p. role s p \<noteq> role s' p \<Longrightarrow> (visible_role (role s' p) \<or> role s p = Ro_Fresh) \<and>
      (\<forall>c. role s p \<noteq> Ro_Queued c \<and> role s' p \<noteq> Ro_Queued c)"
    "\<And>c. upc s' c = upc s c \<or> (\<forall>i m. upc s' c \<noteq> U_Scan i m)"
  shows "reclaim_inv n s'"
proof -
  have h: "holds (sys s') r p = holds (sys s) r p" for r p using assms(5) by (simp add: holds_def)
  have v: "visible_role ro \<Longrightarrow> hold_ok a b ro" for a b ro by (auto simp: visible_role_def)
  have q: "role s' p = Ro_Queued c \<longleftrightarrow> role s p = Ro_Queued c" for p c
    using assms(8) [of p] by (cases "role s p = role s' p") auto
  have "hold_inv s'" if b: "g_syncs (sys s') < 2 ^ 63 - 1"
  proof -
    have hi: "hold_inv s" using reclaim_invD(3) [OF assms(1)] b assms(4) by simp
    have "hold_ok (versions (sys s') r) (h_version (heads s') p) (role s' p)" if "holds (sys s') r p" for r p
    proof -
      have k: "hold_ok (versions (sys s) r) (h_version (heads s) p) (role s p)"
        using hold_invD(1) [OF hi, of r p] that h by simp
      show ?thesis
      proof (cases "role s p = role s' p")
        case True
        with k assms(6,7) show ?thesis by simp
      next
        case False
        from k have "role s p \<noteq> Ro_Fresh" by auto
        with assms(8) [OF False] v show ?thesis by blast
      qed
    qed
    moreover have "scan_ok s' c (upc s' c)" for c
    proof (cases "upc s' c")
      case (U_Scan i m)
      with assms(9) [of c] have "upc s c = U_Scan i m" by metis
      with hold_invD(2) [OF hi, of c] U_Scan show ?thesis by (simp add: q h assms(7))
    qed simp_all
    ultimately show ?thesis by (simp add: hold_inv_def)
  qed
  with assms(2,3) show ?thesis by (simp add: reclaim_inv_def)
qed

lemma pc_ok_cong:
  assumes "wbuf (sys s') c = wbuf (sys s) c" "\<not> locked_pc pc \<or> mutex_owner s' = mutex_owner s \<and> gp (sys s') = gp (sys s)"
    "\<And>p. role s p = Ro_New c \<or> role s p = Ro_Retiring c \<Longrightarrow> role s' p = role s p"
    "\<And>p. locked_pc pc \<Longrightarrow> role s p = Ro_Current \<Longrightarrow> role s' p = role s p"
  shows "pc_ok s c pc \<Longrightarrow> pc_ok s' c pc"
  using assms by (cases pc) auto

lemma inv_flush_ptr:
  assumes inv: "reclaim_inv n s" and b: "buf (sys s) c = st # rest" "\<not> is_version st"
    and fl: "flush c (sys s) = Next y"
  shows "reclaim_inv n (s\<lparr>sys := y\<rparr>)"
proof -
  note o = reclaim_invD(2) [OF inv]
  have "wbuf (sys s) c = st # filter (Not \<circ> is_version) rest"
    using b by (simp add: wbuf_def)
  with object_invD(1) [OF o, of c] obtain old new where u: "upc s c = U_Unlock old new" "st = StPtr new"
    "wbuf (sys s) c = [StPtr new]" "gp (sys s) = old" "role s new = Ro_Current"
    by (cases "upc s c") auto
  have y: "y = (sys s)\<lparr>buf := (buf (sys s))(c := rest), gp := new\<rparr>" using fl b u(2) by (simp add: flush_def)
  have w: "wbuf y c = []" "\<And>d. d \<noteq> c \<Longrightarrow> wbuf y d = wbuf (sys s) d" using y b u(2,3) by (auto simp: wbuf_def)
  let ?s = "s\<lparr>sys := y\<rparr>"
  have "object_inv n ?s"
  proof (rule object_invI)
    show "pc_ok ?s d (upc ?s d)" for d
    proof (cases "d = c")
      case True
      with object_invD(1) [OF o, of c] u w y show ?thesis by simp
    next
      case False
      have "\<not> locked_pc (upc s d)" using locked_unique [OF o, of c d] u(1) False by auto
      with False w(2) object_invD(1) [OF o, of d] show ?thesis by (cases "upc s d") auto
    qed
    show "role ?s (gp (sys ?s)) = Ro_Current" using y u(5) by simp
    show "queue_ok ?s d" for d using object_invD(3) [OF o, of d] by (simp add: queue_ok_def focus_def)
    show "heads_ok ?s p" for p using object_invD(4) [OF o, of p] by (simp add: heads_ok_def)
  qed (use object_invD(5) [OF o] y in simp)
  then show ?thesis
    by (rule same_holds [OF inv, rotated]) (use versions_inv_flush [OF reclaim_invD(1) [OF inv] fl] y in simp_all)
qed

lemma inv_flush:
  assumes "reclaim_inv n s" "flush c (sys s) = Next y"
  shows "reclaim_inv n (s\<lparr>sys := y\<rparr>)"
proof -
  from assms(2) obtain st rest where b: "buf (sys s) c = st # rest" by (auto simp: flush_def split: list.splits)
  show ?thesis
  proof (cases st)
    case (StVersion v)
    with b assms(2) have "y = (sys s)\<lparr>buf := (buf (sys s))(c := rest), versions := (versions (sys s))(c := v)\<rparr>"
      by (simp add: flush_def)
    with inv_flush_version [OF assms(1)] b StVersion show ?thesis by blast
  qed (use inv_flush_ptr [OF assms(1) b _ assms(2)] in simp_all)
qed

section \<open>Steps of the updates\<close>

text \<open>A step of core \<open>c\<close> that leaves the heads and the queued objects alone.\<close>

lemma object_inv_step:
  assumes o: "object_inv n s" and "heads s' = heads s" "data s' = data s" "rpc (sys s') = rpc (sys s)"
    and pc: "pc_ok s' c (upc s' c)" and others: "\<And>d. d \<noteq> c \<Longrightarrow> upc s' d = upc s d \<and> pc_ok s' d (upc s d)"
    and cur: "(\<And>d. \<not> unlocking_pc (upc s' d)) \<Longrightarrow> role s' (gp (sys s')) = Ro_Current"
    and ro: "\<And>p. role s' p = role s p \<or> (\<forall>d. role s p \<noteq> Ro_Queued d \<and> role s' p \<noteq> Ro_Queued d) \<and>
      role s p \<noteq> Ro_Freed \<and> role s' p \<noteq> Ro_Freed"
  shows "object_inv n s'"
proof (rule object_invI)
  show "pc_ok s' d (upc s' d)" for d using pc others by (cases "d = c") auto
  have q: "role s' p = Ro_Queued d \<longleftrightarrow> role s p = Ro_Queued d" "role s' p = Ro_Freed \<longleftrightarrow> role s p = Ro_Freed" for p d
    using ro [of p] by auto
  show "queue_ok s' d" for d using object_invD(3) [OF o, of d] assms(2,3) q by (simp add: queue_ok_def focus_def)
  show "heads_ok s' p" for p using object_invD(4) [OF o, of p] assms(2) q by (simp add: heads_ok_def)
qed (use cur object_invD(5) [OF o] assms(4) in simp_all)

lemma inv_start:
  assumes inv: "reclaim_inv n s" and "upc s c = U_Idle" "mutex_owner s = None" "role s new = Ro_Fresh"
    "buf (sys s) c = []"
  shows "reclaim_inv n (u_goto c (U_Locked new) (s\<lparr>mutex_owner := Some c, role := (role s)(new := Ro_New c)\<rparr>))"
    (is "reclaim_inv n ?s")
proof -
  note o = reclaim_invD(2) [OF inv]
  have nl: "\<not> locked_pc (upc s d)" for d using locked_owner [OF o, of d] assms(3) by auto
  have gp: "role s (gp (sys s)) = Ro_Current" using object_invD(2) [OF o] nl unlocking_locked by blast
  have "object_inv n ?s"
  proof (rule object_inv_step [OF o, where c = c])
    show "pc_ok ?s c (upc ?s c)" using assms(5) by (simp add: wbuf_def)
    fix d assume "d \<noteq> c"
    then show "upc ?s d = upc s d \<and> pc_ok ?s d (upc s d)"
      using object_invD(1) [OF o, of d] nl [of d] assms(4) by (cases "upc s d") auto
  qed (use assms gp in auto)
  then show ?thesis
    by (rule same_holds [OF inv, rotated]) (use reclaim_invD(1) [OF inv] assms(4) in auto)
qed

lemma inv_deref:
  assumes inv: "reclaim_inv n s" and u: "upc s c = U_Locked new"
  shows "reclaim_inv n (u_goto c (U_Publish (rcu_dereference c (sys s)) new) s)"
    (is "reclaim_inv n ?s")
proof -
  note o = reclaim_invD(2) [OF inv]
  have p: "pc_ok s c (U_Locked new)" using object_invD(1) [OF o, of c] u by simp
  then have d: "rcu_dereference c (sys s) = gp (sys s)"
    by (simp add: rcu_dereference_def wbuf_def view_ptr_version)
  have "object_inv n ?s"
  proof (rule object_inv_step [OF o, where c = c])
    show "pc_ok ?s c (upc ?s c)" using p d by simp
    fix e assume "e \<noteq> c"
    then show "upc ?s e = upc s e \<and> pc_ok ?s e (upc s e)"
      using object_invD(1) [OF o, of e] by (cases "upc s e") auto
  next
    assume a: "\<And>e. \<not> unlocking_pc (upc ?s e)"
    have "\<not> unlocking_pc (upc s e)" for e using u a [of e] by (cases "e = c") simp_all
    with object_invD(2) [OF o] show "role ?s (gp (sys ?s)) = Ro_Current" by simp
  qed simp_all
  then show ?thesis
    by (rule same_holds [OF inv, rotated]) (use reclaim_invD(1) [OF inv] in auto)
qed

lemma inv_publish:
  assumes inv: "reclaim_inv n s" and u: "upc s c = U_Publish old new"
  shows "reclaim_inv n (u_goto c (U_Unlock old new) (s\<lparr>sys := rcu_assign_pointer c new (sys s),
    role := (role s)(new := Ro_Current, old := Ro_Retiring c)\<rparr>))"
    (is "reclaim_inv n ?s")
proof -
  note o = reclaim_invD(2) [OF inv]
  have p: "pc_ok s c (U_Publish old new)" using object_invD(1) [OF o, of c] u by simp
  have lk: "\<not> locked_pc (upc s d)" if "d \<noteq> c" for d using locked_unique [OF o, of c d] u that by auto
  have "\<not> unlocking_pc (upc s d)" for d using lk [of d] unlocking_locked u by (cases "d = c") auto
  then have cur: "role s old = Ro_Current" using object_invD(2) [OF o] p by simp
  have w: "wbuf (sys ?s) c = [StPtr new]" "\<And>d. d \<noteq> c \<Longrightarrow> wbuf (sys ?s) d = wbuf (sys s) d"
    using p by (auto simp: wbuf_def rcu_assign_pointer_def put_def)
  have sy: "gp (sys ?s) = gp (sys s)" "rpc (sys ?s) = rpc (sys s)" "versions (sys ?s) = versions (sys s)"
    "g_syncs (sys ?s) = g_syncs (sys s)" by (simp_all add: rcu_assign_pointer_def put_def)
  have "object_inv n ?s"
  proof (rule object_inv_step [OF o, where c = c])
    show "pc_ok ?s c (upc ?s c)" using p cur w(1) sy(1) by auto
    fix d assume "d \<noteq> c"
    then show "upc ?s d = upc s d \<and> pc_ok ?s d (upc s d)"
      using object_invD(1) [OF o, of d] lk [of d] w(2) p cur by (cases "upc s d") auto
  next
    assume "\<And>d. \<not> unlocking_pc (upc ?s d)"
    from this [of c] show "role ?s (gp (sys ?s)) = Ro_Current" by simp
  qed (use p cur sy in auto)
  then show ?thesis
    by (rule same_holds [OF inv, rotated])
      (use reclaim_invD(1) [OF inv] p cur sy in \<open>auto simp: visible_role_def rcu_assign_pointer_def versions_inv_put split: if_splits\<close>)
qed

lemma inv_mutex_release:
  assumes inv: "reclaim_inv n s" and u: "upc s c = U_Unlock old new" and b: "buf (sys s) c = []"
  shows "reclaim_inv n (u_goto c (U_Call old) (s\<lparr>mutex_owner := None\<rparr>))"
    (is "reclaim_inv n ?s")
proof -
  note o = reclaim_invD(2) [OF inv]
  have "pc_ok s c (U_Unlock old new)" using object_invD(1) [OF o, of c] u by simp
  with b have p: "gp (sys s) = new" "role s new = Ro_Current" "role s old = Ro_Retiring c" "wbuf (sys s) c = []"
    by (auto simp: wbuf_def)
  have lk: "\<not> locked_pc (upc s d)" if "d \<noteq> c" for d using locked_unique [OF o, of c d] u that by auto
  have "object_inv n ?s"
  proof (rule object_inv_step [OF o, where c = c])
    fix d assume "d \<noteq> c"
    then show "upc ?s d = upc s d \<and> pc_ok ?s d (upc s d)"
      using object_invD(1) [OF o, of d] lk [of d] by (cases "upc s d") auto
  qed (use p in auto)
  then show ?thesis
    by (rule same_holds [OF inv, rotated]) (use reclaim_invD(1) [OF inv] in auto)
qed

section \<open>Queueing and reclaiming\<close>

text \<open>The queue of another core.\<close>

lemma queue_rep_frame:
  assumes "queue_rep h xs" "q_head h' = q_head h" "q_tail h' = q_tail h"
    "\<And>p. p \<in> set xs \<Longrightarrow> h_next h' p = h_next h p" "set xs \<inter> h_freed h' = {}"
  shows "queue_rep h' xs"
proof -
  have "chain (h_next h') p xs = chain (h_next h) p xs" if "\<And>x. x \<in> set xs \<Longrightarrow> h_next h' x = h_next h x" for p xs
    using that by (induction xs arbitrary: p) auto
  with assms show ?thesis by (simp add: queue_rep_def)
qed

lemma focus_simps [simp]:
  "q_head (focus c s) = q_head (data s c)" "q_tail (focus c s) = q_tail (data s c)"
  "h_next (focus c s) = h_next (heads s)" "h_version (focus c s) = h_version (heads s)"
  "h_func (focus c s) = h_func (heads s)" "h_freed (focus c s) = h_freed (heads s)"
  by (simp_all add: focus_def)

lemma unfocus_simps [simp]:
  "sys (unfocus c h s) = sys s" "heads (unfocus c h s) = h" "upc (unfocus c h s) = upc s" "role (unfocus c h s) = role s"
  "mutex_owner (unfocus c h s) = mutex_owner s" "d \<noteq> c \<Longrightarrow> data (unfocus c h s) d = data s d"
  "q_head (data (unfocus c h s) c) = q_head h" "q_tail (data (unfocus c h s) c) = q_tail h"
  by (simp_all add: unfocus_def)

lemma enqueue_next:
  "h_next (snd (rcu_data_enqueue head h)) p = (if q_tail h = Some p then Some head else h_next h p)"
  by (auto simp: rcu_data_enqueue_def Let_def split: option.split)

lemma queue_other:
  assumes "queue_ok s d" "d \<noteq> c" "data s' d = data s d"
    "\<And>p. role s p = Ro_Queued d \<Longrightarrow> h_next (heads s') p = h_next (heads s) p \<and> p \<notin> h_freed (heads s')"
    "\<And>p. role s' p = Ro_Queued d \<longleftrightarrow> role s p = Ro_Queued d"
  shows "queue_ok s' d"
proof -
  from assms(1) obtain xs where xs: "queue_rep (focus d s) xs" "\<And>p. p \<in> set xs \<longleftrightarrow> role s p = Ro_Queued d"
    by (auto simp: queue_ok_def)
  have "queue_rep (focus d s') xs" by (rule queue_rep_frame [OF xs(1)]) (use assms(3,4) xs(2) in auto)
  with xs(2) assms(5) show ?thesis by (auto simp: queue_ok_def)
qed

text \<open>The version of a core whose section is open is at most the number of grace periods.\<close>

lemma holder_version:
  assumes "versions_inv y" "g_syncs y < 2 ^ 63 - 1" "holds y r p"
  shows "unat (versions y r) \<le> g_syncs y"
proof -
  from assms(1,2) have "reader_ok y r" "version_ok y r" by (auto simp: versions_inv_def)
  with assms(3) show ?thesis by (auto simp: reader_ok_def version_ok_def holds_def online_def)
qed

lemma inv_free_rcu:
  assumes inv: "reclaim_inv n s" and u: "upc s c = U_Call old" and step: "free_rcu_step c old s = Next s'"
  shows "reclaim_inv n s'"
proof -
  note o = reclaim_invD(2) [OF inv] and vi = reclaim_invD(1) [OF inv]
  from step obtain wv y where y: "sync_begin c (sys s) = Some (wv, y)" by (auto simp: free_rcu_step_def split: option.splits)
  define h1 where "h1 = (focus c s)\<lparr>h_version := (h_version (heads s))(old := wv), h_func := (h_func (heads s))(old := FreeRcu)\<rparr>"
  define h2 where "h2 = snd (rcu_data_enqueue old h1)"
  define pc where "pc = (if fst (rcu_data_enqueue old h1) \<ge> 1024 then U_Scan 0 UINT_MAX else U_Idle)"
  have s': "s' = u_goto c pc (unfocus c h2 (s\<lparr>sys := y, role := (role s)(old := Ro_Queued c)\<rparr>))"
    using step y by (simp add: free_rcu_step_def Let_def h1_def h2_def pc_def split_def del: enqueue_frame)
  have yv: "gp y = gp (sys s)" "wbuf y = wbuf (sys s)" "rpc y = rpc (sys s)" "versions y = versions (sys s)"
    "g_syncs y = Suc (g_syncs (sys s))" "wv = sequencer (sys s) + 1"
    using y by (auto simp: sync_begin_def wbuf_def fun_eq_iff split: if_splits)
  have vy: "versions_inv y" using versions_inv_bump [OF vi y, of "wr y"] by simp
  have pold: "role s old = Ro_Retiring c" "wbuf (sys s) c = []" using object_invD(1) [OF o, of c] u by simp_all
  have ho: "h_next (heads s) old = None" "old \<notin> h_freed (heads s)"
    using object_invD(4) [OF o, of old] pold(1) by (auto simp: heads_ok_def)
  have h2: "h_next h2 p = (if q_tail (data s c) = Some p then Some old else h_next (heads s) p)"
    "h_freed h2 = h_freed (heads s)" "h_func h2 = (h_func (heads s))(old := FreeRcu)"
    "h_version h2 = (h_version (heads s))(old := wv)" for p
    by (simp_all add: h2_def h1_def enqueue_next)
  from object_invD(3) [OF o, of c] obtain xs where xs: "queue_rep (focus c s) xs" "\<And>p. p \<in> set xs \<longleftrightarrow> role s p = Ro_Queued c"
    by (auto simp: queue_ok_def)
  have tail: "q_tail (data s c) = Some p \<Longrightarrow> role s p = Ro_Queued c" for p
    using xs(1) xs(2) [of "last xs"] last_in_set [of xs] by (auto simp: queue_rep_def split: if_splits)
  have "queue_rep h1 xs" by (rule queue_rep_frame [OF xs(1)]) (use xs(1) in \<open>auto simp: h1_def queue_rep_def\<close>)
  then have r2: "queue_rep h2 (xs @ [old])"
    unfolding h2_def by (rule enqueue_rep) (use xs(2) pold ho in \<open>auto simp: h1_def\<close>)
  have qr: "queue_rep (focus c s') (xs @ [old])"
    by (rule queue_rep_frame [OF r2]) (use r2 in \<open>auto simp: s' queue_rep_def\<close>)
  have ob: "object_inv n s'"
  proof (rule object_invI)
    have sp: "unlocking_pc (upc s' d) = unlocking_pc (upc s d)" for d using u by (simp add: s' pc_def)
    show "pc_ok s' d (upc s' d)" for d
    proof (cases "d = c")
      case True
      with pold(2) yv(2) show ?thesis by (simp add: s' pc_def)
    next
      case False
      with object_invD(1) [OF o, of d] yv pold(1) show ?thesis by (cases "upc s d") (auto simp: s')
    qed
    show "role s' (gp (sys s')) = Ro_Current" if "\<And>d. \<not> unlocking_pc (upc s' d)"
      using object_invD(2) [OF o] that sp yv(1) pold(1) by (auto simp: s')
    show "queue_ok s' d" for d
    proof (cases "d = c")
      case True
      have "\<forall>p. p \<in> set (xs @ [old]) \<longleftrightarrow> role s' p = Ro_Queued c" using xs(2) by (auto simp: s')
      with True qr show ?thesis by (auto simp: queue_ok_def)
    next
      case False
      have "p \<notin> h_freed (heads s)" if "role s p = Ro_Queued d" for p
        using object_invD(4) [OF o, of p] that by (simp add: heads_ok_def)
      with False tail pold(1) show ?thesis
        by (intro queue_other [OF object_invD(3) [OF o] False]) (auto simp: s' h2)
    qed
    show "heads_ok s' p" for p
      using object_invD(4) [OF o, of p] tail [of p] pold(1) ho by (auto simp: heads_ok_def s' h2)
  qed (use object_invD(5) [OF o] yv(3) in \<open>simp add: s'\<close>)
  have hd: "holds y r p = holds (sys s) r p" for r p using yv(3) by (simp add: holds_def)
  have "hold_inv s'" if b: "g_syncs (sys s') < 2 ^ 63 - 1"
  proof -
    have b0: "g_syncs (sys s) < 2 ^ 63 - 1" "Suc (g_syncs (sys s)) < 2 ^ 63" using b yv(5) by (simp_all add: s')
    note d = hold_invD [OF reclaim_invD(3) [OF inv b0(1)]]
    have q: "sequencer (sys s) = word_of_nat (g_syncs (sys s))" using vi by (simp add: versions_inv_def)
    have "wv = word_of_nat (Suc (g_syncs (sys s)))" using yv(6) q by simp
    then have wv: "unat wv = Suc (g_syncs (sys s))" using b0(2) by (simp only: unat_syncs)
    have "versions (sys s) r < wv" if "holds (sys s) r p" for r p
      using holder_version [OF vi b0(1) that] wv by (simp add: word_less_nat_alt)
    with d(1) have "hold_ok (versions (sys s') r) (h_version (heads s') p) (role s' p)" if "holds (sys s') r p" for r p
      using that hd yv(4) by (simp add: s' h2)
    moreover have "scan_ok s' e (upc s' e)" for e
    proof (cases "e = c")
      case True
      then show ?thesis by (simp add: s' pc_def)
    next
      case False
      with d(2) [of e] pold(1) hd show ?thesis by (cases "upc s e") (auto simp: s' h2)
    qed
    ultimately show ?thesis by (simp add: hold_inv_def)
  qed
  with ob vy show ?thesis by (simp add: reclaim_inv_def s')
qed

text \<open>Moving the program counter of \<open>c\<close> where nothing but the queue of \<open>c\<close> is of concern.\<close>

lemma inv_goto:
  assumes inv: "reclaim_inv n s" and pc: "pc_ok s c pc" "\<not> unlocking_pc pc" "\<not> unlocking_pc (upc s c)"
    and sc: "hold_inv s \<Longrightarrow> scan_ok (u_goto c pc s) c pc"
  shows "reclaim_inv n (u_goto c pc s)"
    (is "reclaim_inv n ?s")
proof -
  note o = reclaim_invD(2) [OF inv]
  have same: "pc_ok ?s d p \<longleftrightarrow> pc_ok s d p" for d p by (cases p) auto
  have "object_inv n ?s"
  proof (rule object_inv_step [OF o, where c = c])
    assume a: "\<And>e. \<not> unlocking_pc (upc ?s e)"
    have "\<not> unlocking_pc (upc s e)" for e using pc(3) a [of e] by (cases "e = c") simp_all
    with object_invD(2) [OF o] show "role ?s (gp (sys ?s)) = Ro_Current" by simp
  qed (use pc(1) object_invD(1) [OF o] same in simp_all)
  moreover have "hold_inv ?s" if "hold_inv s"
  proof -
    have "scan_ok ?s d (upc ?s d)" for d
    proof (cases "d = c")
      case False
      with hold_invD(2) [OF that, of d] show ?thesis by (cases "upc s d") auto
    qed (use sc [OF that] in simp)
    with hold_invD(1) [OF that] show ?thesis by (simp add: hold_inv_def)
  qed
  ultimately show ?thesis using inv by (simp add: reclaim_inv_def)
qed

lemma inv_scan:
  assumes inv: "reclaim_inv n s" and u: "upc s c = U_Scan i m"
  shows "reclaim_inv n (u_goto c (U_Scan (Suc i) (if i = c then m else min m (versions (sys s) i))) s)"
proof (rule inv_goto [OF inv])
  let ?m = "if i = c then m else min m (versions (sys s) i)"
  let ?s = "u_goto c (U_Scan (Suc i) ?m) s"
  show "pc_ok s c (U_Scan (Suc i) ?m)" using object_invD(1) [OF reclaim_invD(2) [OF inv], of c] u by simp
  assume h: "hold_inv s"
  have "\<not> holds (sys s) r p" if "role s p = Ro_Queued c" "h_version (heads s) p \<le> ?m" "r < Suc i" "r \<noteq> c" for p r
  proof (cases "r = i")
    case True
    with that have "h_version (heads s) p \<le> versions (sys s) i" by simp
    then have "\<not> versions (sys s) i < h_version (heads s) p" by simp
    with hold_invD(1) [OF h, of r p] True that(1) show ?thesis by auto
  next
    case False
    with that have "r < i" "h_version (heads s) p \<le> m" by (auto split: if_splits)
    with hold_invD(2) [OF h, of c] u that(1,4) show ?thesis by auto
  qed
  then show "scan_ok ?s c (U_Scan (Suc i) ?m)" by simp
qed (use u in simp_all)

text \<open>What the loop of \<open>thread_call_rcu\<close> leaves.\<close>

lemma finish_runs:
  assumes inv: "reclaim_inv n s"
  shows "\<exists>h xs. reclaim_loop m (q_head (data s c)) (focus c s) = Some (Next h) \<and>
    queue_rep (focus c s) xs \<and> distinct xs \<and> (\<forall>p. p \<in> set xs \<longleftrightarrow> role s p = Ro_Queued c) \<and>
    queue_rep h (dropWhile (\<lambda>p. h_version (heads s) p \<le> m) xs) \<and>
    h_freed h = h_freed (heads s) \<union> set (takeWhile (\<lambda>p. h_version (heads s) p \<le> m) xs) \<and>
    h_version h = h_version (heads s) \<and> h_next h = h_next (heads s) \<and> h_func h = h_func (heads s)"
proof -
  note o = reclaim_invD(2) [OF inv]
  from object_invD(3) [OF o, of c] obtain xs where xs: "queue_rep (focus c s) xs" "\<forall>p. p \<in> set xs \<longleftrightarrow> role s p = Ro_Queued c"
    by (auto simp: queue_ok_def)
  from xs(1) have "distinct xs" by (auto simp: queue_rep_def intro: chain_distinct)
  moreover have "h_func (heads s) p = FreeRcu" for p using object_invD(4) [OF o, of p] by (simp add: heads_ok_def)
  ultimately show ?thesis using reclaim_loop_spec [OF xs(1), of m] xs by fastforce
qed

lemma inv_finish:
  assumes inv: "reclaim_inv n s" and u: "upc s c = U_Scan i m" "\<not> i < n" "rpc (sys s) c = R_Out"
    and step: "reclaim_finish c m s = Next s'"
  shows "reclaim_inv n s'"
proof -
  note o = reclaim_invD(2) [OF inv]
  let ?P = "\<lambda>p. h_version (heads s) p \<le> m"
  from finish_runs [OF inv, of m c] obtain h xs where
    run: "reclaim_loop m (q_head (data s c)) (focus c s) = Some (Next h)"
    and xs: "queue_rep (focus c s) xs" "distinct xs" "\<And>p. p \<in> set xs \<longleftrightarrow> role s p = Ro_Queued c"
    and h: "queue_rep h (dropWhile ?P xs)" "h_freed h = h_freed (heads s) \<union> set (takeWhile ?P xs)"
      "h_version h = h_version (heads s)" "h_next h = h_next (heads s)" "h_func h = h_func (heads s)"
    by auto
  have s': "s' = u_goto c U_Idle (unfocus c h (s\<lparr>role := (\<lambda>p. if p \<in> h_freed h then Ro_Freed else role s p)\<rparr>))"
    using step run by (simp add: reclaim_finish_def)
  have split: "p \<in> set xs \<longleftrightarrow> p \<in> set (takeWhile ?P xs) \<or> p \<in> set (dropWhile ?P xs)" for p
    by (metis Un_iff set_append takeWhile_dropWhile_id)
  have dis: "set (takeWhile ?P xs) \<inter> set (dropWhile ?P xs) = {}"
    using xs(2) by (metis distinct_append takeWhile_dropWhile_id)
  have fr: "p \<in> h_freed (heads s) \<longleftrightarrow> role s p = Ro_Freed" for p
    using object_invD(4) [OF o, of p] by (simp add: heads_ok_def)
  have ro: "role s' p = (if p \<in> set (takeWhile ?P xs) then Ro_Freed else role s p)" for p
    using fr [of p] by (simp add: s' h(2))
  have tq: "p \<in> set (takeWhile ?P xs) \<Longrightarrow> role s p = Ro_Queued c \<and> ?P p" for p
    using xs(3) [of p] split [of p] by (auto dest: set_takeWhileD)
  have keep: "role s p \<noteq> Ro_Queued c \<Longrightarrow> role s' p = role s p" for p using ro tq by auto
  have ob: "object_inv n s'"
  proof (rule object_invI)
    show "pc_ok s' d (upc s' d)" for d
    proof (cases "d = c")
      case True
      with object_invD(1) [OF o, of c] u(1) show ?thesis by (simp add: s')
    next
      case False
      then have e: "upc s' d = upc s d" "sys s' = sys s" "mutex_owner s' = mutex_owner s" by (simp_all add: s')
      show ?thesis unfolding e(1)
        by (rule pc_ok_cong [OF _ _ _ _ object_invD(1) [OF o]]) (use e keep in auto)
    qed
    show "role s' (gp (sys s')) = Ro_Current" if a: "\<And>d. \<not> unlocking_pc (upc s' d)"
    proof -
      have "\<not> unlocking_pc (upc s e)" for e using u(1) a [of e] by (cases "e = c") (simp_all add: s')
      from object_invD(2) [OF o this] keep show ?thesis by (simp add: s')
    qed
    show "queue_ok s' d" for d
    proof (cases "d = c")
      case True
      have "queue_rep (focus c s') (dropWhile ?P xs)"
        by (rule queue_rep_frame [OF h(1)]) (use h(1) in \<open>auto simp: s' queue_rep_def\<close>)
      moreover have "\<forall>p. p \<in> set (dropWhile ?P xs) \<longleftrightarrow> role s' p = Ro_Queued c"
        using ro xs(3) split dis by auto
      ultimately show ?thesis using True by (auto simp: queue_ok_def)
    next
      case False
      have "p \<notin> h_freed h" if "role s p = Ro_Queued d" for p
        using that fr [of p] tq [of p] False h(2) by auto
      with False h(4) ro tq show ?thesis
        by (intro queue_other [OF object_invD(3) [OF o] False]) (auto simp: s' split: if_splits)
    qed
    show "heads_ok s' p" for p
      using object_invD(4) [OF o, of p] ro [of p] h(2,4,5) by (auto simp: heads_ok_def s')
  qed (use object_invD(5) [OF o] in \<open>simp add: s'\<close>)
  have e: "sys s' = sys s" "h_version (heads s') = h_version (heads s)" by (simp_all add: s' h(3))
  have "hold_inv s'" if "g_syncs (sys s') < 2 ^ 63 - 1"
  proof -
    have hi: "hold_inv s" using reclaim_invD(3) [OF inv] that e(1) by simp
    have none: "\<not> holds (sys s) r p" if p: "p \<in> set (takeWhile ?P xs)" for r p
    proof
      assume hd: "holds (sys s) r p"
      then have "rpc (sys s) r \<noteq> R_Out" by (simp add: holds_def)
      then have "r < n" "r \<noteq> c" using object_invD(5) [OF o] u(3) by auto
      with hold_invD(2) [OF hi, of c] u(1,2) tq [OF p] hd show False by auto
    qed
    have "hold_ok (versions (sys s') r) (h_version (heads s') p) (role s' p)" if "holds (sys s') r p" for r p
      using hold_invD(1) [OF hi, of r p] that none [of p r] e ro by auto
    moreover have "scan_ok s' d (upc s' d)" for d
    proof (cases "d = c")
      case True
      then show ?thesis by (simp add: s')
    next
      case False
      then have q: "role s' p = Ro_Queued d \<longleftrightarrow> role s p = Ro_Queued d" for p using ro tq by auto
      from False have "upc s' d = upc s d" by (simp add: s')
      with hold_invD(2) [OF hi, of d] q e show ?thesis by (cases "upc s d") auto
    qed
    ultimately show ?thesis by (simp add: hold_inv_def)
  qed
  with ob inv e show ?thesis by (simp add: reclaim_inv_def)
qed

section \<open>Every step\<close>

lemma inv_update:
  assumes inv: "reclaim_inv n s" and r: "rpc (sys s) c = R_Out" and step: "upd_step n c (upc s c) s = Next s'"
  shows "reclaim_inv n s'"
proof (cases "upc s c")
  case (U_Scan i m)
  with step inv_scan [OF inv U_Scan] inv_finish [OF inv U_Scan _ r] show ?thesis
    by (auto simp: scan_step_def split: if_splits)
qed (use step inv_deref [OF inv] inv_publish [OF inv] inv_mutex_release [OF inv] inv_free_rcu [OF inv] in
    \<open>auto split: if_splits\<close>)

lemma reclaim_inv_step:
  assumes inv: "reclaim_inv n s" and step: "reclaim_exec n e s = Next s'"
  shows "reclaim_inv n s'"
proof (cases e)
  case (Re_Read c)
  with step inv_reader_step [OF inv] inv show ?thesis
    by (cases "rpc (sys s) c") (auto simp: reader_use_def split: option.splits if_splits)
next
  case (Re_Update c new)
  with step inv_start [OF inv] show ?thesis by (auto split: if_splits)
next
  case (Re_Reclaim c)
  with step have "upc s c = U_Idle" "s' = u_goto c (U_Scan 0 UINT_MAX) s" by (auto split: if_splits)
  with inv_goto [OF inv, of c "U_Scan 0 UINT_MAX"] object_invD(1) [OF reclaim_invD(2) [OF inv], of c]
  show ?thesis by simp
next
  case (Re_Step c)
  with step inv_update [OF inv] show ?thesis by (auto split: if_splits)
qed (use step inv_reader_lock [OF inv] inv_reader_unlock [OF inv] inv_offline [OF inv] inv_flush [OF inv]
    inv_sync [OF inv] in \<open>auto split: if_splits\<close>)

interpretation reclaim: invariant_machine reclaim_init "reclaim_exec n" "reclaim_inv n" for n
  by unfold_locales (rule reclaim_inv_init, rule reclaim_inv_step)

lemma reader_step_no_fault:
  assumes "\<And>p. rpc y c \<noteq> R_In (Some p)"
  shows "reader_step c y \<noteq> Fault f"
  using assms by (auto simp: reader_step_def split: reader_pc.splits option.splits)

lemma reclaim_no_fault:
  assumes inv: "reclaim_inv n s" and b: "g_syncs (sys s) < 2 ^ 63 - 1"
  shows "reclaim_exec n e s \<noteq> Fault f"
proof (cases e)
  case (Re_Read c)
  have "p \<notin> h_freed (heads s)" if "rpc (sys s) c = R_In (Some p)" for p
    using hold_invD(1) [OF reclaim_invD(3) [OF inv b], of c p] that
      object_invD(4) [OF reclaim_invD(2) [OF inv], of p]
    by (auto simp: holds_def heads_ok_def)
  with Re_Read reader_step_no_fault [of "sys s" c f] show ?thesis
    by (auto simp: reader_use_def split: reader_pc.splits option.splits)
next
  case (Re_Step c)
  have "upd_step n c (upc s c) s \<noteq> Fault f"
  proof (cases "upc s c")
    case (U_Scan i m)
    with finish_runs [OF inv, of m c] show ?thesis by (auto simp: scan_step_def reclaim_finish_def)
  qed (auto simp: free_rcu_step_def Let_def split: option.splits prod.splits)
  with Re_Step show ?thesis by simp
qed (auto simp: reader_lock_def reader_unlock_def core_offline_def flush_def other_sync_def Let_def
    split: prod.splits reader_pc.splits list.splits option.splits)

section \<open>Properties\<close>

text \<open>
  Property C4 (deferred reclamation is safe). With any number of cores reading, replacing the object,
  queueing the old ones with \<open>free_rcu\<close> and reclaiming at the same time, no reader ever uses an
  object that was released, and no released object is released or touched again, as long as fewer
  than \<open>LONG_LONG_MAX\<close> versions were handed out.
\<close>
theorem rcu_reclaim_safe:
  assumes "reach (reclaim_exec n) reclaim_init s" and "g_syncs (sys s) < 2 ^ 63 - 1"
  shows "reclaim_exec n e s \<noteq> Fault f \<and>
    (rpc (sys s) c = R_In (Some p) \<longrightarrow> p \<notin> h_freed (heads s))"
proof
  note inv = reclaim.reach_inv [OF assms(1)]
  show "reclaim_exec n e s \<noteq> Fault f" by (rule reclaim_no_fault [OF inv assms(2)])
  show "rpc (sys s) c = R_In (Some p) \<longrightarrow> p \<notin> h_freed (heads s)"
    using hold_invD(1) [OF reclaim_invD(3) [OF inv assms(2)], of c p]
      object_invD(4) [OF reclaim_invD(2) [OF inv], of p]
    by (auto simp: holds_def heads_ok_def)
qed

text \<open>
  A run: core 1 reads object 0 while core 0 replaces it, queues it, and reclaims; nothing is released
  until core 1 goes offline.
\<close>

definition reclaim_demo :: "reclaim_event list" where
  "reclaim_demo = [Re_Lock 1, Re_Read 1, Re_Read 1, Re_Read 1, Re_Drain 1, Re_Read 1, Re_Read 1,
     Re_Update 0 5, Re_Step 0, Re_Step 0, Re_Drain 0, Re_Step 0, Re_Step 0,
     Re_Reclaim 0, Re_Step 0, Re_Step 0, Re_Step 0]"

lemmas reclaim_run_simps = rcu_exec_defs rcu_sys_init_def rcu_init_def DONE_def reclaim_init_def
  reader_use_def free_rcu_step_def rcu_data_enqueue_def focus_def unfocus_def scan_step_def
  reclaim_finish_def empty_queue_def rcu_cb.defs rcu_queue.defs UINT_MAX_def

lemma reclaim_demo_run:
  "\<exists>s. run (reclaim_exec 2) reclaim_demo reclaim_init = Next s \<and> rpc (sys s) 1 = R_In (Some 0) \<and>
     g_syncs (sys s) = 1 \<and> role s 0 = Ro_Queued 0 \<and> upc s 0 = U_Idle"
  by (simp add: reclaim_demo_def reclaim_run_simps reclaim_loop.simps [of _ "Some 0"] min_def
      word_le_nat_alt word_less_nat_alt del: bind_outcome_Next)

theorem rcu_reclaim_safe_witness:
  "\<exists>s. run (reclaim_exec 2) reclaim_demo reclaim_init = Next s \<and> rpc (sys s) 1 = R_In (Some 0) \<and>
     role s 0 = Ro_Queued 0 \<and> 0 \<notin> h_freed (heads s)"
proof -
  obtain s where s: "run (reclaim_exec 2) reclaim_demo reclaim_init = Next s" "rpc (sys s) 1 = R_In (Some 0)"
    "g_syncs (sys s) = 1" "role s 0 = Ro_Queued 0" using reclaim_demo_run by blast
  have "g_syncs (sys s) < 2 ^ 63 - 1" using s(3) by simp
  from rcu_reclaim_safe [OF run_reach [OF reach_init s(1)] this, of "Re_Read 1" UseAfterFree 1 0] s
  show ?thesis by blast
qed

text \<open>When the reader has left and its core is offline, the same core reclaims the object.\<close>

definition reclaim_demo_end :: "reclaim_event list" where
  "reclaim_demo_end = [Re_Unlock 1, Re_Offline 1, Re_Drain 1, Re_Reclaim 0, Re_Step 0, Re_Step 0, Re_Step 0]"

lemma reclaim_demo_released:
  "\<exists>s. run (reclaim_exec 2) (reclaim_demo @ reclaim_demo_end) reclaim_init = Next s \<and> h_freed (heads s) = {0}"
  by (simp add: reclaim_demo_def reclaim_demo_end_def reclaim_run_simps reclaim_loop.simps [of _ "Some 0"]
      reclaim_loop.simps [of _ None] min_def invoke_def free_rcu_cb_def
      word_le_nat_alt word_less_nat_alt del: bind_outcome_Next)

text \<open>The scan of \<open>thread_call_rcu\<close>, run alone, keeps every bound that the cores respect.\<close>

lemma scan_run:
  assumes "rpc (sys s) c = R_Out" and bound: "\<And>i. i < n \<Longrightarrow> i \<noteq> c \<Longrightarrow> v \<le> versions (sys s) i"
  shows "i \<le> n \<Longrightarrow> v \<le> m \<Longrightarrow> \<exists>m'. v \<le> m' \<and>
    run (reclaim_exec n) (replicate (n - i) (Re_Step c)) (u_goto c (U_Scan i m) s) = Next (u_goto c (U_Scan n m') s)"
proof (induction "n - i" arbitrary: i m)
  case 0
  then show ?case by auto
next
  case (Suc k)
  then have i: "i < n" by simp
  let ?m = "if i = c then m else min m (versions (sys s) i)"
  have "v \<le> ?m" using Suc.prems(2) bound [OF i] by simp
  moreover have "k = n - Suc i" "Suc i \<le> n" using Suc.hyps(2) i by simp_all
  ultimately obtain m' where "v \<le> m'"
    "run (reclaim_exec n) (replicate (n - Suc i) (Re_Step c)) (u_goto c (U_Scan (Suc i) ?m) s) = Next (u_goto c (U_Scan n m') s)"
    using Suc.hyps(1) [of "Suc i" ?m] by blast
  moreover have "reclaim_exec n (Re_Step c) (u_goto c (U_Scan i m) s) = Next (u_goto c (U_Scan (Suc i) ?m) s)"
    using assms(1) i by (simp add: scan_step_def)
  moreover have "replicate (n - i) (Re_Step c) = Re_Step c # replicate (n - Suc i) (Re_Step c)"
    using i by (simp add: Suc_diff_Suc [symmetric])
  ultimately show ?case by (intro exI [of _ m']) simp
qed


text \<open>In the run above, core 1 has gone offline and object 0 is still queued on core 0.\<close>

definition reclaim_demo_left :: "reclaim_event list" where
  "reclaim_demo_left = [Re_Unlock 1, Re_Offline 1, Re_Drain 1]"

lemma reclaim_demo_left_run:
  "\<exists>s. run (reclaim_exec 2) (reclaim_demo @ reclaim_demo_left) reclaim_init = Next s \<and> rpc (sys s) 0 = R_Out \<and>
     upc s 0 = U_Idle \<and> role s 0 = Ro_Queued 0 \<and> h_version (heads s) = (\<lambda>_. 0)(0 := 1) \<and> versions (sys s) 1 = DONE"
  by (simp add: reclaim_demo_def reclaim_demo_left_def reclaim_run_simps reclaim_loop.simps [of _ "Some 0"] min_def
      word_le_nat_alt word_less_nat_alt del: bind_outcome_Next)


end
