(* ===== verification/CdsList.thy ===== *)
theory CdsList
  imports Prelude
begin

text \<open>
  The intrusive circular lists of \<^verbatim>\<open>cds/list.h\<close>, \<^verbatim>\<open>cds/rculist.h\<close> and
  \<^verbatim>\<open>cds/list.cpp\<close>.

  Memory is a record with the \<open>next\<close> and \<open>prev\<close> field of every node address; every operation
  performs the assignments of the source in their order, each reading the fields as they are at
  that moment.  \<open>ring s h xs\<close> is the abstraction: the list with head \<open>h\<close> holds the nodes \<open>xs\<close>,
  doubly linked.  The operations for concurrent readers (\<^verbatim>\<open>rculist.h\<close>) are the lists of
  their stores, so that a reader can run between any two of them.
\<close>

section \<open>Nodes and assignments\<close>

record list_heap =
  nxt :: "nat \<Rightarrow> nat"
  prv :: "nat \<Rightarrow> nat"

definition set_next :: "nat \<Rightarrow> nat \<Rightarrow> 'b list_heap_scheme \<Rightarrow> 'b list_heap_scheme" where
  "set_next a v s = s\<lparr>nxt := (nxt s)(a := v)\<rparr>"

definition set_prev :: "nat \<Rightarrow> nat \<Rightarrow> 'b list_heap_scheme \<Rightarrow> 'b list_heap_scheme" where
  "set_prev a v s = s\<lparr>prv := (prv s)(a := v)\<rparr>"

lemma set_fields [simp]:
  "nxt (set_next a v s) = (nxt s)(a := v)" "prv (set_next a v s) = prv s"
  "prv (set_prev a v s) = (prv s)(a := v)" "nxt (set_prev a v s) = nxt s"
  by (simp_all add: set_next_def set_prev_def)

section \<open>The operations of \<open>list.h\<close>\<close>

definition CDS_INIT_LIST_HEAD :: "nat \<Rightarrow> 'b list_heap_scheme \<Rightarrow> 'b list_heap_scheme" where
  "CDS_INIT_LIST_HEAD ptr s = (let s1 = set_prev ptr ptr s in set_next ptr (prv s1 ptr) s1)"

definition list_add :: "nat \<Rightarrow> nat \<Rightarrow> 'b list_heap_scheme \<Rightarrow> 'b list_heap_scheme" where
  "list_add newp head s =
     (let s1 = set_prev (nxt s head) newp s;
          s2 = set_next newp (nxt s1 head) s1;
          s3 = set_prev newp head s2
      in set_next head newp s3)"

definition list_add_tail :: "nat \<Rightarrow> nat \<Rightarrow> 'b list_heap_scheme \<Rightarrow> 'b list_heap_scheme" where
  "list_add_tail newp head s =
     (let s1 = set_next (prv s head) newp s;
          s2 = set_next newp head s1;
          s3 = set_prev newp (prv s2 head) s2
      in set_prev head newp s3)"

definition list_del_between :: "nat \<Rightarrow> nat \<Rightarrow> 'b list_heap_scheme \<Rightarrow> 'b list_heap_scheme" where
  "list_del_between prev next s = set_next prev next (set_prev next prev s)"

definition cds_list_del :: "nat \<Rightarrow> 'b list_heap_scheme \<Rightarrow> 'b list_heap_scheme" where
  "cds_list_del elem s = list_del_between (prv s elem) (nxt s elem) s"

definition cds_list_del_init :: "nat \<Rightarrow> 'b list_heap_scheme \<Rightarrow> 'b list_heap_scheme" where
  "cds_list_del_init elem s = CDS_INIT_LIST_HEAD elem (cds_list_del elem s)"

definition cds_list_move :: "nat \<Rightarrow> nat \<Rightarrow> 'b list_heap_scheme \<Rightarrow> 'b list_heap_scheme" where
  "cds_list_move elem head s = list_add elem head (list_del_between (prv s elem) (nxt s elem) s)"

definition cds_list_replace :: "nat \<Rightarrow> nat \<Rightarrow> 'b list_heap_scheme \<Rightarrow> 'b list_heap_scheme" where
  "cds_list_replace old new s =
     (let s1 = set_next new (nxt s old) s;
          s2 = set_prev new (prv s1 old) s1;
          s3 = set_next (prv s2 new) new s2
      in set_prev (nxt s3 new) new s3)"

definition cds_list_splice :: "nat \<Rightarrow> nat \<Rightarrow> 'b list_heap_scheme \<Rightarrow> 'b list_heap_scheme" where
  "cds_list_splice add head s =
     (if add \<noteq> nxt s add then
        let s1 = set_prev (nxt s add) head s;
            s2 = set_next (prv s1 add) (nxt s1 head) s1;
            s3 = set_prev (nxt s2 head) (prv s2 add) s2
        in set_next head (nxt s3 add) s3
      else s)"

definition cds_list_empty :: "nat \<Rightarrow> 'b list_heap_scheme \<Rightarrow> bool" where
  "cds_list_empty head s \<longleftrightarrow> head = nxt s head"

text \<open>
  \<open>cds_list_replace_init\<close> calls \<open>cds_list_add_tail\<close>, which no file of the repository declares: it
  is an argument.
\<close>

definition cds_list_replace_init ::
    "(nat \<Rightarrow> nat \<Rightarrow> 'b list_heap_scheme \<Rightarrow> 'b list_heap_scheme) \<Rightarrow> nat \<Rightarrow> nat \<Rightarrow>
      'b list_heap_scheme \<Rightarrow> 'b list_heap_scheme" where
  "cds_list_replace_init cds_list_add_tail old new s =
     (let head = nxt s old
      in CDS_INIT_LIST_HEAD old (cds_list_add_tail new head (cds_list_del old s)))"

text \<open>
  The iteration macros, with the loop body as an argument.  A list whose links do not lead back
  to the head makes them run forever; then their value is \<open>None\<close>.
\<close>

partial_function (option) for_each_from ::
    "nat \<Rightarrow> (nat \<Rightarrow> 'b list_heap_scheme \<Rightarrow> 'b list_heap_scheme) \<Rightarrow> nat \<Rightarrow>
      'b list_heap_scheme \<Rightarrow> 'b list_heap_scheme option" where
  "for_each_from head body pos s =
     (if pos = head then Some s
      else let s1 = body pos s in for_each_from head body (nxt s1 pos) s1)"

definition cds_list_for_each where
  "cds_list_for_each head body s = for_each_from head body (nxt s head) s"

partial_function (option) for_each_prev_from ::
    "nat \<Rightarrow> (nat \<Rightarrow> 'b list_heap_scheme \<Rightarrow> 'b list_heap_scheme) \<Rightarrow> nat \<Rightarrow>
      'b list_heap_scheme \<Rightarrow> 'b list_heap_scheme option" where
  "for_each_prev_from head body pos s =
     (if pos = head then Some s
      else let s1 = body pos s in for_each_prev_from head body (prv s1 pos) s1)"

definition cds_list_for_each_prev where
  "cds_list_for_each_prev head body s = for_each_prev_from head body (prv s head) s"

partial_function (option) for_each_safe_from ::
    "nat \<Rightarrow> (nat \<Rightarrow> 'b list_heap_scheme \<Rightarrow> 'b list_heap_scheme) \<Rightarrow> nat \<Rightarrow> nat \<Rightarrow>
      'b list_heap_scheme \<Rightarrow> 'b list_heap_scheme option" where
  "for_each_safe_from head body pos p s =
     (if pos = head then Some s
      else let s1 = body pos s in for_each_safe_from head body p (nxt s1 p) s1)"

definition cds_list_for_each_safe where
  "cds_list_for_each_safe head body s =
     (let pos = nxt s head in for_each_safe_from head body pos (nxt s pos) s)"

partial_function (option) for_each_prev_safe_from ::
    "nat \<Rightarrow> (nat \<Rightarrow> 'b list_heap_scheme \<Rightarrow> 'b list_heap_scheme) \<Rightarrow> nat \<Rightarrow> nat \<Rightarrow>
      'b list_heap_scheme \<Rightarrow> 'b list_heap_scheme option" where
  "for_each_prev_safe_from head body pos p s =
     (if pos = head then Some s
      else let s1 = body pos s in for_each_prev_safe_from head body p (prv s1 p) s1)"

definition cds_list_for_each_prev_safe where
  "cds_list_for_each_prev_safe head body s =
     (let pos = prv s head in for_each_prev_safe_from head body pos (prv s pos) s)"

section \<open>Doubly linked segments and rings\<close>

primrec dseg :: "'b list_heap_scheme \<Rightarrow> nat \<Rightarrow> nat list \<Rightarrow> nat \<Rightarrow> bool" where
  "dseg s p [] q \<longleftrightarrow> nxt s p = q \<and> prv s q = p"
| "dseg s p (x # xs) q \<longleftrightarrow> nxt s p = x \<and> prv s x = p \<and> dseg s x xs q"

definition ring :: "'b list_heap_scheme \<Rightarrow> nat \<Rightarrow> nat list \<Rightarrow> bool" where
  "ring s h xs \<longleftrightarrow> dseg s h xs h \<and> distinct (h # xs)"

lemma dseg_append [simp]:
  "dseg s p (xs @ y # ys) q \<longleftrightarrow> dseg s p xs y \<and> dseg s y ys q"
  by (induction xs arbitrary: p) auto

lemma dseg_ends:
  "dseg s p xs q \<Longrightarrow> nxt s p = (if xs = [] then q else hd xs)"
  "dseg s p xs q \<Longrightarrow> prv s q = (if xs = [] then p else last xs)"
  by (induction xs arbitrary: p) auto

lemma dseg_cong:
  assumes "\<And>x. x \<in> set (p # xs) \<Longrightarrow> nxt s' x = nxt s x"
    and "\<And>x. x \<in> set (q # xs) \<Longrightarrow> prv s' x = prv s x"
  shows "dseg s' p xs q = dseg s p xs q"
  using assms by (induction xs arbitrary: p) auto

text \<open>Changing a \<open>next\<close> field outside the segment, or a \<open>prev\<close> field, keeps it.\<close>

lemma dseg_frame [simp]:
  "a \<noteq> p \<Longrightarrow> a \<notin> set xs \<Longrightarrow> dseg (set_next a v s) p xs q = dseg s p xs q"
  "a \<noteq> q \<Longrightarrow> a \<notin> set xs \<Longrightarrow> dseg (set_prev a v s) p xs q = dseg s p xs q"
  by (rule dseg_cong; auto)+

lemma ring_frame:
  assumes "ring s h xs"
    and "\<And>x. x \<in> set (h # xs) \<Longrightarrow> nxt s' x = nxt s x \<and> prv s' x = prv s x"
  shows "ring s' h xs"
  using assms dseg_cong [of h xs s' s h] by (auto simp: ring_def)

text \<open>Where the neighbours of a node in a ring are.\<close>

lemma ring_split_next:
  "ring s h (xs @ e # ys) \<Longrightarrow> nxt s e = (if ys = [] then h else hd ys)"
  by (auto simp: ring_def dest: dseg_ends)

lemma ring_split_prev:
  "ring s h (xs @ e # ys) \<Longrightarrow> prv s e = (if xs = [] then h else last xs)"
  by (auto simp: ring_def dest: dseg_ends)

lemma ring_head:
  "ring s h xs \<Longrightarrow> nxt s h = (if xs = [] then h else hd xs)"
  "ring s h xs \<Longrightarrow> prv s h = (if xs = [] then h else last xs)"
  by (auto simp: ring_def dest: dseg_ends)

lemma ring_empty [simp]: "ring s h [] \<longleftrightarrow> nxt s h = h \<and> prv s h = h"
  by (simp add: ring_def)

section \<open>The operations on rings\<close>

lemmas list_ops = list_add_def list_add_tail_def list_del_between_def cds_list_del_def
  cds_list_replace_def CDS_INIT_LIST_HEAD_def

lemma list_add_ring:
  "ring s h xs \<Longrightarrow> n \<notin> set (h # xs) \<Longrightarrow> ring (list_add n h s) h (n # xs)"
  by (cases xs) (auto simp: ring_def list_ops Let_def)

lemma list_add_tail_ring:
  "ring s h xs \<Longrightarrow> n \<notin> set (h # xs) \<Longrightarrow> ring (list_add_tail n h s) h (xs @ [n])"
  by (cases xs rule: rev_cases) (auto simp: ring_def list_ops Let_def)

lemma cds_list_del_ring:
  assumes "ring s h (xs @ e # ys)"
  shows "ring (cds_list_del e s) h (xs @ ys)"
proof -
  note e = ring_split_next [OF assms] ring_split_prev [OF assms]
  show ?thesis
  proof (cases xs rule: rev_cases)
    case Nil
    with assms e show ?thesis by (cases ys) (auto simp: ring_def list_ops Let_def)
  next
    case (snoc as a)
    with assms e show ?thesis by (cases ys) (auto simp: ring_def list_ops Let_def)
  qed
qed

text \<open>Deletion and insertion only write the fields of neighbours and of the new node.\<close>

lemma cds_list_del_frame:
  "x \<noteq> prv s e \<Longrightarrow> nxt (cds_list_del e s) x = nxt s x"
  "x \<noteq> nxt s e \<Longrightarrow> prv (cds_list_del e s) x = prv s x"
  by (simp_all add: list_ops)

lemma ring_neighbours:
  assumes "ring s h (xs @ e # ys)"
  shows "prv s e \<in> insert h (set xs)" "nxt s e \<in> insert h (set ys)"
  using ring_split_next [OF assms] ring_split_prev [OF assms] by auto

lemma CDS_INIT_LIST_HEAD_ring: "ring (CDS_INIT_LIST_HEAD e s) e []"
  by (simp add: CDS_INIT_LIST_HEAD_def Let_def)

lemma CDS_INIT_LIST_HEAD_frame: "ring s h xs \<Longrightarrow> e \<notin> set (h # xs) \<Longrightarrow> ring (CDS_INIT_LIST_HEAD e s) h xs"
  by (rule ring_frame) (auto simp: CDS_INIT_LIST_HEAD_def Let_def)

lemma ring_disjoint_del:
  assumes "ring s h (xs @ e # ys)" "ring s g zs" "set (h # xs @ e # ys) \<inter> set (g # zs) = {}"
  shows "ring (cds_list_del e s) g zs"
  using assms(2) ring_neighbours [OF assms(1)] assms(3)
  by (intro ring_frame [OF assms(2)]) (auto intro!: cds_list_del_frame)

lemma ring_head_in:
  "ring s h xs \<Longrightarrow> nxt s h \<in> set (h # xs)" "ring s h xs \<Longrightarrow> prv s h \<in> set (h # xs)"
  using ring_head by fastforce+

lemma list_add_frame:
  assumes "ring s h xs" "ring s g zs" "set (n # h # xs) \<inter> set (g # zs) = {}"
  shows "ring (list_add n h s) g zs"
  using assms(3) ring_head_in [OF assms(1)]
  by (intro ring_frame [OF assms(2)]) (auto simp: list_ops Let_def)

lemma list_add_tail_frame:
  assumes "ring s h xs" "ring s g zs" "set (n # h # xs) \<inter> set (g # zs) = {}"
  shows "ring (list_add_tail n h s) g zs"
  using assms(3) ring_head_in [OF assms(1)]
  by (intro ring_frame [OF assms(2)]) (auto simp: list_ops Let_def)

section \<open>Properties of \<open>list.h\<close>\<close>

text \<open>Memory with two lists: 0 holds 1, 2, 3 and 10 holds 11, 12.\<close>

definition two_lists :: list_heap where
  "two_lists = \<lparr>nxt = id(0 := 1, 1 := 2, 2 := 3, 3 := 0, 10 := 11, 11 := 12, 12 := 10),
     prv = id(0 := 3, 1 := 0, 2 := 1, 3 := 2, 10 := 12, 11 := 10, 12 := 11)\<rparr>"

lemma two_lists_rings: "ring two_lists 0 [1, 2, 3]" "ring two_lists 10 [11, 12]"
  by (simp_all add: ring_def two_lists_def)

lemma two_lists_splits:
  "ring two_lists 0 ([1] @ 2 # [3])" "ring two_lists 0 ([] @ 1 # [2, 3])"
  using two_lists_rings(1) by simp_all

text \<open>
  Also shown (insertion). \<open>list_add\<close> puts a new node first and \<open>list_add_tail\<close> puts it last;
  other lists are untouched.
\<close>
theorem list_add_inserts:
  assumes "ring s h xs" and "n \<notin> set (h # xs)"
    and "ring s g zs" and "set (n # h # xs) \<inter> set (g # zs) = {}"
  shows "ring (list_add n h s) h (n # xs) \<and> ring (list_add_tail n h s) h (xs @ [n]) \<and>
    ring (list_add n h s) g zs \<and> ring (list_add_tail n h s) g zs"
  using list_add_ring [OF assms(1,2)] list_add_tail_ring [OF assms(1,2)]
    list_add_frame [OF assms(1,3,4)] list_add_tail_frame [OF assms(1,3,4)] by blast

theorem list_add_inserts_witness:
  "ring (list_add 5 0 two_lists) 0 [5, 1, 2, 3] \<and> ring (list_add_tail 5 0 two_lists) 0 [1, 2, 3, 5]"
  using list_add_inserts [OF two_lists_rings(1), of 5 10 "[11, 12]"] two_lists_rings(2) by simp

text \<open>
  Also shown (deletion). \<open>cds_list_del\<close> takes a node out of the list it is in and keeps the order
  of the others; the node keeps its own links, so a reader that stands on it finds its way back
  into the list.  \<open>cds_list_del_init\<close> also makes the node an empty list of its own.
\<close>
theorem cds_list_del_removes:
  assumes "ring s h (xs @ e # ys)"
  shows "ring (cds_list_del e s) h (xs @ ys) \<and> nxt (cds_list_del e s) e = nxt s e \<and>
    prv (cds_list_del e s) e = prv s e \<and>
    ring (cds_list_del_init e s) h (xs @ ys) \<and> ring (cds_list_del_init e s) e []"
proof -
  from assms have e: "e \<notin> set (h # xs @ ys)" by (auto simp: ring_def)
  with ring_neighbours [OF assms] have "e \<noteq> prv s e" "e \<noteq> nxt s e" by auto
  then have "nxt (cds_list_del e s) e = nxt s e" "prv (cds_list_del e s) e = prv s e"
    by (simp_all add: cds_list_del_frame)
  with cds_list_del_ring [OF assms] e show ?thesis
    by (simp add: cds_list_del_init_def CDS_INIT_LIST_HEAD_frame CDS_INIT_LIST_HEAD_ring
        del: ring_empty)
qed

theorem cds_list_del_removes_witness:
  "ring (cds_list_del 2 two_lists) 0 [1, 3] \<and> ring (cds_list_del_init 2 two_lists) 2 []"
  using cds_list_del_removes [OF two_lists_splits(1)] by simp

text \<open>
  Also shown (moving). \<open>cds_list_move\<close> takes a node out of one list and puts it first in
  another one, or first in the same list.
\<close>
theorem cds_list_move_moves:
  assumes "ring s h (xs @ e # ys)"
  shows "(h' = h \<longrightarrow> ring (cds_list_move e h' s) h (e # xs @ ys)) \<and>
    (ring s h' zs \<and> set (h # xs @ e # ys) \<inter> set (h' # zs) = {} \<longrightarrow>
       ring (cds_list_move e h' s) h (xs @ ys) \<and> ring (cds_list_move e h' s) h' (e # zs))"
proof (intro conjI impI)
  have m: "cds_list_move e h' s = list_add e h' (cds_list_del e s)" for h'
    by (simp add: cds_list_move_def cds_list_del_def)
  from assms have e: "e \<notin> set (h # xs @ ys)" by (auto simp: ring_def)
  from list_add_ring [OF cds_list_del_ring [OF assms] e]
  show "h' = h \<Longrightarrow> ring (cds_list_move e h' s) h (e # xs @ ys)" by (simp add: m)
  assume a: "ring s h' zs \<and> set (h # xs @ e # ys) \<inter> set (h' # zs) = {}"
  then have r: "ring (cds_list_del e s) h' zs" using ring_disjoint_del [OF assms] by blast
  from r a show "ring (cds_list_move e h' s) h' (e # zs)"
    by (auto simp: m intro!: list_add_ring)
  from a e have "set (e # h' # zs) \<inter> set (h # xs @ ys) = {}" by auto
  from list_add_frame [OF r cds_list_del_ring [OF assms] this]
  show "ring (cds_list_move e h' s) h (xs @ ys)" by (simp add: m)
qed

theorem cds_list_move_moves_witness:
  "ring (cds_list_move 2 10 two_lists) 0 [1, 3] \<and> ring (cds_list_move 2 10 two_lists) 10 [2, 11, 12]"
  using cds_list_move_moves [OF two_lists_splits(1), of 10 "[11, 12]"] two_lists_rings(2) by simp

lemma cds_list_replace_ring:
  assumes "ring s h (xs @ e # ys)" "n \<notin> set (h # xs @ e # ys)"
  shows "ring (cds_list_replace e n s) h (xs @ n # ys)"
proof -
  note e = ring_split_next [OF assms(1)] ring_split_prev [OF assms(1)]
  show ?thesis
  proof (cases xs rule: rev_cases)
    case Nil
    with assms e show ?thesis by (cases ys) (auto simp: ring_def list_ops Let_def)
  next
    case (snoc as a)
    with assms e show ?thesis by (cases ys) (auto simp: ring_def list_ops Let_def)
  qed
qed

lemma cds_list_splice_ring:
  assumes "ring s a xs" "ring s h ys" "set (a # xs) \<inter> set (h # ys) = {}"
  shows "ring (cds_list_splice a h s) h (xs @ ys)"
proof (cases xs)
  case Nil
  with assms show ?thesis by (simp add: cds_list_splice_def)
next
  case (Cons x as)
  note ends = ring_head [OF assms(1)] ring_head [OF assms(2)]
  show ?thesis
  proof (cases as rule: rev_cases)
    case Nil
    with Cons assms ends show ?thesis
      by (cases ys) (auto simp: ring_def cds_list_splice_def Let_def)
  next
    case (snoc bs b)
    with Cons assms ends show ?thesis
      by (cases ys) (auto simp: ring_def cds_list_splice_def Let_def)
  qed
qed

text \<open>
  Also shown (replacement). \<open>cds_list_replace\<close> puts the new node at the place of the old one and
  leaves the rest of the list as it was.
\<close>
theorem cds_list_replace_replaces:
  assumes "ring s h (xs @ e # ys)" and "n \<notin> set (h # xs @ e # ys)"
  shows "ring (cds_list_replace e n s) h (xs @ n # ys)"
  using assms by (rule cds_list_replace_ring)

theorem cds_list_replace_replaces_witness: "ring (cds_list_replace 2 7 two_lists) 0 [1, 7, 3]"
  using cds_list_replace_replaces [OF two_lists_splits(1), of 7] by simp

text \<open>
  Also shown (joining). \<open>cds_list_splice\<close> puts all nodes of a list, in order, before the first
  node of another one, and does nothing when the list is empty; \<open>cds_list_empty\<close> decides that.
\<close>
theorem cds_list_splice_joins:
  assumes "ring s a xs" and "ring s h ys" and "set (a # xs) \<inter> set (h # ys) = {}"
  shows "ring (cds_list_splice a h s) h (xs @ ys) \<and> (cds_list_empty a s \<longleftrightarrow> xs = []) \<and>
    (cds_list_empty a s \<longrightarrow> cds_list_splice a h s = s)"
proof -
  have "nxt s a = (if xs = [] then a else hd xs)" "a \<notin> set xs"
    using ring_head(1) [OF assms(1)] assms(1) by (auto simp: ring_def)
  then have "cds_list_empty a s \<longleftrightarrow> xs = []"
    by (auto simp: cds_list_empty_def dest: hd_in_set)
  with cds_list_splice_ring [OF assms] show ?thesis
    by (auto simp: cds_list_empty_def cds_list_splice_def)
qed

theorem cds_list_splice_joins_witness:
  "ring (cds_list_splice 10 0 two_lists) 0 [11, 12, 1, 2, 3]"
  using cds_list_splice_joins [OF two_lists_rings(2,1)] by simp

text \<open>
  Also shown (\<open>cds_list_replace_init\<close>). The function deletes the old node and adds the new one
  before its successor.  With a \<open>cds_list_add_tail\<close> that inserts before the node it is given, as
  the user-space RCU library documents, the new node takes the place of the old one, which ends as
  an empty list.
\<close>
theorem cds_list_replace_init_replaces:
  assumes add_tail: "\<And>t x q. cds_list_add_tail x q t = list_add_tail x q t"
    and "ring s h (xs @ e # ys)" and "n \<notin> set (h # xs @ e # ys)"
  shows "ring (cds_list_replace_init cds_list_add_tail e n s) h (xs @ n # ys) \<and>
    ring (cds_list_replace_init cds_list_add_tail e n s) e []"
proof
  have q: "nxt s e = (if ys = [] then h else hd ys)" using assms(2) by (rule ring_split_next)
  from assms(2) have e: "e \<notin> set (h # xs @ ys)" by (auto simp: ring_def)
  let ?t = "cds_list_del e s"
  have del: "ring ?t h (xs @ ys)" using assms(2) by (rule cds_list_del_ring)
  have "ring (list_add_tail n (nxt s e) ?t) h (xs @ n # ys)"
  proof (cases ys)
    case Nil
    with q list_add_tail_ring [OF del] assms(3) show ?thesis by simp
  next
    case (Cons y zs)
    with del have p: "prv ?t y = (if xs = [] then h else last xs)" by (simp add: ring_split_prev)
    show ?thesis
      using del Cons q p assms(3)
      by (cases xs rule: rev_cases) (auto simp: ring_def list_add_tail_def Let_def)
  qed
  from CDS_INIT_LIST_HEAD_frame [OF this, of e] e assms(3)
  show "ring (cds_list_replace_init cds_list_add_tail e n s) h (xs @ n # ys)"
    by (auto simp: cds_list_replace_init_def add_tail Let_def)
  show "ring (cds_list_replace_init cds_list_add_tail e n s) e []"
    unfolding cds_list_replace_init_def Let_def by (rule CDS_INIT_LIST_HEAD_ring)
qed

theorem cds_list_replace_init_replaces_witness:
  "ring (cds_list_replace_init list_add_tail 2 7 two_lists) 0 [1, 7, 3]"
  using cds_list_replace_init_replaces [of list_add_tail, OF refl two_lists_splits(1), of 7] by simp

section \<open>Iteration\<close>

text \<open>One direction of a list: following \<open>nx\<close> from \<open>p\<close> gives \<open>xs\<close> and then \<open>q\<close>.\<close>

primrec fseg :: "(nat \<Rightarrow> nat) \<Rightarrow> nat \<Rightarrow> nat list \<Rightarrow> nat \<Rightarrow> bool" where
  "fseg nx p [] q \<longleftrightarrow> nx p = q"
| "fseg nx p (x # xs) q \<longleftrightarrow> nx p = x \<and> fseg nx x xs q"

lemma fseg_append [simp]:
  "fseg nx p (xs @ y # ys) q \<longleftrightarrow> fseg nx p xs y \<and> fseg nx y ys q"
  by (induction xs arbitrary: p) auto

lemma fseg_frame [simp]:
  "a \<noteq> p \<Longrightarrow> a \<notin> set xs \<Longrightarrow> fseg (nx(a := v)) p xs q = fseg nx p xs q"
  by (induction xs arbitrary: p) auto

lemma dseg_forward: "dseg s p xs q \<Longrightarrow> fseg (nxt s) p xs q"
  by (induction xs arbitrary: p) auto

lemma dseg_backward: "dseg s p xs q \<Longrightarrow> fseg (prv s) q (rev xs) p"
  by (induction xs arbitrary: p) auto

lemma ring_paths:
  assumes "ring s h xs"
  shows "fseg (nxt s) h xs h" "fseg (prv s) h (rev xs) h" "h \<notin> set xs"
  using assms by (auto simp: ring_def intro: dseg_forward dseg_backward)

lemma for_each_from_visits:
  assumes "\<And>x t. nxt (body x t) = nxt t"
  shows "fseg (nxt s) p xs h \<Longrightarrow> h \<notin> set xs \<Longrightarrow>
    for_each_from h body (nxt s p) s = Some (fold body xs s)"
proof (induction xs arbitrary: p s)
  case (Cons x xs)
  from Cons.IH [of "body x s" x] Cons.prems show ?case
    by (simp add: for_each_from.simps [of h body x] assms Let_def)
qed (simp add: for_each_from.simps)

lemma for_each_prev_from_visits:
  assumes "\<And>x t. prv (body x t) = prv t"
  shows "fseg (prv s) p xs h \<Longrightarrow> h \<notin> set xs \<Longrightarrow>
    for_each_prev_from h body (prv s p) s = Some (fold body xs s)"
proof (induction xs arbitrary: p s)
  case (Cons x xs)
  from Cons.IH [of "body x s" x] Cons.prems show ?case
    by (simp add: for_each_prev_from.simps [of h body x] assms Let_def)
qed (simp add: for_each_prev_from.simps)

text \<open>
  The loop of \<open>cds_list_for_each_safe\<close> whose body deletes every node it visits: \<open>ws\<close> are the nodes
  before the position it starts from, \<open>D\<close> the nodes deleted already.
\<close>

lemma cds_list_del_init_ring:
  assumes "ring s h (xs @ e # ys)"
  shows "ring (cds_list_del_init e s) h (xs @ ys)"
  using cds_list_del_ring [OF assms] CDS_INIT_LIST_HEAD_frame [of _ h "xs @ ys" e] assms
  by (auto simp: cds_list_del_init_def ring_def)

lemma cds_list_del_init_alone:
  assumes "ring s h (xs @ e # ys)" "d \<notin> set (h # xs @ e # ys)" "ring s d []"
  shows "ring (cds_list_del_init e s) d []"
proof -
  from assms(2) have "set (h # xs @ e # ys) \<inter> set [d] = {}" by auto
  from ring_disjoint_del [OF assms(1,3) this] have "ring (cds_list_del e s) d []" .
  then show ?thesis unfolding cds_list_del_init_def
    by (rule CDS_INIT_LIST_HEAD_frame) (use assms(2) in auto)
qed

lemma for_each_safe_deletes:
  "ring s h (ws @ xs) \<Longrightarrow> pos = hd (xs @ [h]) \<Longrightarrow> (pos \<noteq> h \<Longrightarrow> p = nxt s pos) \<Longrightarrow>
    \<forall>d \<in> D. ring s d [] \<Longrightarrow> D \<inter> set (h # ws @ xs) = {} \<Longrightarrow>
    \<exists>s'. for_each_safe_from h cds_list_del_init pos p s = Some s' \<and>
      ring s' h ws \<and> (\<forall>d \<in> D \<union> set xs. ring s' d [])"
proof (induction xs arbitrary: s pos p D)
  case Nil
  then show ?case by (simp add: for_each_safe_from.simps)
next
  case (Cons x xs)
  note r = Cons.prems(1)
  from r have x: "x \<noteq> h" "x \<notin> set (ws @ xs)" by (auto simp: ring_def)
  let ?t = "cds_list_del_init x s"
  have t: "ring ?t h (ws @ xs)" using cds_list_del_init_ring [OF r] .
  have p: "p = hd (xs @ [h])" using Cons.prems(2,3) x ring_split_next [OF r] by (cases xs) auto
  have D: "\<forall>d \<in> insert x D. ring ?t d []"
  proof
    fix d assume "d \<in> insert x D"
    then consider "d = x" | "d \<in> D" "d \<noteq> x" by blast
    then show "ring ?t d []"
    proof cases
      case 1
      then show ?thesis unfolding cds_list_del_init_def using CDS_INIT_LIST_HEAD_ring by blast
    next
      case 2
      with Cons.prems(5) have "d \<notin> set (h # ws @ x # xs)" by auto
      with cds_list_del_init_alone [OF r] 2 Cons.prems(4) show ?thesis by blast
    qed
  qed
  have disj: "insert x D \<inter> set (h # ws @ xs) = {}" using Cons.prems(5) x by auto
  from Cons.IH [OF t p _ D disj, of "nxt ?t p"] obtain s' where
    "for_each_safe_from h cds_list_del_init p (nxt ?t p) ?t = Some s'"
    "ring s' h ws" "\<forall>d \<in> insert x D \<union> set xs. ring s' d []" by auto
  moreover have "for_each_safe_from h cds_list_del_init pos p s =
      for_each_safe_from h cds_list_del_init p (nxt ?t p) ?t"
    using x Cons.prems(2) by (simp add: for_each_safe_from.simps [of h _ x] Let_def)
  ultimately show ?case by auto
qed

text \<open>
  Also shown (iteration). On a list whose links the body leaves alone, \<open>cds_list_for_each\<close> ends
  and runs the body once for each node in list order, \<open>cds_list_for_each_prev\<close> in reverse order.
\<close>
theorem cds_list_for_each_visits:
  assumes "ring s h xs"
    and "\<And>x t. nxt (body x t) = nxt t \<and> prv (body x t) = prv t"
  shows "cds_list_for_each h body s = Some (fold body xs s) \<and>
    cds_list_for_each_prev h body s = Some (fold body (rev xs) s)"
proof -
  note f = ring_paths [OF assms(1)]
  have "for_each_from h body (nxt s h) s = Some (fold body xs s)"
    using assms(2) f by (intro for_each_from_visits) auto
  moreover have "for_each_prev_from h body (prv s h) s = Some (fold body (rev xs) s)"
    using assms(2) f by (intro for_each_prev_from_visits) auto
  ultimately show ?thesis by (simp add: cds_list_for_each_def cds_list_for_each_prev_def)
qed

text \<open>A list 0 of 1, 2, 3 with a log that the loop body writes to.\<close>

record list_log = list_heap +
  log :: "nat list"

definition logged :: list_log where
  "logged = list_heap.extend two_lists \<lparr>log = []\<rparr>"

definition log_visit :: "nat \<Rightarrow> list_log \<Rightarrow> list_log" where
  "log_visit x t = t\<lparr>log := log t @ [x]\<rparr>"

lemma logged_ring: "ring logged 0 [1, 2, 3]"
  by (simp add: ring_def logged_def two_lists_def list_heap.defs)

lemma log_visit_frame: "nxt (log_visit x t) = nxt t \<and> prv (log_visit x t) = prv t"
  by (simp add: log_visit_def)

theorem cds_list_for_each_visits_witness:
  "map_option log (cds_list_for_each 0 log_visit logged) = Some [1, 2, 3] \<and>
   map_option log (cds_list_for_each_prev 0 log_visit logged) = Some [3, 2, 1]"
proof -
  have "log (log_visit x t) = log t @ [x]" for x t by (simp add: log_visit_def)
  moreover have "log logged = []" by (simp add: logged_def list_heap.defs)
  ultimately show ?thesis
    using cds_list_for_each_visits [of logged 0 "[1, 2, 3]" log_visit, OF logged_ring log_visit_frame]
    by simp
qed

text \<open>
  Property C33 (deleting while iterating). A \<open>cds_list_for_each_safe\<close> whose body deletes the node
  it visits ends, leaves the list empty and every node an empty list of its own.
\<close>
theorem cds_list_for_each_safe_deletes:
  assumes "ring s h xs"
  shows "\<exists>s'. cds_list_for_each_safe h cds_list_del_init s = Some s' \<and>
    ring s' h [] \<and> list_all (\<lambda>x. ring s' x []) xs"
proof -
  have "nxt s h = hd (xs @ [h])" using ring_head(1) [OF assms] by (cases xs) auto
  from for_each_safe_deletes [of s h "[]", OF _ this, of "nxt s (nxt s h)" "{}"] assms show ?thesis
    by (auto simp: cds_list_for_each_safe_def Let_def list_all_iff)
qed

theorem cds_list_for_each_safe_deletes_witness:
  "\<exists>s'. cds_list_for_each_safe 0 cds_list_del_init two_lists = Some s' \<and> ring s' 0 [] \<and> ring s' 2 []"
  using cds_list_for_each_safe_deletes [OF two_lists_rings(1)] by auto

lemma for_each_safe_from_eq:
  assumes "\<And>x t. nxt (body x t) = nxt t"
  shows "fseg (nxt s) p xs h \<Longrightarrow> h \<notin> set xs \<Longrightarrow>
    for_each_safe_from h body (nxt s p) (nxt s (nxt s p)) s = Some (fold body xs s)"
proof (induction xs arbitrary: p s)
  case (Cons x xs)
  from Cons.IH [of "body x s" x] Cons.prems show ?case
    by (simp add: for_each_safe_from.simps [of h body x] assms Let_def)
qed (simp add: for_each_safe_from.simps)

lemma for_each_prev_safe_from_eq:
  assumes "\<And>x t. prv (body x t) = prv t"
  shows "fseg (prv s) p xs h \<Longrightarrow> h \<notin> set xs \<Longrightarrow>
    for_each_prev_safe_from h body (prv s p) (prv s (prv s p)) s = Some (fold body xs s)"
proof (induction xs arbitrary: p s)
  case (Cons x xs)
  from Cons.IH [of "body x s" x] Cons.prems show ?case
    by (simp add: for_each_prev_safe_from.simps [of h body x] assms Let_def)
qed (simp add: for_each_prev_safe_from.simps)

text \<open>
  Also shown (the two forms of the loop agree). When the body leaves the links alone, the
  \<open>_safe\<close> loops do exactly what the plain ones do.
\<close>
theorem cds_list_for_each_safe_equiv:
  assumes "ring s h xs"
    and "\<And>x t. nxt (body x t) = nxt t \<and> prv (body x t) = prv t"
  shows "cds_list_for_each_safe h body s = cds_list_for_each h body s \<and>
    cds_list_for_each_prev_safe h body s = cds_list_for_each_prev h body s"
proof -
  note f = ring_paths [OF assms(1)]
  have "for_each_safe_from h body (nxt s h) (nxt s (nxt s h)) s = for_each_from h body (nxt s h) s"
    using for_each_safe_from_eq [of body, OF _ f(1,3)] for_each_from_visits [of body, OF _ f(1,3)] assms(2)
    by simp
  moreover have "for_each_prev_safe_from h body (prv s h) (prv s (prv s h)) s =
      for_each_prev_from h body (prv s h) s"
    using for_each_prev_safe_from_eq [of body, OF _ f(2)] for_each_prev_from_visits [of body, OF _ f(2)]
      assms(2) f(3) by simp
  ultimately show ?thesis
    by (simp add: cds_list_for_each_def cds_list_for_each_prev_def cds_list_for_each_safe_def
        cds_list_for_each_prev_safe_def Let_def)
qed

theorem cds_list_for_each_safe_equiv_witness:
  "cds_list_for_each_safe 0 log_visit logged = cds_list_for_each 0 log_visit logged"
  using cds_list_for_each_safe_equiv [of logged 0 "[1, 2, 3]" log_visit, OF logged_ring log_visit_frame]
  by simp

section \<open>Iteration over the enclosing objects\<close>

text \<open>
  \<open>cds_list_entry\<close> is \<open>caa_container_of\<close>, which the repository does not contain: the address of
  the object that encloses a node is the argument \<open>entry\<close>, and \<open>&(pos)->member\<close> the argument
  \<open>member\<close>.
\<close>

partial_function (option) for_each_entry_from ::
    "(nat \<Rightarrow> nat) \<Rightarrow> (nat \<Rightarrow> nat) \<Rightarrow> nat \<Rightarrow> (nat \<Rightarrow> 'b list_heap_scheme \<Rightarrow> 'b list_heap_scheme) \<Rightarrow> nat \<Rightarrow>
      'b list_heap_scheme \<Rightarrow> 'b list_heap_scheme option" where
  "for_each_entry_from entry member head body pos s =
     (if member pos = head then Some s
      else let s1 = body pos s
           in for_each_entry_from entry member head body (entry (nxt s1 (member pos))) s1)"

definition cds_list_first_entry where
  "cds_list_first_entry entry head s = entry (nxt s head)"

definition cds_list_for_each_entry where
  "cds_list_for_each_entry entry member head body s =
     for_each_entry_from entry member head body (cds_list_first_entry entry head s) s"

partial_function (option) for_each_entry_reverse_from ::
    "(nat \<Rightarrow> nat) \<Rightarrow> (nat \<Rightarrow> nat) \<Rightarrow> nat \<Rightarrow> (nat \<Rightarrow> 'b list_heap_scheme \<Rightarrow> 'b list_heap_scheme) \<Rightarrow> nat \<Rightarrow>
      'b list_heap_scheme \<Rightarrow> 'b list_heap_scheme option" where
  "for_each_entry_reverse_from entry member head body pos s =
     (if member pos = head then Some s
      else let s1 = body pos s
           in for_each_entry_reverse_from entry member head body (entry (prv s1 (member pos))) s1)"

definition cds_list_for_each_entry_reverse where
  "cds_list_for_each_entry_reverse entry member head body s =
     for_each_entry_reverse_from entry member head body (entry (prv s head)) s"

partial_function (option) for_each_entry_safe_from ::
    "(nat \<Rightarrow> nat) \<Rightarrow> (nat \<Rightarrow> nat) \<Rightarrow> nat \<Rightarrow> (nat \<Rightarrow> 'b list_heap_scheme \<Rightarrow> 'b list_heap_scheme) \<Rightarrow> nat \<Rightarrow> nat \<Rightarrow>
      'b list_heap_scheme \<Rightarrow> 'b list_heap_scheme option" where
  "for_each_entry_safe_from entry member head body pos p s =
     (if member pos = head then Some s
      else let s1 = body pos s
           in for_each_entry_safe_from entry member head body p (entry (nxt s1 (member p))) s1)"

definition cds_list_for_each_entry_safe where
  "cds_list_for_each_entry_safe entry member head body s =
     (let pos = entry (nxt s head)
      in for_each_entry_safe_from entry member head body pos (entry (nxt s (member pos))) s)"

definition cds_list_for_each_entry_safe_from where
  "cds_list_for_each_entry_safe_from entry member head body pos s =
     for_each_entry_safe_from entry member head body pos (entry (nxt s (member pos))) s"

lemma for_each_entry_from_visits:
  assumes "\<And>x t. nxt (body x t) = nxt t" "\<And>p. member (entry p) = p"
  shows "fseg (nxt s) p xs h \<Longrightarrow> h \<notin> set xs \<Longrightarrow>
    for_each_entry_from entry member h body (entry (nxt s p)) s = Some (fold body (map entry xs) s)"
proof (induction xs arbitrary: p s)
  case (Cons x xs)
  from Cons.IH [of "body (entry x) s" x] Cons.prems show ?case
    by (simp add: for_each_entry_from.simps [of _ _ h body "entry x"] assms Let_def)
qed (simp add: for_each_entry_from.simps assms)

lemma for_each_entry_reverse_from_visits:
  assumes "\<And>x t. prv (body x t) = prv t" "\<And>p. member (entry p) = p"
  shows "fseg (prv s) p xs h \<Longrightarrow> h \<notin> set xs \<Longrightarrow>
    for_each_entry_reverse_from entry member h body (entry (prv s p)) s =
      Some (fold body (map entry xs) s)"
proof (induction xs arbitrary: p s)
  case (Cons x xs)
  from Cons.IH [of "body (entry x) s" x] Cons.prems show ?case
    by (simp add: for_each_entry_reverse_from.simps [of _ _ h body "entry x"] assms Let_def)
qed (simp add: for_each_entry_reverse_from.simps assms)

lemma for_each_entry_safe_from_visits:
  assumes "\<And>x t. nxt (body x t) = nxt t" "\<And>p. member (entry p) = p"
  shows "fseg (nxt s) p xs h \<Longrightarrow> h \<notin> set xs \<Longrightarrow>
    for_each_entry_safe_from entry member h body (entry (nxt s p)) (entry (nxt s (nxt s p))) s =
      Some (fold body (map entry xs) s)"
proof (induction xs arbitrary: p s)
  case (Cons x xs)
  from Cons.IH [of "body (entry x) s" x] Cons.prems show ?case
    by (simp add: for_each_entry_safe_from.simps [of _ _ h body "entry x"] assms Let_def)
qed (simp add: for_each_entry_safe_from.simps assms)

text \<open>
  Also shown (iteration over objects). When \<open>entry\<close> undoes \<open>member\<close>, as \<open>caa_container_of\<close>
  does, the entry loops end and visit the objects of the nodes in list order (\<open>_reverse\<close>: in
  reverse order).
\<close>
theorem cds_list_for_each_entry_visits:
  assumes "ring s h xs" and "\<And>p. member (entry p) = p"
    and "\<And>x t. nxt (body x t) = nxt t \<and> prv (body x t) = prv t"
  shows "cds_list_for_each_entry entry member h body s = Some (fold body (map entry xs) s) \<and>
    cds_list_for_each_entry_safe entry member h body s = Some (fold body (map entry xs) s) \<and>
    cds_list_for_each_entry_reverse entry member h body s = Some (fold body (map entry (rev xs)) s)"
proof -
  note f = ring_paths [OF assms(1)]
  show ?thesis
    using for_each_entry_from_visits [of body member entry, OF _ assms(2) f(1,3)]
      for_each_entry_safe_from_visits [of body member entry, OF _ assms(2) f(1,3)]
      for_each_entry_reverse_from_visits [of body member entry, OF _ assms(2) f(2)] assms(2,3) f(3)
    by (simp add: cds_list_for_each_entry_def cds_list_for_each_entry_safe_def Let_def
        cds_list_first_entry_def cds_list_for_each_entry_reverse_def)
qed

theorem cds_list_for_each_entry_visits_witness:
  "map_option log (cds_list_for_each_entry (\<lambda>p. p + 100) (\<lambda>q. q - 100) 0 log_visit logged) =
     Some [101, 102, 103]"
proof -
  have "log (log_visit x t) = log t @ [x]" for x t by (simp add: log_visit_def)
  moreover have "log logged = []" by (simp add: logged_def list_heap.defs)
  ultimately show ?thesis
    using cds_list_for_each_entry_visits [of logged 0 "[1, 2, 3]" "\<lambda>q. q - 100" "\<lambda>p. p + 100" log_visit,
        OF logged_ring _ log_visit_frame]
    by simp
qed

text \<open>
  The loop over objects takes the same steps as the loop over nodes when \<open>entry\<close> undoes \<open>member\<close>.
\<close>

lemma for_each_entry_safe_from_nodes:
  assumes "\<And>p. member (entry p) = p"
  shows "for_each_safe_from h body pos p s = Some s' \<Longrightarrow>
    for_each_entry_safe_from entry member h (\<lambda>x. body (member x)) (entry pos) (entry p) s = Some s'"
proof (rule for_each_safe_from.raw_induct [where P = "\<lambda>h body pos p s s'.
    for_each_entry_safe_from entry member h (\<lambda>x. body (member x)) (entry pos) (entry p) s = Some s'"])
  fix loop h body pos p s s'
  assume "\<And>h body pos p s s'. loop h body pos p s = Some s' \<Longrightarrow>
      for_each_entry_safe_from entry member h (\<lambda>x. body (member x)) (entry pos) (entry p) s = Some s'"
    "(if pos = h then Some s else let s1 = body pos s in loop h body p (nxt s1 p) s1) = Some s'"
  then show "for_each_entry_safe_from entry member h (\<lambda>x. body (member x)) (entry pos) (entry p) s = Some s'"
    by (simp add: for_each_entry_safe_from.simps [of entry member _ _ "entry pos"] assms Let_def split: if_splits)
qed

text \<open>
  Also shown (iteration over the rest of a list). \<open>cds_list_for_each_entry_safe_from\<close> ends and runs
  the body on the objects from the one given to the last, in order, and on no other; when the body
  deletes the node of the object, the nodes before are what is left of the list, and every node
  deleted is an empty list of its own.
\<close>
theorem cds_list_for_each_entry_safe_from_visits:
  assumes "ring s h (xs @ x # ys)" and "\<And>p. member (entry p) = p"
    and "\<And>x t. nxt (body x t) = nxt t"
  shows "cds_list_for_each_entry_safe_from entry member h body (entry x) s =
      Some (fold body (map entry (x # ys)) s) \<and>
    (\<exists>s'. cds_list_for_each_entry_safe_from entry member h (\<lambda>ob. cds_list_del_init (member ob)) (entry x) s = Some s' \<and>
      ring s' h xs \<and> list_all (\<lambda>y. ring s' y []) (x # ys))"
proof
  have x: "x \<noteq> h" "h \<notin> set ys" using assms(1) by (auto simp: ring_def)
  have "fseg (nxt (body (entry x) s)) x ys h" using ring_paths(1) [OF assms(1)] assms(3) by simp
  from for_each_entry_safe_from_visits [of body member entry, OF assms(3,2) this x(2)]
  show "cds_list_for_each_entry_safe_from entry member h body (entry x) s = Some (fold body (map entry (x # ys)) s)"
    using x(1) assms(2,3) by (simp add: cds_list_for_each_entry_safe_from_def
        for_each_entry_safe_from.simps [of entry member h body "entry x"] Let_def)
  from for_each_safe_deletes [OF assms(1), of x "nxt s x" "{}"] obtain s' where
    s': "for_each_safe_from h cds_list_del_init x (nxt s x) s = Some s'" "ring s' h xs" "list_all (\<lambda>y. ring s' y []) (x # ys)"
    by (auto simp: list_all_iff)
  from for_each_entry_safe_from_nodes [of member entry, OF assms(2) s'(1)] s'(2,3) assms(2)
  show "\<exists>s'. cds_list_for_each_entry_safe_from entry member h (\<lambda>ob. cds_list_del_init (member ob)) (entry x) s = Some s' \<and>
      ring s' h xs \<and> list_all (\<lambda>y. ring s' y []) (x # ys)"
    by (auto simp: cds_list_for_each_entry_safe_from_def)
qed

theorem cds_list_for_each_entry_safe_from_visits_witness:
  "\<exists>s'. cds_list_for_each_entry_safe_from (\<lambda>p. p + 100) (\<lambda>q. q - 100) 0 (\<lambda>ob. cds_list_del_init (ob - 100)) 102 logged = Some s' \<and>
     ring s' 0 [1]"
proof -
  have "ring logged 0 ([1] @ 2 # [3])" using logged_ring by simp
  from cds_list_for_each_entry_safe_from_visits [OF this, of "\<lambda>q. q - 100" "\<lambda>p. p + 100" "\<lambda>_ t. t"]
  show ?thesis by auto
qed

end
