(* ===== verification/RcuList.thy ===== *)
theory RcuList
  imports CdsList
begin

text \<open>
  The list operations for concurrent readers of \<^verbatim>\<open>cds/rculist.h\<close>.

  An update is the list of its stores, in the order of the source.  On the target (x86, total
  store order) other cores see the stores of one core in that order, so a concurrent reader runs
  between two of them: \<open>rcu_list_exec\<close> interleaves the stores of one writer (\<open>Store\<close>) with the
  steps of a reader that runs \<open>cds_list_for_each_rcu\<close> (\<open>Advance\<close>).  Updates exclude one
  another, as the comment of \<open>cds_list_replace_rcu\<close> demands.
\<close>

section \<open>Updates as lists of stores\<close>

type_synonym list_store = "list_heap \<Rightarrow> list_heap"

definition cds_list_add_rcu :: "nat \<Rightarrow> nat \<Rightarrow> list_store list" where
  "cds_list_add_rcu newp head =
     [\<lambda>s. set_next newp (nxt s head) s,
      \<lambda>s. set_prev newp head s,
      \<lambda>s. set_prev (nxt s head) newp s,
      \<lambda>s. set_next head newp s]"

definition cds_list_add_tail_rcu :: "nat \<Rightarrow> nat \<Rightarrow> list_store list" where
  "cds_list_add_tail_rcu newp head =
     [\<lambda>s. set_next newp head s,
      \<lambda>s. set_prev newp (prv s head) s,
      \<lambda>s. set_next (prv s head) newp s,
      \<lambda>s. set_prev head newp s]"

definition cds_list_replace_rcu :: "nat \<Rightarrow> nat \<Rightarrow> list_store list" where
  "cds_list_replace_rcu old new =
     [\<lambda>s. set_next new (nxt s old) s,
      \<lambda>s. set_prev new (prv s old) s,
      \<lambda>s. set_next (prv s new) new s,
      \<lambda>s. set_prev (nxt s new) new s]"

definition cds_list_del_rcu :: "nat \<Rightarrow> list_store list" where
  "cds_list_del_rcu elem =
     [\<lambda>s. set_prev (nxt s elem) (prv s elem) s,
      \<lambda>s. set_next (prv s elem) (nxt s elem) s]"

text \<open>All stores of an update, with no reader in between.\<close>

definition all_stores :: "list_store list \<Rightarrow> list_heap \<Rightarrow> list_heap" where
  "all_stores cs s = fold (\<lambda>c. c) cs s"

section \<open>A reader between the stores\<close>

record rcu_list =
  heap :: list_heap
  todo :: "list_store list"        \<comment> \<open>the stores the writer has not made yet\<close>
  rd_pos :: "nat option"           \<comment> \<open>the reader's \<open>pos\<close>, once it has loaded \<open>head->next\<close>\<close>
  rd_seen :: "nat list"            \<comment> \<open>the nodes the loop body has visited\<close>
  rd_done :: bool

datatype rcu_list_event = Store | Advance

definition rcu_list_start :: "list_heap \<Rightarrow> list_store list \<Rightarrow> rcu_list" where
  "rcu_list_start s cs = \<lparr>heap = s, todo = cs, rd_pos = None, rd_seen = [], rd_done = False\<rparr>"

text \<open>\<open>Advance\<close> is one round of the loop: the comparison, the body, the load of \<open>pos->next\<close>.\<close>

fun cds_list_for_each_rcu :: "nat \<Rightarrow> rcu_list \<Rightarrow> rcu_list outcome" where
  "cds_list_for_each_rcu head s =
     (if rd_done s then Blocked
      else case rd_pos s of
        None \<Rightarrow> Next (s\<lparr>rd_pos := Some (nxt (heap s) head)\<rparr>)
      | Some pos \<Rightarrow>
          if pos = head then Next (s\<lparr>rd_done := True\<rparr>)
          else Next (s\<lparr>rd_seen := rd_seen s @ [pos], rd_pos := Some (nxt (heap s) pos)\<rparr>))"

fun rcu_list_exec :: "nat \<Rightarrow> rcu_list_event \<Rightarrow> rcu_list \<Rightarrow> rcu_list outcome" where
  "rcu_list_exec head Store s =
     (case todo s of [] \<Rightarrow> Blocked | c # cs \<Rightarrow> Next (s\<lparr>heap := c (heap s), todo := cs\<rparr>))"
| "rcu_list_exec head Advance s = cds_list_for_each_rcu head s"

text \<open>
  The loop over the enclosing objects: \<open>pos\<close> is an object, whose node is \<open>member pos\<close>, and \<open>entry\<close>
  is \<open>cds_list_entry\<close>.
\<close>

fun cds_list_for_each_entry_rcu ::
    "(nat \<Rightarrow> nat) \<Rightarrow> (nat \<Rightarrow> nat) \<Rightarrow> nat \<Rightarrow> rcu_list \<Rightarrow> rcu_list outcome" where
  "cds_list_for_each_entry_rcu entry member head s =
     (if rd_done s then Blocked
      else case rd_pos s of
        None \<Rightarrow> Next (s\<lparr>rd_pos := Some (entry (nxt (heap s) head))\<rparr>)
      | Some pos \<Rightarrow>
          if member pos = head then Next (s\<lparr>rd_done := True\<rparr>)
          else Next (s\<lparr>rd_seen := rd_seen s @ [pos], rd_pos := Some (entry (nxt (heap s) (member pos)))\<rparr>))"

fun rcu_entry_exec ::
    "(nat \<Rightarrow> nat) \<Rightarrow> (nat \<Rightarrow> nat) \<Rightarrow> nat \<Rightarrow> rcu_list_event \<Rightarrow> rcu_list \<Rightarrow> rcu_list outcome" where
  "rcu_entry_exec entry member head Store s =
     (case todo s of [] \<Rightarrow> Blocked | c # cs \<Rightarrow> Next (s\<lparr>heap := c (heap s), todo := cs\<rparr>))"
| "rcu_entry_exec entry member head Advance s = cds_list_for_each_entry_rcu entry member head s"

text \<open>The reader of objects is the reader of nodes, seen through \<open>entry\<close>.\<close>

definition objects :: "(nat \<Rightarrow> nat) \<Rightarrow> rcu_list \<Rightarrow> rcu_list" where
  "objects entry s = s\<lparr>rd_pos := map_option entry (rd_pos s), rd_seen := map entry (rd_seen s)\<rparr>"

lemma rcu_entry_step:
  assumes "\<And>p. member (entry p) = p"
  shows "rcu_entry_exec entry member head e (objects entry s) = map_next (objects entry) (rcu_list_exec head e s)"
  using assms by (cases e) (auto simp: objects_def split: option.split list.split)

lemma rcu_entry_run:
  assumes "\<And>p. member (entry p) = p"
  shows "run (rcu_entry_exec entry member head) es (objects entry s) =
    map_next (objects entry) (run (rcu_list_exec head) es s)"
proof (induction es arbitrary: s)
  case (Cons e es)
  then show ?case
    using rcu_entry_step [of member entry head e s] assms by (cases "rcu_list_exec head e s") simp_all
qed simp

section \<open>Updates that publish with one store\<close>

text \<open>What a reader at \<open>pos\<close> will still see: the nodes from its position up to the head.\<close>

fun to_see :: "(nat \<Rightarrow> nat) \<Rightarrow> nat \<Rightarrow> nat option \<Rightarrow> nat list \<Rightarrow> bool" where
  "to_see nx head None rest \<longleftrightarrow> fseg nx head rest head"
| "to_see nx head (Some p) rest \<longleftrightarrow>
     (if p = head then rest = [] else \<exists>ys. rest = p # ys \<and> fseg nx p ys head)"

text \<open>
  \<open>publishes head s0 cs K old new\<close>: of the stores \<open>cs\<close> only number \<open>K\<close> changes a link that a
  reader can follow; it turns the list \<open>old\<close> into \<open>new\<close> from some node \<open>a\<close> on.
\<close>

definition publishes :: "nat \<Rightarrow> list_heap \<Rightarrow> list_store list \<Rightarrow> nat \<Rightarrow> nat list \<Rightarrow> nat list \<Rightarrow> bool" where
  "publishes head s0 cs K old new \<longleftrightarrow>
     (let st = (\<lambda>k. all_stores (take k cs) s0) in
      K < length cs \<and> distinct (head # old) \<and> head \<notin> set new \<and> fseg (nxt s0) head old head \<and>
      (\<forall>k < K. \<forall>x \<in> set (head # old). nxt (st (Suc k)) x = nxt (st k) x) \<and>
      (\<forall>k < length cs. K < k \<longrightarrow> nxt (st (Suc k)) = nxt (st k)) \<and>
      (\<exists>us a ws ws' v. head # old = us @ a # ws \<and> head # new = us @ a # ws' \<and>
         nxt (st (Suc K)) = (nxt (st K))(a := v) \<and> fseg (nxt (st (Suc K))) a ws' head))"

lemma fseg_cong: "(\<And>x. x \<in> set (p # xs) \<Longrightarrow> nx' x = nx x) \<Longrightarrow> fseg nx' p xs q = fseg nx p xs q"
  by (induction xs arbitrary: p) auto

lemma to_see_cong:
  assumes "to_see nx head pos rest" "\<And>x. x \<in> set (head # rest) \<Longrightarrow> nx' x = nx x"
  shows "to_see nx' head pos rest"
proof (cases pos)
  case None
  with assms fseg_cong [of head rest nx' nx head] show ?thesis by simp
next
  case (Some p)
  with assms fseg_cong [of p "tl rest" nx' nx head] show ?thesis by (auto split: if_splits)
qed

text \<open>The store that publishes: the reader still sees the old list or now sees the new one.\<close>

lemma fseg_publish:
  assumes "fseg nx p (r @ a # ws) head" "a \<notin> set (p # r)" "fseg (nx(a := v)) a ws' head"
  shows "fseg (nx(a := v)) p (r @ a # ws') head"
  using assms by simp

lemma to_see_publish:
  assumes "to_see nx head pos rest" "seen @ rest = old" "distinct (head # old)"
    and split: "head # old = us @ a # ws" "head # new = us @ a # ws'"
    and fs: "fseg (nx(a := v)) a ws' head" and start: "pos = None \<Longrightarrow> seen = []"
  shows "\<exists>rest'. to_see (nx(a := v)) head pos rest' \<and> seen @ rest' \<in> {old, new}"
proof (cases "pos = None \<and> a = head")
  case True
  with assms(3) split have "us = []" by (cases us) auto
  with True split start fs show ?thesis by auto
next
  case nh: False
  show ?thesis
  proof (cases "a \<in> set rest")
    case False
    show ?thesis
    proof (cases pos)
      case None
      with nh False assms(1) have "to_see (nx(a := v)) head pos rest" by auto
      with assms(2) show ?thesis by auto
    next
      case (Some p)
      with False assms(1,2) have "to_see (nx(a := v)) head pos rest" by (auto split: if_splits)
      with assms(2) show ?thesis by auto
    qed
  next
    case True
    then obtain r1 r2 where r: "rest = r1 @ a # r2" by (meson split_list)
    have "head # seen @ r1 @ a # r2 = us @ a # ws" using split(1) assms(2) r by simp
    moreover have "a \<notin> set (head # seen @ r1)" "a \<notin> set r2" using assms(2,3) r by auto
    ultimately have us: "us = head # seen @ r1" "ws = r2"
      using append_Cons_eq_iff [of a "head # seen @ r1" r2 us ws] by auto
    have new: "new = seen @ r1 @ a # ws'" using split(2) us by simp
    have a: "a \<notin> set r1" "a \<noteq> head" using assms(2,3) r by auto
    have "to_see (nx(a := v)) head pos (r1 @ a # ws')"
    proof (cases pos)
      case None
      with assms(1) r a fs fseg_publish [of nx head r1 a r2 head v ws'] show ?thesis by auto
    next
      case (Some p)
      with assms(1) r a fs show ?thesis by (cases r1) (auto split: if_splits)
    qed
    with new show ?thesis by auto
  qed
qed

section \<open>The invariant of reader and writer\<close>

definition rcu_list_inv ::
    "nat \<Rightarrow> list_heap \<Rightarrow> list_store list \<Rightarrow> nat \<Rightarrow> nat list \<Rightarrow> nat list \<Rightarrow> rcu_list \<Rightarrow> bool" where
  "rcu_list_inv head s0 cs K old new s \<longleftrightarrow>
     (rd_pos s = None \<longrightarrow> rd_seen s = []) \<and> (rd_done s \<longrightarrow> rd_pos s = Some head) \<and>
     (\<exists>k \<le> length cs. todo s = drop k cs \<and> heap s = all_stores (take k cs) s0 \<and>
       (\<exists>rest. to_see (nxt (heap s)) head (rd_pos s) rest \<and>
          rd_seen s @ rest \<in> (if k \<le> K then {old} else {old, new})))"

lemma all_stores_snoc: "k < length cs \<Longrightarrow> all_stores (take (Suc k) cs) s = (cs ! k) (all_stores (take k cs) s)"
  by (simp add: all_stores_def take_Suc_conv_app_nth)

lemma rcu_list_store:
  assumes pub: "publishes head s0 cs K old new" and inv: "rcu_list_inv head s0 cs K old new s"
    and step: "rcu_list_exec head Store s = Next s'"
  shows "rcu_list_inv head s0 cs K old new s'"
proof -
  let ?st = "\<lambda>k. all_stores (take k cs) s0"
  from inv obtain k rest where k: "k \<le> length cs" "todo s = drop k cs" "heap s = ?st k"
    and rest: "to_see (nxt (?st k)) head (rd_pos s) rest" "rd_seen s @ rest \<in> (if k \<le> K then {old} else {old, new})"
    and pos: "rd_pos s = None \<longrightarrow> rd_seen s = []" "rd_done s \<longrightarrow> rd_pos s = Some head"
    by (auto simp: rcu_list_inv_def)
  from step k have lt: "k < length cs" by (cases "drop k cs") (auto simp: not_le [symmetric])
  then have "drop k cs = cs ! k # drop (Suc k) cs" by (rule Cons_nth_drop_Suc [symmetric])
  with step k lt have s': "s' = s\<lparr>heap := ?st (Suc k), todo := drop (Suc k) cs\<rparr>"
    by (simp add: all_stores_snoc)
  note p = pub [unfolded publishes_def Let_def]
  have "\<exists>rest'. to_see (nxt (?st (Suc k))) head (rd_pos s) rest' \<and>
      rd_seen s @ rest' \<in> (if Suc k \<le> K then {old} else {old, new})"
  proof (rule linorder_cases [of k K])
    assume kK: "k < K"
    with rest(2) have old: "rd_seen s @ rest = old" by simp
    have "\<forall>x \<in> set (head # old). nxt (?st (Suc k)) x = nxt (?st k) x" using p kK by blast
    with old have "\<And>x. x \<in> set (head # rest) \<Longrightarrow> nxt (?st (Suc k)) x = nxt (?st k) x" by auto
    from to_see_cong [OF rest(1) this] old kK show ?thesis by auto
  next
    assume kK: "k = K"
    with rest(2) have old: "rd_seen s @ rest = old" by simp
    from p kK obtain us a ws ws' v where "head # old = us @ a # ws" "head # new = us @ a # ws'"
      "nxt (?st (Suc k)) = (nxt (?st k))(a := v)" "fseg (nxt (?st (Suc k))) a ws' head" by blast
    with to_see_publish [OF rest(1) old _ this(1,2), of v] p pos kK show ?thesis by auto
  next
    assume kK: "K < k"
    with p lt have "nxt (?st (Suc k)) = nxt (?st k)" by blast
    with rest kK show ?thesis by auto
  qed
  with s' pos lt show ?thesis unfolding rcu_list_inv_def
    by (intro conjI exI [of _ "Suc k"]) auto
qed

lemma rcu_list_advance:
  assumes pub: "publishes head s0 cs K old new" and inv: "rcu_list_inv head s0 cs K old new s"
    and step: "rcu_list_exec head Advance s = Next s'"
  shows "rcu_list_inv head s0 cs K old new s'"
proof -
  from inv obtain k rest where k: "k \<le> length cs" "todo s = drop k cs" "heap s = all_stores (take k cs) s0"
    and rest: "to_see (nxt (heap s)) head (rd_pos s) rest"
      "rd_seen s @ rest \<in> (if k \<le> K then {old} else {old, new})"
    and pos: "rd_pos s = None \<longrightarrow> rd_seen s = []" "rd_done s \<longrightarrow> rd_pos s = Some head"
    by (auto simp: rcu_list_inv_def)
  have dist: "head \<notin> set old" "head \<notin> set new" using pub by (auto simp: publishes_def Let_def)
  have nh: "head \<notin> set rest" using rest(2) dist by (auto split: if_splits)
  have "to_see (nxt (heap s')) head (rd_pos s') (drop (length (rd_seen s') - length (rd_seen s)) rest) \<and>
      rd_seen s' @ drop (length (rd_seen s') - length (rd_seen s)) rest = rd_seen s @ rest \<and>
      heap s' = heap s \<and> todo s' = todo s \<and> (rd_pos s' = None \<longrightarrow> rd_seen s' = []) \<and>
      (rd_done s' \<longrightarrow> rd_pos s' = Some head)"
  proof (cases "rd_pos s")
    case None
    with step rest(1) pos nh show ?thesis by (cases rest) (auto split: if_splits)
  next
    case (Some p)
    show ?thesis
    proof (cases "p = head")
      case True
      with Some step rest(1) show ?thesis by (auto split: if_splits)
    next
      case False
      with Some rest(1) obtain ys where ys: "rest = p # ys" "fseg (nxt (heap s)) p ys head" by auto
      with Some step False nh pos(2) show ?thesis by (cases ys) (auto split: if_splits)
    qed
  qed
  with k rest(2) show ?thesis unfolding rcu_list_inv_def by metis
qed

lemma rcu_list_inv_start:
  assumes "publishes head s0 cs K old new"
  shows "rcu_list_inv head s0 cs K old new (rcu_list_start s0 cs)"
  using assms
  by (auto simp: rcu_list_inv_def rcu_list_start_def all_stores_def publishes_def Let_def
      intro!: exI [of _ "0::nat"])

lemma rcu_list_machine:
  assumes "publishes head s0 cs K old new"
  shows "invariant_machine (rcu_list_start s0 cs) (rcu_list_exec head) (rcu_list_inv head s0 cs K old new)"
proof
  fix e s s'
  assume "rcu_list_inv head s0 cs K old new s" "rcu_list_exec head e s = Next s'"
  then show "rcu_list_inv head s0 cs K old new s'"
    using rcu_list_store [OF assms] rcu_list_advance [OF assms] by (cases e) blast+
qed (rule rcu_list_inv_start [OF assms])

text \<open>What a client of an update relies on, whatever the interleaving.\<close>

lemma publishes_sees:
  assumes pub: "publishes head s0 cs K old new"
    and r: "reach (rcu_list_exec head) (rcu_list_start s0 cs) s"
  shows "rd_done s \<Longrightarrow> rd_seen s = old \<or> rd_seen s = new"
    and "rd_pos s = Some p \<Longrightarrow> p \<in> set (head # old @ new)"
    and "todo s = [] \<Longrightarrow> heap s = all_stores cs s0"
proof -
  have inv: "rcu_list_inv head s0 cs K old new s"
    using invariant_machine.reach_inv [OF rcu_list_machine [OF pub] r] .
  then obtain k rest where k: "k \<le> length cs" "todo s = drop k cs" "heap s = all_stores (take k cs) s0"
    and rest: "to_see (nxt (heap s)) head (rd_pos s) rest" "rd_seen s @ rest \<in> {old, new}"
    and pos: "rd_done s \<longrightarrow> rd_pos s = Some head"
    by (auto simp: rcu_list_inv_def split: if_splits)
  show "rd_done s \<Longrightarrow> rd_seen s = old \<or> rd_seen s = new" using rest pos by auto
  show "rd_pos s = Some p \<Longrightarrow> p \<in> set (head # old @ new)"
    using rest by (auto split: if_splits)
  show "todo s = [] \<Longrightarrow> heap s = all_stores cs s0" using k by auto
qed

text \<open>The reader alone, from wherever it is, ends within the nodes it still has to see.\<close>

lemma reader_ends:
  "to_see (nxt (heap s)) head (rd_pos s) rest \<Longrightarrow> head \<notin> set rest \<Longrightarrow> \<not> rd_done s \<Longrightarrow>
    \<exists>n s'. run (rcu_list_exec head) (replicate n Advance) s = Next s' \<and> rd_done s' \<and>
      n \<le> length rest + (if rd_pos s = None then 2 else 1)"
proof (induction rest arbitrary: s)
  case Nil
  show ?case
  proof (cases "rd_pos s")
    case None
    with Nil have "run (rcu_list_exec head) (replicate 2 Advance) s =
        Next (s\<lparr>rd_pos := Some head, rd_done := True\<rparr>)" by (simp add: numeral_2_eq_2)
    with None show ?thesis by (intro exI [of _ 2]) auto
  next
    case (Some p)
    with Nil have "run (rcu_list_exec head) (replicate 1 Advance) s = Next (s\<lparr>rd_done := True\<rparr>)"
      by (auto split: if_splits)
    with Some show ?thesis by (intro exI [of _ 1]) auto
  qed
next
  case (Cons x rest)
  let ?s = "s\<lparr>rd_seen := rd_seen s @ [x], rd_pos := Some (nxt (heap s) x)\<rparr>"
  from Cons.prems have f: "fseg (nxt (heap s)) x rest head" "x \<noteq> head"
    by (cases "rd_pos s"; auto split: if_splits)+
  then have "to_see (nxt (heap ?s)) head (rd_pos ?s) rest" using Cons.prems(2) by (cases rest) auto
  from Cons.IH [OF this] Cons.prems obtain n s' where
    n: "run (rcu_list_exec head) (replicate n Advance) ?s = Next s'" "rd_done s'" "n \<le> length rest + 1"
    by auto
  show ?case
  proof (cases "rd_pos s")
    case None
    let ?s1 = "s\<lparr>rd_pos := Some x\<rparr>"
    have "rcu_list_exec head Advance s = Next ?s1" "rcu_list_exec head Advance ?s1 = Next ?s"
      using None Cons.prems f by auto
    with n have "run (rcu_list_exec head) (replicate (n + 2) Advance) s = Next s'" by simp
    with n None show ?thesis by (intro exI [of _ "n + 2"]) auto
  next
    case (Some p)
    with Cons.prems have "rcu_list_exec head Advance s = Next ?s" by (auto split: if_splits)
    with n have "run (rcu_list_exec head) (replicate (n + 1) Advance) s = Next s'" by simp
    with n Some show ?thesis by (intro exI [of _ "n + 1"]) auto
  qed
qed


section \<open>The four updates\<close>

lemmas rcu_ops = cds_list_add_rcu_def cds_list_add_tail_rcu_def cds_list_replace_rcu_def
  cds_list_del_rcu_def all_stores_def

lemma all_stores_step [simp]:
  "all_stores [] s = s"
  "all_stores (c # cs) s = all_stores cs (c s)"
  by (simp_all add: all_stores_def)

lemma publishesI:
  assumes "ring s h old" and "h \<notin> set new" and "K < length cs"
    and before: "\<And>k x. k \<le> K \<Longrightarrow> x \<in> set (h # old) \<Longrightarrow> nxt (all_stores (take k cs) s) x = nxt s x"
    and after: "\<And>k. K < k \<Longrightarrow> k \<le> length cs \<Longrightarrow> nxt (all_stores (take k cs) s) = nx'"
    and pub: "nx' = (nxt (all_stores (take K cs) s))(a := v)"
    and split: "h # old = us @ a # ws" "h # new = us @ a # ws'" "fseg nx' a ws' h"
  shows "publishes h s cs K old new"
proof -
  have "distinct (h # old)" "fseg (nxt s) h old h"
    using assms(1) ring_paths(1) [OF assms(1)] by (auto simp: ring_def)
  moreover have "\<forall>k < K. \<forall>x \<in> set (h # old).
      nxt (all_stores (take (Suc k) cs) s) x = nxt (all_stores (take k cs) s) x"
    using before by (simp add: Suc_le_eq)
  moreover have "\<forall>k < length cs. K < k \<longrightarrow>
      nxt (all_stores (take (Suc k) cs) s) = nxt (all_stores (take k cs) s)"
    using after by simp
  moreover have "nxt (all_stores (take (Suc K) cs) s) = nx'" using after assms(3) by simp
  ultimately show ?thesis using assms(2,3) pub split unfolding publishes_def Let_def by metis
qed

lemma le_cases_4: "(k :: nat) \<le> 4 \<Longrightarrow> k = 0 \<or> k = Suc 0 \<or> k = Suc (Suc 0) \<or> k = Suc (Suc (Suc 0)) \<or>
    k = Suc (Suc (Suc (Suc 0)))"
  by auto

lemma add_rcu_publishes:
  assumes "ring s h xs" "n \<notin> set (h # xs)"
  shows "publishes h s (cds_list_add_rcu n h) 3 xs (n # xs)"
proof (rule publishesI [where us = "[]" and a = h and v = n and nx' = "(nxt s)(n := nxt s h, h := n)"])
  have "fseg (nxt s) h xs h" using ring_paths [OF assms(1)] by auto
  with assms show "fseg ((nxt s)(n := nxt s h, h := n)) h (n # xs) h"
    by (cases xs) (auto simp: ring_def)
next
  fix k x assume "k \<le> (3 :: nat)" "x \<in> set (h # xs)"
  moreover from this le_cases_4 [of k] have "k \<noteq> Suc (Suc (Suc (Suc 0)))" by auto
  ultimately show "nxt (all_stores (take k (cds_list_add_rcu n h)) s) x = nxt s x"
    using assms(2) le_cases_4 [of k] by (auto simp: cds_list_add_rcu_def)
next
  fix k assume "3 < k" "k \<le> length (cds_list_add_rcu n h)"
  then have "k = Suc (Suc (Suc (Suc 0)))" by (simp add: cds_list_add_rcu_def)
  with assms(2) show "nxt (all_stores (take k (cds_list_add_rcu n h)) s) = (nxt s)(n := nxt s h, h := n)"
    by (simp add: cds_list_add_rcu_def)
qed (use assms in \<open>auto simp: cds_list_add_rcu_def ring_def numeral_3_eq_3\<close>)


lemma add_tail_rcu_publishes:
  assumes "ring s h xs" "n \<notin> set (h # xs)"
  shows "publishes h s (cds_list_add_tail_rcu n h) 2 xs (xs @ [n])"
proof (rule publishesI [where us = "butlast (h # xs)" and a = "last (h # xs)" and ws = "[]" and v = n
      and nx' = "(nxt s)(n := h, last (h # xs) := n)"])
  have p: "prv s h = last (h # xs)" "last (h # xs) \<noteq> n"
    using ring_head(2) [OF assms(1)] assms(2) last_in_set [of "h # xs"] by auto
  let ?cs = "cds_list_add_tail_rcu n h"
  show "nxt (all_stores (take k ?cs) s) x = nxt s x" if "k \<le> 2" "x \<in> set (h # xs)" for k x
    using that assms(2) le_cases_4 [of k] by (auto simp: cds_list_add_tail_rcu_def)
  show "nxt (all_stores (take k ?cs) s) = (nxt s)(n := h, last (h # xs) := n)"
    if "2 < k" "k \<le> length ?cs" for k
    using that p assms(2) le_cases_4 [of k] by (auto simp: cds_list_add_tail_rcu_def)
  show "(nxt s)(n := h, last (h # xs) := n) = (nxt (all_stores (take 2 ?cs) s))(last (h # xs) := n)"
    by (simp add: cds_list_add_tail_rcu_def numeral_2_eq_2)
  show "fseg ((nxt s)(n := h, last (h # xs) := n)) (last (h # xs)) [n] h" using p by auto
  show "h # xs @ [n] = butlast (h # xs) @ last (h # xs) # [n]"
    using append_butlast_last_id [of "h # xs"] by (simp del: append_butlast_last_id)
qed (use assms in \<open>auto simp: cds_list_add_tail_rcu_def ring_def\<close>)

text \<open>The node before the node that is replaced or deleted.\<close>

lemma ring_pred:
  assumes "ring s h (xs @ e # ys)"
  shows "prv s e = last (h # xs)" "nxt s (last (h # xs)) = e" "fseg (nxt s) e ys h"
    "last (h # xs) \<notin> set (e # ys)" "last (h # xs) \<in> set (h # xs)"
    "e \<notin> set (h # xs @ ys)" "h \<notin> set ys"
    "h # xs @ e # ys = butlast (h # xs) @ last (h # xs) # e # ys"
    "h # xs @ zs = butlast (h # xs) @ last (h # xs) # zs"
proof -
  have split: "h # xs = butlast (h # xs) @ [last (h # xs)]" by simp
  then show "h # xs @ e # ys = butlast (h # xs) @ last (h # xs) # e # ys"
    "h # xs @ zs = butlast (h # xs) @ last (h # xs) # zs"
    by (metis append.assoc append_Cons append_Nil)+
  show last: "last (h # xs) \<in> set (h # xs)" by (rule last_in_set) simp
  have d: "distinct (h # xs @ e # ys)" using assms by (simp add: ring_def)
  then show "last (h # xs) \<notin> set (e # ys)" using last by auto
  show "prv s e = last (h # xs)" using ring_split_prev [OF assms] by auto
  show "fseg (nxt s) e ys h" using ring_paths(1) [OF assms] by simp
  have "fseg (nxt s) h xs e" using ring_paths(1) [OF assms] by simp
  then show "nxt s (last (h # xs)) = e" by (cases xs rule: rev_cases) auto
  show "e \<notin> set (h # xs @ ys)" "h \<notin> set ys" using d by auto
qed

lemma replace_rcu_publishes:
  assumes "ring s h (xs @ e # ys)" "n \<notin> set (h # xs @ e # ys)"
  shows "publishes h s (cds_list_replace_rcu e n) 2 (xs @ e # ys) (xs @ n # ys)"
proof (rule publishesI [where us = "butlast (h # xs)" and a = "last (h # xs)" and ws = "e # ys" and v = n
      and nx' = "(nxt s)(n := nxt s e, last (h # xs) := n)"])
  note p = ring_pred [OF assms(1)]
  let ?cs = "cds_list_replace_rcu e n" and ?l = "last (h # xs)"
  have ln: "?l \<noteq> n" "e \<noteq> n" "?l \<noteq> e" using p(4-6) assms(2) by auto
  show "nxt (all_stores (take k ?cs) s) x = nxt s x" if "k \<le> 2" "x \<in> set (h # xs @ e # ys)" for k x
    using that assms(2) le_cases_4 [of k] by (auto simp: cds_list_replace_rcu_def)
  show "nxt (all_stores (take k ?cs) s) = (nxt s)(n := nxt s e, ?l := n)"
    if "2 < k" "k \<le> length ?cs" for k
  proof -
    from that le_cases_4 [of k] have "k = Suc (Suc (Suc 0)) \<or> k = Suc (Suc (Suc (Suc 0)))"
      by (auto simp: cds_list_replace_rcu_def)
    with p(1) ln show ?thesis by (auto simp: cds_list_replace_rcu_def simp del: last.simps)
  qed
  show "(nxt s)(n := nxt s e, ?l := n) = (nxt (all_stores (take 2 ?cs) s))(?l := n)"
    using ln by (simp add: cds_list_replace_rcu_def numeral_2_eq_2 del: last.simps)
  have "fseg ((nxt s)(n := nxt s e, ?l := n)) n ys h"
  proof (cases ys)
    case Nil
    with p(3) ln show ?thesis by simp
  next
    case (Cons y zs)
    with p(3,4) assms(2) ln show ?thesis by auto
  qed
  then show "fseg ((nxt s)(n := nxt s e, ?l := n)) ?l (n # ys) h" by simp
  show "h # xs @ e # ys = butlast (h # xs) @ last (h # xs) # e # ys" by (rule p(8))
  show "h # xs @ n # ys = butlast (h # xs) @ last (h # xs) # n # ys" by (rule p(9))
qed (use assms in \<open>auto simp: cds_list_replace_rcu_def ring_def\<close>)

lemma del_rcu_publishes:
  assumes "ring s h (xs @ e # ys)"
  shows "publishes h s (cds_list_del_rcu e) 1 (xs @ e # ys) (xs @ ys)"
proof (rule publishesI [where us = "butlast (h # xs)" and a = "last (h # xs)" and ws = "e # ys"
      and v = "nxt s e" and nx' = "(nxt s)(last (h # xs) := nxt s e)"])
  note p = ring_pred [OF assms(1)]
  let ?cs = "cds_list_del_rcu e" and ?l = "last (h # xs)"
  have ne: "nxt s e \<noteq> e" using ring_neighbours(2) [OF assms] p(6) by auto
  show "nxt (all_stores (take k ?cs) s) x = nxt s x" if "k \<le> 1" "x \<in> set (h # xs @ e # ys)" for k x
    using that le_cases_4 [of k] by (auto simp: cds_list_del_rcu_def)
  show "nxt (all_stores (take k ?cs) s) = (nxt s)(?l := nxt s e)" if "1 < k" "k \<le> length ?cs" for k
  proof -
    from that have "k = Suc (Suc 0)" by (simp add: cds_list_del_rcu_def)
    with p(1) ne show ?thesis by (simp add: cds_list_del_rcu_def del: last.simps)
  qed
  show "(nxt s)(?l := nxt s e) = (nxt (all_stores (take 1 ?cs) s))(?l := nxt s e)"
    by (simp add: cds_list_del_rcu_def)
  show "fseg ((nxt s)(?l := nxt s e)) ?l ys h"
    using p(3,4) by (cases ys) (auto simp del: last.simps)
  show "h # xs @ e # ys = butlast (h # xs) @ last (h # xs) # e # ys" by (rule p(8))
  show "h # xs @ ys = butlast (h # xs) @ last (h # xs) # ys" by (rule p(9))
qed (use assms in \<open>auto simp: cds_list_del_rcu_def ring_def\<close>)


text \<open>With no reader in between, the updates are those of \<^verbatim>\<open>list.h\<close>.\<close>

lemma all_stores_eq:
  "n \<noteq> h \<Longrightarrow> n \<noteq> nxt s h \<Longrightarrow> all_stores (cds_list_add_rcu n h) s = list_add n h s"
  "n \<noteq> prv s h \<Longrightarrow> n \<noteq> h \<Longrightarrow> all_stores (cds_list_add_tail_rcu n h) s = list_add_tail n h s"
  "all_stores (cds_list_replace_rcu e n) s = cds_list_replace e n s"
  "nxt s e \<noteq> e \<Longrightarrow> all_stores (cds_list_del_rcu e) s = cds_list_del e s"
  by (auto simp: cds_list_add_rcu_def cds_list_add_tail_rcu_def cds_list_replace_rcu_def
      cds_list_del_rcu_def list_ops Let_def fun_upd_twist intro!: list_heap.equality)

section \<open>Properties\<close>

text \<open>
  Also shown (\<open>cds_list_add_rcu\<close>). A reader that runs concurrently, in any interleaving, sees
  the list without or with the new node at its head, never stands on a node outside the list and
  never on the new one before its \<open>next\<close> is set; once all stores are made the node is first in
  the doubly linked list.
\<close>
theorem cds_list_add_rcu_atomic:
  assumes "ring s h xs" and "n \<notin> set (h # xs)"
    and "reach (rcu_list_exec h) (rcu_list_start s (cds_list_add_rcu n h)) t"
  shows "(rd_done t \<longrightarrow> rd_seen t = xs \<or> rd_seen t = n # xs) \<and>
    (todo t = [] \<longrightarrow> ring (heap t) h (n # xs)) \<and>
    (\<forall>p. rd_pos t = Some p \<longrightarrow> p \<in> set (h # n # xs))"
proof -
  note sees = publishes_sees [OF add_rcu_publishes [OF assms(1,2)] assms(3)]
  have "n \<noteq> nxt s h" using ring_head_in(1) [OF assms(1)] assms(2) by auto
  then have "ring (all_stores (cds_list_add_rcu n h) s) h (n # xs)"
    using list_add_ring [OF assms(1,2)] assms(2) by (simp add: all_stores_eq(1))
  with sees show ?thesis by auto
qed

theorem cds_list_add_rcu_atomic_witness:
  "\<exists>t. run (rcu_list_exec 0) [Advance, Store, Store, Store, Advance, Store, Advance, Advance, Advance]
         (rcu_list_start two_lists (cds_list_add_rcu 5 0)) = Next t \<and>
       rd_done t \<and> rd_seen t = [1, 2, 3] \<and> ring (heap t) 0 [5, 1, 2, 3]"
proof -
  let ?s = "rcu_list_start two_lists (cds_list_add_rcu 5 0)"
  obtain t where t: "run (rcu_list_exec 0)
      [Advance, Store, Store, Store, Advance, Store, Advance, Advance, Advance] ?s = Next t"
    "rd_done t" "hd (rd_seen t) = 1" "todo t = []"
    by (simp add: rcu_list_start_def cds_list_add_rcu_def two_lists_def del: bind_outcome_Next)
  have n: "5 \<notin> set (0 # [1, 2, 3 :: nat])" by simp
  from cds_list_add_rcu_atomic [OF two_lists_rings(1) n run_reach [OF reach_init t(1)]] t(2-)
  have "rd_seen t = [1, 2, 3]" "ring (heap t) 0 [5, 1, 2, 3]" by auto
  with t(1,2) show ?thesis by blast
qed

text \<open>
  Also shown (\<open>cds_list_add_tail_rcu\<close>). The same for the insertion at the tail.
\<close>
theorem cds_list_add_tail_rcu_atomic:
  assumes "ring s h xs" and "n \<notin> set (h # xs)"
    and "reach (rcu_list_exec h) (rcu_list_start s (cds_list_add_tail_rcu n h)) t"
  shows "(rd_done t \<longrightarrow> rd_seen t = xs \<or> rd_seen t = xs @ [n]) \<and>
    (todo t = [] \<longrightarrow> ring (heap t) h (xs @ [n])) \<and>
    (\<forall>p. rd_pos t = Some p \<longrightarrow> p \<in> set (h # xs @ [n]))"
proof -
  note sees = publishes_sees [OF add_tail_rcu_publishes [OF assms(1,2)] assms(3)]
  have "n \<noteq> prv s h" using ring_head_in(2) [OF assms(1)] assms(2) by auto
  then have "ring (all_stores (cds_list_add_tail_rcu n h) s) h (xs @ [n])"
    using list_add_tail_ring [OF assms(1,2)] assms(2) by (simp add: all_stores_eq(2))
  with sees show ?thesis by auto
qed

theorem cds_list_add_tail_rcu_atomic_witness:
  "\<exists>t. run (rcu_list_exec 0) [Advance, Store, Store, Advance, Store, Advance, Advance, Advance, Store, Advance]
         (rcu_list_start two_lists (cds_list_add_tail_rcu 5 0)) = Next t \<and>
       rd_done t \<and> rd_seen t = [1, 2, 3, 5] \<and> ring (heap t) 0 [1, 2, 3, 5]"
proof -
  let ?s = "rcu_list_start two_lists (cds_list_add_tail_rcu 5 0)"
  obtain t where t: "run (rcu_list_exec 0)
      [Advance, Store, Store, Advance, Store, Advance, Advance, Advance, Store, Advance] ?s = Next t"
    "rd_done t" "last (rd_seen t) = 5" "todo t = []"
    by (simp add: rcu_list_start_def cds_list_add_tail_rcu_def two_lists_def del: bind_outcome_Next)
  have n: "5 \<notin> set (0 # [1, 2, 3 :: nat])" by simp
  from cds_list_add_tail_rcu_atomic [OF two_lists_rings(1) n run_reach [OF reach_init t(1)]] t(2-)
  have "rd_seen t = [1, 2, 3, 5]" "ring (heap t) 0 [1, 2, 3, 5]" by auto
  with t(1,2) show ?thesis by blast
qed

text \<open>
  Also shown (\<open>cds_list_replace_rcu\<close>). A concurrent reader sees the old node or the new one at
  that place, never both and never neither.
\<close>
theorem cds_list_replace_rcu_atomic:
  assumes "ring s h (xs @ e # ys)" and "n \<notin> set (h # xs @ e # ys)"
    and "reach (rcu_list_exec h) (rcu_list_start s (cds_list_replace_rcu e n)) t"
  shows "(rd_done t \<longrightarrow> rd_seen t = xs @ e # ys \<or> rd_seen t = xs @ n # ys) \<and>
    (todo t = [] \<longrightarrow> ring (heap t) h (xs @ n # ys))"
proof -
  note sees = publishes_sees [OF replace_rcu_publishes [OF assms(1,2)] assms(3)]
  have "ring (all_stores (cds_list_replace_rcu e n) s) h (xs @ n # ys)"
    using cds_list_replace_ring [OF assms(1,2)] by (simp add: all_stores_eq(3))
  with sees show ?thesis by auto
qed

theorem cds_list_replace_rcu_atomic_witness:
  "\<exists>t. run (rcu_list_exec 0) [Advance, Store, Advance, Store, Store, Store, Advance, Advance, Advance]
         (rcu_list_start two_lists (cds_list_replace_rcu 2 5)) = Next t \<and>
       rd_done t \<and> rd_seen t = [1, 2, 3] \<and> ring (heap t) 0 [1, 5, 3]"
proof -
  let ?s = "rcu_list_start two_lists (cds_list_replace_rcu 2 5)"
  obtain t where t: "run (rcu_list_exec 0)
      [Advance, Store, Advance, Store, Store, Store, Advance, Advance, Advance] ?s = Next t"
    "rd_done t" "rd_seen t ! 1 = 2" "todo t = []"
    by (simp add: rcu_list_start_def cds_list_replace_rcu_def two_lists_def del: bind_outcome_Next)
  have n: "5 \<notin> set (0 # [1] @ 2 # [3 :: nat])" by simp
  from cds_list_replace_rcu_atomic [OF two_lists_splits(1) n run_reach [OF reach_init t(1)]] t(2-)
  have "rd_seen t = [1, 2, 3]" "ring (heap t) 0 [1, 5, 3]" by auto
  with t(1,2) show ?thesis by blast
qed

text \<open>
  Property C28 (\<open>cds_list_del_rcu\<close>). A concurrent reader sees the list with or without the deleted
  node and, when it stands on it, still finds its way to the head: from every reachable state the
  reader alone reaches the end of its loop.
\<close>
theorem cds_list_del_rcu_atomic:
  assumes "ring s h (xs @ e # ys)"
    and "reach (rcu_list_exec h) (rcu_list_start s (cds_list_del_rcu e)) t"
  shows "(rd_done t \<longrightarrow> rd_seen t = xs @ e # ys \<or> rd_seen t = xs @ ys) \<and>
    (todo t = [] \<longrightarrow> ring (heap t) h (xs @ ys)) \<and>
    (\<not> rd_done t \<longrightarrow> (\<exists>m t'. m \<le> length (xs @ e # ys) + 2 \<and>
       run (rcu_list_exec h) (replicate m Advance) t = Next t' \<and> rd_done t'))"
proof -
  note pub = del_rcu_publishes [OF assms(1)]
  note sees = publishes_sees [OF pub assms(2)]
  have "nxt s e \<noteq> e" using ring_neighbours(2) [OF assms(1)] ring_pred(6) [OF assms(1)] by auto
  then have "ring (all_stores (cds_list_del_rcu e) s) h (xs @ ys)"
    using cds_list_del_ring [OF assms(1)] by (simp add: all_stores_eq(4))
  moreover have "\<exists>m t'. m \<le> length (xs @ e # ys) + 2 \<and>
      run (rcu_list_exec h) (replicate m Advance) t = Next t' \<and> rd_done t'" if nd: "\<not> rd_done t"
  proof -
    obtain rest where rest: "to_see (nxt (heap t)) h (rd_pos t) rest"
      "rd_seen t @ rest \<in> {xs @ e # ys, xs @ ys}"
      using invariant_machine.reach_inv [OF rcu_list_machine [OF pub] assms(2)]
      by (auto simp: rcu_list_inv_def split: if_splits)
    moreover have "h \<notin> set (xs @ e # ys)" using assms(1) by (simp add: ring_def)
    moreover have "set rest \<subseteq> set (rd_seen t @ rest)" "length rest \<le> length (rd_seen t @ rest)"
      by auto
    ultimately have "h \<notin> set rest" "length rest \<le> length (xs @ e # ys)" by fastforce+
    with reader_ends [OF rest(1) _ nd] obtain m t' where
      "run (rcu_list_exec h) (replicate m Advance) t = Next t'" "rd_done t'"
      "m \<le> length rest + (if rd_pos t = None then 2 else 1)" by blast
    with \<open>length rest \<le> length (xs @ e # ys)\<close> show ?thesis by (intro exI [of _ m] exI [of _ t']) (auto split: if_splits)
  qed
  ultimately show ?thesis using sees by auto
qed

theorem cds_list_del_rcu_atomic_witness:
  "\<exists>t. run (rcu_list_exec 0) [Advance, Advance, Store, Store, Advance, Advance, Advance]
         (rcu_list_start two_lists (cds_list_del_rcu 2)) = Next t \<and>
       rd_done t \<and> rd_seen t = [1, 2, 3] \<and> ring (heap t) 0 [1, 3]"
proof -
  let ?s = "rcu_list_start two_lists (cds_list_del_rcu 2)"
  obtain t where t: "run (rcu_list_exec 0)
      [Advance, Advance, Store, Store, Advance, Advance, Advance] ?s = Next t"
    "rd_done t" "rd_seen t ! 1 = 2" "todo t = []"
    by (simp add: rcu_list_start_def cds_list_del_rcu_def two_lists_def del: bind_outcome_Next)
  from cds_list_del_rcu_atomic [OF two_lists_splits(1) run_reach [OF reach_init t(1)]] t(2-)
  have "rd_seen t = [1, 2, 3]" "ring (heap t) 0 [1, 3]" by auto
  with t(1,2) show ?thesis by blast
qed

text \<open>
  Also shown (\<open>cds_list_for_each_entry_rcu\<close>). When \<open>entry\<close> undoes \<open>member\<close>, a reader of objects goes
  through the same steps as a reader of nodes, whatever the writer does: what is shown of one holds
  of the other.  While a node is deleted, it sees the objects of the list with or without it.
\<close>
theorem cds_list_for_each_entry_rcu_objects:
  assumes "\<And>p. member (entry p) = p"
  shows "run (rcu_entry_exec entry member h) es (rcu_list_start s cs) =
      map_next (objects entry) (run (rcu_list_exec h) es (rcu_list_start s cs)) \<and>
    (ring s h (xs @ e # ys) \<and> cs = cds_list_del_rcu e \<longrightarrow>
      (\<forall>t. run (rcu_entry_exec entry member h) es (rcu_list_start s cs) = Next t \<and> rd_done t \<longrightarrow>
        rd_seen t = map entry (xs @ e # ys) \<or> rd_seen t = map entry (xs @ ys)))"
proof -
  have "objects entry (rcu_list_start s cs) = rcu_list_start s cs" by (simp add: objects_def rcu_list_start_def)
  with rcu_entry_run [of member entry h es "rcu_list_start s cs"] assms
  have eq: "run (rcu_entry_exec entry member h) es (rcu_list_start s cs) =
      map_next (objects entry) (run (rcu_list_exec h) es (rcu_list_start s cs))" by simp
  have "rd_seen t = map entry (xs @ e # ys) \<or> rd_seen t = map entry (xs @ ys)"
    if r: "ring s h (xs @ e # ys)" and cs: "cs = cds_list_del_rcu e"
      and t: "run (rcu_entry_exec entry member h) es (rcu_list_start s cs) = Next t" "rd_done t" for t
  proof -
    from t(1) eq obtain u where u: "run (rcu_list_exec h) es (rcu_list_start s cs) = Next u" "t = objects entry u" by auto
    with t(2) have "rd_done u" "rd_seen t = map entry (rd_seen u)" by (simp_all add: objects_def)
    with publishes_sees(1) [OF del_rcu_publishes [OF r] run_reach [OF reach_init u(1) [unfolded cs]]]
    show ?thesis by auto
  qed
  with eq show ?thesis by blast
qed

theorem cds_list_for_each_entry_rcu_objects_witness:
  "\<exists>t. run (rcu_entry_exec (\<lambda>p. p + 100) (\<lambda>q. q - 100) 0) [Advance, Advance, Store, Store, Advance, Advance, Advance]
         (rcu_list_start two_lists (cds_list_del_rcu 2)) = Next t \<and> rd_seen t = [101, 102, 103]"
proof -
  let ?s = "rcu_list_start two_lists (cds_list_del_rcu 2)"
  obtain t where t: "run (rcu_entry_exec (\<lambda>p. p + 100) (\<lambda>q. q - 100) 0)
      [Advance, Advance, Store, Store, Advance, Advance, Advance] ?s = Next t" "rd_done t" "rd_seen t ! 1 = 102"
    by (simp add: rcu_list_start_def cds_list_del_rcu_def two_lists_def del: bind_outcome_Next)
  have m: "(p :: nat) + 100 - 100 = p" for p by simp
  from conjunct2 [OF cds_list_for_each_entry_rcu_objects [of "\<lambda>q. q - 100" "\<lambda>p. p + 100", OF m],
      rule_format, OF conjI [OF two_lists_splits(1) refl] conjI [OF t(1,2)]]
  have "rd_seen t = [101, 102, 103] \<or> rd_seen t = [101, 103]" by simp
  with t(3) have "rd_seen t = [101, 102, 103]" by auto
  with t(1) show ?thesis by blast
qed

end
