(* ===== verification/Notifier.thy ===== *)
theory Notifier
  imports Prelude
begin

text \<open>
  \<open>Notifier\<close>, that is \<open>ConditionVariable<void>\<close> of \<^verbatim>\<open>include/conditionvariable.hpp\<close>: an event
  that stays set until \<open>reset\<close>.  The word \<open>_awaiters\<close> is null, the notifier itself (\<open>N_Self\<close>:
  the event is set) or the newest awaiter of a list.  One atomic operation per step; as in the
  other components an awaiter is named by its coroutine and lives while that is suspended.
\<close>

section \<open>State and steps\<close>

datatype nword = N_Null | N_Self | N_Aw nat

datatype notifier_pc =
    N_Idle
  | N_Ready                 \<comment> \<open>\<open>await_ready\<close>: before the load\<close>
  | N_Load                  \<comment> \<open>\<open>await_suspend\<close>: before the load\<close>
  | N_Push nword            \<comment> \<open>head of its loop, with \<open>awaitings\<close>\<close>
  | N_Waiting               \<comment> \<open>suspended\<close>
  | N_Resume "nat option"   \<comment> \<open>\<open>notify\<close>, in \<open>resumeWaiters\<close>\<close>

record notifier =
  n_word :: nword
  n_next :: "nat \<Rightarrow> nat option"
  npc :: "nat \<Rightarrow> notifier_pc"
  n_offline :: "nat list"   \<comment> \<open>coroutines whose thread called \<open>rcu_offline\<close>, latest first\<close>

definition notifier_init :: notifier where
  "notifier_init = \<lparr>n_word = N_Null, n_next = (\<lambda>_. None), npc = (\<lambda>_. N_Idle), n_offline = []\<rparr>"

fun as_node :: "nword \<Rightarrow> nat option" where
  "as_node (N_Aw a) = Some a"
| "as_node N_Null = None"
| "as_node N_Self = None"

abbreviation n_goto :: "nat \<Rightarrow> notifier_pc \<Rightarrow> notifier \<Rightarrow> notifier" where
  "n_goto t p s \<equiv> s\<lparr>npc := (npc s)(t := p)\<rparr>"

definition notifier_await_ready :: "nat \<Rightarrow> notifier \<Rightarrow> notifier outcome" where
  "notifier_await_ready t s = Next (n_goto t (if n_word s = N_Self then N_Idle else N_Load) s)"

definition notifier_await_suspend :: "nat \<Rightarrow> nword \<Rightarrow> bool \<Rightarrow> notifier \<Rightarrow> notifier outcome" where
  "notifier_await_suspend t awaitings spurious s =
     (if awaitings = N_Self then Next (n_goto t N_Idle s)
      else let s1 = s\<lparr>n_next := (n_next s)(t := as_node awaitings)\<rparr>;
               (ok, cell, old) = cas_weak spurious (n_word s1) awaitings (N_Aw t)
           in if ok then Next (n_goto t N_Waiting (s1\<lparr>n_word := cell, n_offline := t # n_offline s1\<rparr>))
              else Next (n_goto t (N_Push old) (s1\<lparr>n_word := cell\<rparr>)))"

definition notifier_notify :: "nat \<Rightarrow> notifier \<Rightarrow> notifier outcome" where
  "notifier_notify t s =
     (let (old, cell) = xchg (n_word s) N_Self
      in Next (n_goto t (if old = N_Self then N_Idle else N_Resume (as_node old)) (s\<lparr>n_word := cell\<rparr>)))"

definition notifier_reset :: "notifier \<Rightarrow> notifier outcome" where
  "notifier_reset s = (let (_, cell, _) = cas_strong (n_word s) N_Self N_Null in Next (s\<lparr>n_word := cell\<rparr>))"

definition notifier_resumeWaiters :: "nat \<Rightarrow> nat option \<Rightarrow> notifier \<Rightarrow> notifier outcome" where
  "notifier_resumeWaiters t p s = (case p of
      None \<Rightarrow> Next (n_goto t N_Idle s)
    | Some a \<Rightarrow>
        if npc s a = N_Waiting then Next (n_goto a N_Idle (n_goto t (N_Resume (n_next s a)) s))
        else Fault UseAfterFree)"

datatype notifier_event = NWait nat | NNotify nat | NReset nat | NStep nat bool

fun notifier_step :: "nat \<Rightarrow> bool \<Rightarrow> notifier_pc \<Rightarrow> notifier \<Rightarrow> notifier outcome" where
  "notifier_step t b N_Idle s = Blocked"
| "notifier_step t b N_Ready s = notifier_await_ready t s"
| "notifier_step t b N_Load s = Next (n_goto t (N_Push (n_word s)) s)"
| "notifier_step t b (N_Push a) s = notifier_await_suspend t a b s"
| "notifier_step t b N_Waiting s = Blocked"
| "notifier_step t b (N_Resume p) s = notifier_resumeWaiters t p s"

fun notifier_exec :: "notifier_event \<Rightarrow> notifier \<Rightarrow> notifier outcome" where
  "notifier_exec (NWait t) s = (if npc s t = N_Idle then Next (n_goto t N_Ready s) else Blocked)"
| "notifier_exec (NNotify t) s = (if npc s t = N_Idle then notifier_notify t s else Blocked)"
| "notifier_exec (NReset t) s = (if npc s t = N_Idle then notifier_reset s else Blocked)"
| "notifier_exec (NStep t b) s = notifier_step t b (npc s t) s"

lemmas notifier_defs = notifier_await_ready_def notifier_await_suspend_def notifier_notify_def
  notifier_reset_def notifier_resumeWaiters_def atomic_defs Let_def

text \<open>A coroutine that waits has taken its core offline.\<close>

lemma notifier_step_park:
  assumes "notifier_step t b (npc s t) s = Next s'"
  shows "set (n_offline s) \<subseteq> set (n_offline s')"
    "npc s x \<noteq> N_Waiting \<Longrightarrow> npc s' x = N_Waiting \<Longrightarrow> n_offline s' = x # n_offline s"
  using assms by (cases "npc s t"; auto simp: notifier_defs split: if_splits option.splits)+

interpretation notifier_park: parking_machine notifier_init notifier_exec "\<lambda>s t. npc s t = N_Waiting" n_offline
proof
  fix e s s' t assume "notifier_exec e s = Next s'" "npc s t \<noteq> N_Waiting" "npc s' t = N_Waiting"
  then show "n_offline s' = t # n_offline s"
    using notifier_step_park(2) by (cases e) (fastforce simp: notifier_defs split: if_splits)+
next
  fix e s s' assume "notifier_exec e s = Next s'"
  then show "set (n_offline s) \<subseteq> set (n_offline s')"
    using notifier_step_park(1) by (cases e) (auto simp: notifier_defs split: if_splits)
qed (simp add: notifier_init_def)

section \<open>Invariant\<close>

text \<open>
  The suspended coroutines are those on the stack \<open>stk\<close> in \<open>_awaiters\<close> and those on the chains
  \<open>own t\<close> that notifiers have taken.
\<close>

fun resuming :: "notifier_pc \<Rightarrow> nat option" where
  "resuming (N_Resume p) = p"
| "resuming N_Idle = None"
| "resuming N_Ready = None"
| "resuming N_Load = None"
| "resuming (N_Push _) = None"
| "resuming N_Waiting = None"

definition notifier_rep :: "notifier \<Rightarrow> nat list \<Rightarrow> (nat \<Rightarrow> nat list) \<Rightarrow> bool" where
  "notifier_rep s stk own \<longleftrightarrow> chain (n_next s) (as_node (n_word s)) stk \<and>
     (\<forall>t. chain (n_next s) (resuming (npc s t)) (own t)) \<and>
     (\<forall>t x. x \<in> set (own t) \<longrightarrow> x \<notin> set stk) \<and>
     (\<forall>t u x. x \<in> set (own t) \<longrightarrow> x \<in> set (own u) \<longrightarrow> t = u) \<and>
     (\<forall>x. npc s x = N_Waiting \<longleftrightarrow> x \<in> set stk \<or> (\<exists>t. x \<in> set (own t)))"

lemma notifier_repD:
  assumes "notifier_rep s stk own"
  shows "chain (n_next s) (as_node (n_word s)) stk" "chain (n_next s) (resuming (npc s t)) (own t)"
    "x \<in> set (own t) \<Longrightarrow> x \<notin> set stk" "x \<in> set (own t) \<Longrightarrow> x \<in> set (own u) \<Longrightarrow> t = u"
    "npc s x = N_Waiting \<longleftrightarrow> x \<in> set stk \<or> (\<exists>t. x \<in> set (own t))"
  using assms unfolding notifier_rep_def by blast+

lemma notifier_repI:
  assumes "chain (n_next s) (as_node (n_word s)) stk" "\<And>t. chain (n_next s) (resuming (npc s t)) (own t)"
    "\<And>x t. x \<in> set (own t) \<Longrightarrow> x \<notin> set stk"
    "\<And>x t u. x \<in> set (own t) \<Longrightarrow> x \<in> set (own u) \<Longrightarrow> t = u"
    "\<And>x. npc s x = N_Waiting \<longleftrightarrow> x \<in> set stk \<or> (\<exists>t. x \<in> set (own t))"
  shows "notifier_rep s stk own"
  using assms unfolding notifier_rep_def by blast

lemma rep_not_waiting:
  assumes "notifier_rep s stk own" "npc s t \<noteq> N_Waiting"
  shows "t \<notin> set stk" "t \<notin> set (own u)"
  using notifier_repD(5) [OF assms(1), of t] assms(2) by auto

text \<open>A coroutine that is not suspended moves on, perhaps writing its own \<open>_next\<close>.\<close>

lemma notifier_move:
  assumes rep: "notifier_rep s stk own" and "npc s t \<noteq> N_Waiting" "resuming (npc s t) = None" "p \<noteq> N_Waiting"
    "resuming p = None" "n_next s' = (n_next s)(t := v)" "as_node (n_word s') = as_node (n_word s)"
    "npc s' = (npc s)(t := p)"
  shows "notifier_rep s' stk own"
proof -
  note c = notifier_repD [OF rep] and w = rep_not_waiting [OF rep assms(2)]
  show ?thesis
  proof (rule notifier_repI)
    show "chain (n_next s') (as_node (n_word s')) stk" using c(1) w assms by simp
    show "chain (n_next s') (resuming (npc s' u)) (own u)" for u
      using c(2) [of u] c(2) [of t] w assms by (cases "u = t") auto
    show "npc s' x = N_Waiting \<longleftrightarrow> x \<in> set stk \<or> (\<exists>t. x \<in> set (own t))" for x
      using c(5) [of x] assms(2,4,8) by auto
  qed (use c in blast)+
qed

lemma notifier_push:
  assumes rep: "notifier_rep s stk own" and "npc s t \<noteq> N_Waiting" "resuming (npc s t) = None"
    "n_next s' = (n_next s)(t := as_node (n_word s))" "n_word s' = N_Aw t" "npc s' = (npc s)(t := N_Waiting)"
  shows "notifier_rep s' (t # stk) own"
proof -
  note c = notifier_repD [OF rep] and w = rep_not_waiting [OF rep assms(2)]
  have o: "own t = []" using c(2) [of t] assms(3) by simp
  show ?thesis
  proof (rule notifier_repI)
    show "chain (n_next s') (as_node (n_word s')) (t # stk)" using c(1) w assms by simp
    show "chain (n_next s') (resuming (npc s' u)) (own u)" for u
      using c(2) [of u] o w assms by (cases "u = t") auto
    show "x \<in> set (own u) \<Longrightarrow> x \<notin> set (t # stk)" for x u using c(3) w by auto
    show "npc s' x = N_Waiting \<longleftrightarrow> x \<in> set (t # stk) \<or> (\<exists>t. x \<in> set (own t))" for x
      using c(5) [of x] assms(2,6) by auto
  qed (use c in blast)
qed

lemma notifier_take:
  assumes rep: "notifier_rep s stk own" and "npc s t = N_Idle"
  shows "notifier_rep (n_goto t (N_Resume (as_node (n_word s))) (s\<lparr>n_word := N_Self\<rparr>)) [] (own(t := stk))"
    (is "notifier_rep ?s [] ?own")
proof -
  note c = notifier_repD [OF rep]
  have o: "own t = []" using c(2) [of t] assms(2) by simp
  show ?thesis
  proof (rule notifier_repI)
    show "x \<in> set (?own u) \<Longrightarrow> x \<in> set (?own v) \<Longrightarrow> u = v" for x u v
      using c(3) [of x] c(4) [of x u v] by (auto split: if_splits)
    show "npc ?s x = N_Waiting \<longleftrightarrow> x \<in> set [] \<or> (\<exists>u. x \<in> set (?own u))" for x
    proof -
      have "(\<exists>u. x \<in> set (?own u)) \<longleftrightarrow> x \<in> set stk \<or> (\<exists>u. u \<noteq> t \<and> x \<in> set (own u))"
        by (auto split: if_splits)
      moreover have "(\<exists>u. x \<in> set (own u)) \<longleftrightarrow> (\<exists>u. u \<noteq> t \<and> x \<in> set (own u))"
        using o by (metis empty_iff empty_set)
      ultimately show ?thesis using c(5) [of x] c(5) [of t] assms(2) by auto
    qed
  qed (use c in auto)
qed

lemma notifier_resume:
  assumes rep: "notifier_rep s stk own" and "npc s t = N_Resume (Some a)"
  shows "npc s a = N_Waiting"
    "notifier_rep (n_goto a N_Idle (n_goto t (N_Resume (n_next s a)) s)) stk (own(t := tl (own t)))"
proof -
  note c = notifier_repD [OF rep]
  from c(2) [of t] assms(2) obtain os where o: "own t = a # os" "chain (n_next s) (n_next s a) os"
    by (auto simp: chain_Some)
  then have ao: "a \<notin> set os" by (auto dest: chain_not_in_tail)
  have "a \<in> set (own t)" using o(1) by simp
  then show live: "npc s a = N_Waiting" using c(5) by blast
  from live assms(2) have at: "a \<noteq> t" by auto
  have oa: "own a = []" using c(2) [of a] live by simp
  let ?s = "n_goto a N_Idle (n_goto t (N_Resume (n_next s a)) s)" and ?own = "own(t := tl (own t))"
  show "notifier_rep ?s stk ?own"
  proof (rule notifier_repI)
    show "chain (n_next ?s) (resuming (npc ?s u)) (?own u)" for u using c(2) [of u] o at oa by simp
    show "x \<in> set (?own u) \<Longrightarrow> x \<notin> set stk" for x u using c(3) [of x u] o by (auto split: if_splits)
    show "x \<in> set (?own u) \<Longrightarrow> x \<in> set (?own v) \<Longrightarrow> u = v" for x u v
      using c(4) [of x u v] o by (auto split: if_splits)
    show "npc ?s x = N_Waiting \<longleftrightarrow> x \<in> set stk \<or> (\<exists>u. x \<in> set (?own u))" for x
    proof (cases "x = a")
      case True
      have "\<not> (x \<in> set stk \<or> (\<exists>u. x \<in> set (?own u)))"
        using c(3) [of a t] c(4) [of a t] o ao True by (auto split: if_splits)
      with True show ?thesis by simp
    next
      case False
      then have "x \<in> set (?own u) \<longleftrightarrow> x \<in> set (own u)" for u using o by auto
      with c(5) [of x] False assms(2) show ?thesis by auto
    qed
  qed (use c in simp)
qed

lemma notifier_rep_step:
  assumes rep: "notifier_rep s stk own" and step: "notifier_exec e s = Next s'"
  shows "\<exists>stk' own'. notifier_rep s' stk' own'"
proof (cases e)
  case (NWait t)
  with step have "notifier_rep s' stk own"
    by (intro notifier_move [OF rep, where t = t and v = "n_next s t" and p = N_Ready]) (auto split: if_splits)
  then show ?thesis by blast
next
  case (NReset t)
  with step have "notifier_rep s' stk own"
    by (intro notifier_move [OF rep, where t = t and v = "n_next s t" and p = N_Idle])
      (auto simp: notifier_defs fun_upd_idem split: if_splits)
  then show ?thesis by blast
next
  case (NNotify t)
  show ?thesis
  proof (cases "n_word s = N_Self")
    case True
    with NNotify step have "notifier_rep s' stk own"
      by (intro notifier_move [OF rep, where t = t and v = "n_next s t" and p = N_Idle])
        (auto simp: notifier_defs split: if_splits)
    then show ?thesis by blast
  next
    case False
    with NNotify step notifier_take [OF rep, of t] show ?thesis
      by (auto simp: notifier_defs split: if_splits)
  qed
next
  case (NStep t b)
  show ?thesis
  proof (cases "npc s t")
    case N_Ready
    with NStep step have "notifier_rep s' stk own"
      by (intro notifier_move [OF rep, where t = t and v = "n_next s t"
            and p = "if n_word s = N_Self then N_Idle else N_Load"]) (auto simp: notifier_defs)
    then show ?thesis by blast
  next
    case N_Load
    with NStep step have "notifier_rep s' stk own"
      by (intro notifier_move [OF rep, where t = t and v = "n_next s t" and p = "N_Push (n_word s)"]) auto
    then show ?thesis by blast
  next
    case (N_Push a)
    consider "a = N_Self" | "a \<noteq> N_Self" "n_word s = a" "\<not> b" | "a \<noteq> N_Self" "n_word s \<noteq> a \<or> b" by blast
    then show ?thesis
    proof cases
      case 1
      with N_Push NStep step have "notifier_rep s' stk own"
        by (intro notifier_move [OF rep, where t = t and v = "n_next s t" and p = N_Idle])
          (auto simp: notifier_defs)
      then show ?thesis by blast
    next
      case 2
      with N_Push NStep step have "notifier_rep s' (t # stk) own"
        by (intro notifier_push [OF rep]) (auto simp: notifier_defs)
      then show ?thesis by blast
    next
      case 3
      with N_Push NStep step have "notifier_rep s' stk own"
        by (intro notifier_move [OF rep, where t = t and v = "as_node a" and p = "N_Push (n_word s)"])
          (auto simp: notifier_defs)
      then show ?thesis by blast
    qed
  next
    case (N_Resume p)
    show ?thesis
    proof (cases p)
      case None
      with N_Resume NStep step have "notifier_rep s' stk own"
        by (intro notifier_move [OF rep, where t = t and v = "n_next s t" and p = N_Idle])
          (auto simp: notifier_defs)
      then show ?thesis by blast
    next
      case (Some a)
      with N_Resume have r: "npc s t = N_Resume (Some a)" by simp
      from notifier_resume [OF rep r] r NStep step show ?thesis by (auto simp: notifier_defs)
    qed
  qed (use NStep step in auto)
qed

interpretation notifier: safe_machine notifier_init notifier_exec "\<lambda>s. \<exists>stk own. notifier_rep s stk own"
proof
  have "notifier_rep notifier_init [] (\<lambda>_. [])" by (simp add: notifier_rep_def notifier_init_def)
  then show "\<exists>stk own. notifier_rep notifier_init stk own" by blast
next
  fix e s s' assume "\<exists>stk own. notifier_rep s stk own" "notifier_exec e s = Next s'"
  then show "\<exists>stk own. notifier_rep s' stk own" using notifier_rep_step by blast
next
  fix s e f assume "\<exists>stk own. notifier_rep s stk own"
  then obtain stk own where rep: "notifier_rep s stk own" by blast
  show "notifier_exec e s \<noteq> Fault f"
  proof (cases e)
    case (NStep t b)
    then show ?thesis
    proof (cases "npc s t")
      case (N_Resume p)
      with NStep notifier_resume(1) [OF rep, of t] show ?thesis by (cases p) (auto simp: notifier_defs)
    qed (auto simp: notifier_defs)
  qed (auto simp: notifier_defs)
qed

section \<open>Properties\<close>

text \<open>
  Also shown (the notifier never faults). No schedule of waits, notifications and resets touches
  the awaiter of a coroutine that is not suspended or resumes one that is running.
\<close>
theorem notifier_never_faults: "run notifier_exec es notifier_init \<noteq> Fault f"
  by (rule notifier.run_no_fault)

text \<open>
  Property C27 (no waiter is lost). While the event is set and no notification is in progress,
  no coroutine is suspended on the notifier.
\<close>
theorem notifier_no_lost_waiter:
  assumes "reach notifier_exec notifier_init s" and "n_word s = N_Self"
    and "\<And>t. resuming (npc s t) = None"
  shows "npc s x \<noteq> N_Waiting"
proof -
  from notifier.reach_inv [OF assms(1)] obtain stk own where rep: "notifier_rep s stk own" by blast
  have "stk = []" using notifier_repD(1) [OF rep] assms(2) by simp
  moreover have "own t = []" for t using notifier_repD(2) [OF rep, of t] assms(3) [of t] by simp
  ultimately show ?thesis using notifier_repD(5) [OF rep, of x] by simp
qed

definition notifier_demo :: notifier where
  "notifier_demo = \<lparr>n_word = N_Self, n_next = (\<lambda>_. None), npc = (\<lambda>_. N_Idle), n_offline = [0]\<rparr>"

lemma notifier_demo_reach: "reach notifier_exec notifier_init notifier_demo"
proof (rule run_reach [OF reach_init])
  show "run notifier_exec [NWait 0, NStep 0 False, NStep 0 False, NStep 0 False, NNotify 1, NStep 1 False,
      NStep 1 False] notifier_init = Next notifier_demo"
    by (simp add: notifier_defs notifier_init_def notifier_demo_def fun_upd_idem)
qed

theorem notifier_no_lost_waiter_witness: "npc notifier_demo 0 \<noteq> N_Waiting"
  by (rule notifier_no_lost_waiter [OF notifier_demo_reach]) (simp_all add: notifier_demo_def)

text \<open>
  Also shown (the event is sticky). A coroutine that calls \<open>wait\<close> while the event is set returns
  from it in one step, and one that is on its way to sleep is turned back by its compare-exchange:
  it never suspends as long as nobody resets the event.
\<close>
theorem notifier_sticky:
  assumes "n_word s = N_Self" and "npc s t = N_Ready \<or> npc s t = N_Load \<or> (\<exists>a. npc s t = N_Push a)"
  shows "\<exists>n \<le> 3. \<exists>s'. run notifier_exec (replicate n (NStep t b)) s = Next s' \<and> npc s' t = N_Idle \<and>
    n_word s' = N_Self"
proof -
  have self: "run notifier_exec [NStep t b] u = Next (n_goto t N_Idle u)"
    if "npc u t = N_Push N_Self" for u using that by (simp add: notifier_defs)
  from assms(2) consider "npc s t = N_Ready" | "npc s t = N_Load" | a where "npc s t = N_Push a" by blast
  then show ?thesis
  proof cases
    case 1
    with assms(1) show ?thesis by (intro exI [of _ 1]) (simp add: notifier_defs)
  next
    case 2
    with assms(1) self [of "n_goto t (N_Push N_Self) s"] show ?thesis
      by (intro exI [of _ 2]) (simp add: numeral_2_eq_2)
  next
    case 3
    show ?thesis
    proof (cases "a = N_Self")
      case True
      with 3 assms(1) self [of s] show ?thesis by (intro exI [of _ 1]) simp
    next
      case False
      let ?s = "n_goto t (N_Push N_Self) (s\<lparr>n_next := (n_next s)(t := as_node a)\<rparr>)"
      have "notifier_exec (NStep t b) s = Next ?s"
        using 3 False assms(1) by (simp add: notifier_defs)
      with self [of ?s] assms(1) show ?thesis by (intro exI [of _ 2]) (simp add: numeral_2_eq_2)
    qed
  qed
qed

theorem notifier_sticky_witness:
  "\<exists>n s'. run notifier_exec (replicate n (NStep 2 False)) (n_goto 2 N_Ready notifier_demo) = Next s' \<and>
     npc s' 2 = N_Idle"
  using notifier_sticky [of "n_goto 2 N_Ready notifier_demo" 2 False] by (auto simp: notifier_demo_def)

end
