(* ===== verification/CoTask.thy ===== *)
theory CoTask
  imports Prelude
begin

text \<open>
  The lazy coroutine type \<open>task<T>\<close> and \<open>task<void>\<close> of \<^verbatim>\<open>include/task.hpp\<close>.

  A coroutine frame is a number; \<open>fr_state\<close> says where it is suspended, \<open>fr_caller\<close> and
  \<open>fr_value\<close> are the members \<open>_caller\<close> (\<open>None\<close>: the no-op coroutine) and \<open>_value\<close> of its
  promise, \<open>fr_void\<close> whether it is a \<open>task<void>\<close>.  The body of a coroutine is a tree of what it
  does at its suspension points: return, \<open>co_await\<close> another task, or \<open>co_await\<close> a leaf awaiter
  (an I/O, a lock, a yield) that suspends it until some callback resumes it with a value.  Values
  are integers, as in \<open>task<int>\<close>.
\<close>

section \<open>Bodies and frames\<close>

datatype prog =
    Ret "int option"                     \<comment> \<open>\<open>co_return v\<close>; \<open>None\<close> in a \<open>task<void>\<close>\<close>
  | Await bool prog "int option \<Rightarrow> prog"  \<comment> \<open>\<open>co_await\<close> a call, void or not, then go on with its result\<close>
  | Susp "int \<Rightarrow> prog"                   \<comment> \<open>\<open>co_await\<close> a leaf awaiter\<close>

datatype frame_state =
    F_Init prog                        \<comment> \<open>at \<open>initial_suspend\<close>\<close>
  | F_Run                              \<comment> \<open>not suspended\<close>
  | F_Await nat "int option \<Rightarrow> prog"     \<comment> \<open>in \<open>Awaiter\<close>, whose \<open>_h\<close> is the frame named\<close>
  | F_Susp "int \<Rightarrow> prog"                \<comment> \<open>in a leaf awaiter\<close>
  | F_Final                            \<comment> \<open>at \<open>final_suspend\<close>\<close>

record task_sys =
  fr_state :: "nat \<Rightarrow> frame_state option"   \<comment> \<open>\<open>None\<close>: no frame\<close>
  fr_caller :: "nat \<Rightarrow> nat option"
  fr_value :: "nat \<Rightarrow> int option"
  fr_void :: "nat \<Rightarrow> bool"
  running :: "(nat \<times> prog) option"
  fresh :: nat
  destroyed :: "nat list"

definition task_init :: task_sys where
  "task_init = \<lparr>fr_state = (\<lambda>_. None), fr_caller = (\<lambda>_. None), fr_value = (\<lambda>_. None),
     fr_void = (\<lambda>_. False), running = None, fresh = 0, destroyed = []\<rparr>"

section \<open>Operations\<close>

text \<open>Calling a coroutine makes a frame that is suspended before its body (\<open>get_return_object\<close>).\<close>

definition new_task :: "bool \<Rightarrow> prog \<Rightarrow> task_sys \<Rightarrow> nat \<times> task_sys" where
  "new_task void p s =
     (let f = fresh s in
      (f, s\<lparr>fr_state := (fr_state s)(f := Some (F_Init p)), fr_caller := (fr_caller s)(f := None),
            fr_value := (fr_value s)(f := None), fr_void := (fr_void s)(f := void), fresh := Suc f\<rparr>))"

definition destroy_frame :: "nat \<Rightarrow> task_sys \<Rightarrow> task_sys outcome" where
  "destroy_frame f s =
     (if fr_state s f = None then Fault DoubleDestroy
      else Next (s\<lparr>fr_state := (fr_state s)(f := None), destroyed := destroyed s @ [f]\<rparr>))"

definition return_value :: "nat \<Rightarrow> int \<Rightarrow> task_sys \<Rightarrow> task_sys outcome" where
  "return_value f v s =
     (if fr_value s f \<noteq> None then Fault AssertFailed
      else Next (s\<lparr>fr_value := (fr_value s)(f := Some v)\<rparr>))"

definition return_void :: "nat \<Rightarrow> task_sys \<Rightarrow> task_sys outcome" where
  "return_void f s = Next s"

text \<open>\<open>await_resume\<close> of the two awaiters: the value is moved out and the frame destroyed.\<close>

definition await_resume_value :: "nat \<Rightarrow> task_sys \<Rightarrow> (int option \<times> task_sys) outcome" where
  "await_resume_value h s = (case fr_value s h of
      None \<Rightarrow> Fault BadOptionalAccess
    | Some v \<Rightarrow> map_next (\<lambda>s'. (Some v, s')) (destroy_frame h s))"

definition await_resume_void :: "nat \<Rightarrow> task_sys \<Rightarrow> (int option \<times> task_sys) outcome" where
  "await_resume_void h s = map_next (\<lambda>s'. (None, s')) (destroy_frame h s)"

definition run_frame :: "nat \<Rightarrow> prog \<Rightarrow> task_sys \<Rightarrow> task_sys" where
  "run_frame f p s = s\<lparr>fr_state := (fr_state s)(f := Some F_Run), running := Some (f, p)\<rparr>"

text \<open>Resuming the caller at its \<open>co_await\<close>; it must be suspended on the frame \<open>h\<close>.\<close>

definition resume_caller :: "nat \<Rightarrow> nat \<Rightarrow> task_sys \<Rightarrow> task_sys outcome" where
  "resume_caller g h s = (case fr_state s g of
      None \<Rightarrow> Fault UseAfterFree
    | Some (F_Await h' k) \<Rightarrow>
        if h' \<noteq> h then Fault BadResume
        else bind_outcome (if fr_void s h then await_resume_void h s else await_resume_value h s)
               (\<lambda>(r, s'). Next (run_frame g (k r) s'))
    | Some _ \<Rightarrow> Fault BadResume)"

definition final_suspend :: "nat \<Rightarrow> task_sys \<Rightarrow> task_sys outcome" where
  "final_suspend f s =
     (let s1 = s\<lparr>fr_state := (fr_state s)(f := Some F_Final), running := None\<rparr>
      in case fr_caller s f of None \<Rightarrow> Next s1 | Some g \<Rightarrow> resume_caller g f s1)"

definition task_return :: "nat \<Rightarrow> int option \<Rightarrow> task_sys \<Rightarrow> task_sys outcome" where
  "task_return f r s =
     bind_outcome (case r of Some v \<Rightarrow> return_value f v s | None \<Rightarrow> return_void f s) (final_suspend f)"

text \<open>\<open>co_await\<close>: the handle moves into the awaiter, \<open>_caller\<close> is set, control goes to the callee.\<close>

definition task_co_await :: "nat \<Rightarrow> nat \<Rightarrow> (int option \<Rightarrow> prog) \<Rightarrow> task_sys \<Rightarrow> task_sys outcome" where
  "task_co_await f h k s = (case fr_state s h of
      Some (F_Init q) \<Rightarrow>
        Next (run_frame h q (s\<lparr>fr_caller := (fr_caller s)(h := Some f),
                               fr_state := (fr_state s)(f := Some (F_Await h k))\<rparr>))
    | _ \<Rightarrow> Fault BadResume)"

fun task_tick :: "nat \<Rightarrow> prog \<Rightarrow> task_sys \<Rightarrow> task_sys outcome" where
  "task_tick f (Ret r) s = task_return f r s"
| "task_tick f (Await void q k) s = (let (h, s1) = new_task void q s in task_co_await f h k s1)"
| "task_tick f (Susp k) s = Next (s\<lparr>fr_state := (fr_state s)(f := Some (F_Susp k)), running := None\<rparr>)"

definition start_task :: "nat \<Rightarrow> task_sys \<Rightarrow> task_sys outcome" where
  "start_task f s = (case fr_state s f of
      None \<Rightarrow> Fault UseAfterFree
    | Some (F_Init p) \<Rightarrow> Next (run_frame f p s)
    | Some _ \<Rightarrow> Fault BadResume)"

text \<open>\<open>launch_task_on_fire\<close> of \<^verbatim>\<open>src/schedule.cpp\<close> starts a task of the caller.\<close>

definition launch_task_on_fire :: "nat \<Rightarrow> task_sys \<Rightarrow> task_sys outcome" where
  "launch_task_on_fire t s = start_task t s"

definition task_is_done :: "nat \<Rightarrow> task_sys \<Rightarrow> bool" where
  "task_is_done f s \<longleftrightarrow> fr_state s f = Some F_Final"

definition task_get :: "nat \<Rightarrow> task_sys \<Rightarrow> int option" where
  "task_get f s = fr_value s f"

fun not_started :: "frame_state option \<Rightarrow> bool" where
  "not_started (Some (F_Init p)) = True"
| "not_started _ = False"

text \<open>
  The events on one reactor: somebody calls a coroutine and keeps the \<open>task\<close>, starts it, drops it
  when it is done; the running coroutine goes on to its next suspension point; a callback resumes
  a coroutine that is suspended in a leaf awaiter.
\<close>

datatype task_event = Spawn bool prog | Start nat | Drop nat | Tick | Wake nat int

fun task_exec :: "task_event \<Rightarrow> task_sys \<Rightarrow> task_sys outcome" where
  "task_exec (Spawn void p) s = (if running s = None then Next (snd (new_task void p s)) else Blocked)"
| "task_exec (Start f) s =
     (if running s = None \<and> not_started (fr_state s f) then start_task f s else Blocked)"
| "task_exec (Drop f) s =
     (if running s = None \<and> task_is_done f s then destroy_frame f s else Blocked)"
| "task_exec Tick s = (case running s of None \<Rightarrow> Blocked | Some (f, p) \<Rightarrow> task_tick f p s)"
| "task_exec (Wake f v) s =
     (case running s of Some _ \<Rightarrow> Blocked | None \<Rightarrow>
       (case fr_state s f of Some (F_Susp k) \<Rightarrow> Next (run_frame f (k v) s) | _ \<Rightarrow> Blocked))"

lemmas task_defs = new_task_def destroy_frame_def return_value_def return_void_def await_resume_value_def
  await_resume_void_def run_frame_def resume_caller_def final_suspend_def task_return_def
  task_co_await_def start_task_def task_is_done_def Let_def

section \<open>What a body computes\<close>

text \<open>
  The direct reading of a body, without frames: the inputs are the values the leaf awaiters give,
  in order.  \<open>None\<close>: the inputs do not suffice.
\<close>

primrec eval :: "prog \<Rightarrow> int list \<Rightarrow> (int option \<times> int list) option" where
  "eval (Ret r) = (\<lambda>ins. Some (r, ins))"
| "eval (Await void q k) = (\<lambda>ins. case eval q ins of None \<Rightarrow> None | Some (r, ins') \<Rightarrow> eval (k r) ins')"
| "eval (Susp k) = (\<lambda>ins. case ins of [] \<Rightarrow> None | i # ins' \<Rightarrow> eval (k i) ins')"

text \<open>What the compiler checks: a \<open>task<void>\<close> returns nothing, a \<open>task<int>\<close> a value.\<close>

primrec typed :: "bool \<Rightarrow> prog \<Rightarrow> bool" where
  "typed void (Ret r) \<longleftrightarrow> (void \<longleftrightarrow> r = None)"
| "typed void (Await v q k) \<longleftrightarrow> typed v q \<and> (\<forall>r. (v \<longleftrightarrow> r = None) \<longrightarrow> typed void (k r))"
| "typed void (Susp k) \<longleftrightarrow> (\<forall>i. typed void (k i))"

lemma eval_typed: "eval p ins = Some (r, rest) \<Longrightarrow> typed void p \<Longrightarrow> (void \<longleftrightarrow> r = None)"
proof (induction p arbitrary: ins r rest void)
  case (Await v q k)
  from Await.prems(1) obtain r' ins' where q: "eval q ins = Some (r', ins')" "eval (k r') ins' = Some (r, rest)"
    by (auto split: option.splits)
  from Await.IH(1) [OF q(1)] Await.prems(2) have "v \<longleftrightarrow> r' = None" by auto
  with Await.IH(2) [OF _ q(2)] Await.prems(2) show ?case by auto
next
  case (Susp k)
  from Susp.prems obtain i ins' where "eval (k i) ins' = Some (r, rest)" "typed void (k i)"
    by (cases ins) auto
  with Susp.IH [OF rangeI] show ?case by blast
qed auto


section \<open>Invariant\<close>

text \<open>
  Every frame that awaits is awaited by nobody else's frame: the callee is alive, suspended past
  its start or running, and its \<open>_caller\<close> is the awaiting frame.
\<close>

definition callee_ok :: "task_sys \<Rightarrow> nat \<Rightarrow> nat \<Rightarrow> bool" where
  "callee_ok s f h \<longleftrightarrow> fr_caller s h = Some f \<and> fr_state s h \<noteq> None \<and> fr_state s h \<noteq> Some F_Final \<and>
     \<not> not_started (fr_state s h)"

definition frame_ok :: "task_sys \<Rightarrow> nat \<Rightarrow> bool" where
  "frame_ok s f \<longleftrightarrow> (case fr_state s f of
      None \<Rightarrow> True
    | Some (F_Init p) \<Rightarrow> typed (fr_void s f) p \<and> fr_caller s f = None \<and> fr_value s f = None
    | Some F_Run \<Rightarrow> (\<exists>p. running s = Some (f, p)) \<and> fr_value s f = None
    | Some (F_Await h k) \<Rightarrow> callee_ok s f h \<and> fr_value s f = None \<and>
        (\<forall>r. (fr_void s h \<longleftrightarrow> r = None) \<longrightarrow> typed (fr_void s f) (k r))
    | Some (F_Susp k) \<Rightarrow> (\<forall>i. typed (fr_void s f) (k i)) \<and> fr_value s f = None
    | Some F_Final \<Rightarrow> fr_caller s f = None)"

definition awaits_on :: "frame_state option \<Rightarrow> nat \<Rightarrow> bool" where
  "awaits_on st h \<longleftrightarrow> (case st of Some (F_Await h' k) \<Rightarrow> h' = h | _ \<Rightarrow> False)"

definition task_inv :: "task_sys \<Rightarrow> bool" where
  "task_inv s \<longleftrightarrow> (\<forall>f. frame_ok s f) \<and> (\<forall>f. fr_state s f \<noteq> None \<longrightarrow> f < fresh s) \<and>
     (\<forall>h g. fr_state s h \<noteq> None \<longrightarrow> fr_caller s h = Some g \<longrightarrow> awaits_on (fr_state s g) h) \<and>
     (\<forall>f p. running s = Some (f, p) \<longrightarrow> fr_state s f = Some F_Run \<and> typed (fr_void s f) p)"

lemma task_invD:
  assumes "task_inv s"
  shows "frame_ok s f" "fr_state s f \<noteq> None \<Longrightarrow> f < fresh s"
    "fr_state s h \<noteq> None \<Longrightarrow> fr_caller s h = Some g \<Longrightarrow> awaits_on (fr_state s g) h"
    "running s = Some (f, p) \<Longrightarrow> fr_state s f = Some F_Run \<and> typed (fr_void s f) p"
  using assms by (auto simp: task_inv_def)

lemma awaits_onE: "awaits_on st h \<Longrightarrow> (\<And>k. st = Some (F_Await h k) \<Longrightarrow> P) \<Longrightarrow> P"
  by (auto simp: awaits_on_def split: option.splits frame_state.splits)

lemma awaits_on_simps [simp]:
  "awaits_on (Some (F_Await h' k)) h \<longleftrightarrow> h' = h" "\<not> awaits_on None h" "\<not> awaits_on (Some (F_Init p)) h"
  "\<not> awaits_on (Some F_Run) h" "\<not> awaits_on (Some (F_Susp k')) h" "\<not> awaits_on (Some F_Final) h"
  by (simp_all add: awaits_on_def)

lemma task_inv_init: "task_inv task_init"
  by (simp add: task_inv_def task_init_def frame_ok_def)

lemma fresh_unused:
  assumes "task_inv s"
  shows "fr_state s (fresh s) = None" "\<not> awaits_on (fr_state s g) (fresh s)"
    "fr_state s h \<noteq> None \<Longrightarrow> fr_caller s h \<noteq> Some (fresh s)"
proof -
  show n: "fr_state s (fresh s) = None" using task_invD(2) [OF assms, of "fresh s"] by (metis less_irrefl)
  show "\<not> awaits_on (fr_state s g) (fresh s)"
  proof
    assume "awaits_on (fr_state s g) (fresh s)"
    then obtain k where "fr_state s g = Some (F_Await (fresh s) k)" by (rule awaits_onE)
    with task_invD(1) [OF assms, of g] n show False by (simp add: frame_ok_def callee_ok_def)
  qed
  show "fr_state s h \<noteq> None \<Longrightarrow> fr_caller s h \<noteq> Some (fresh s)"
    using task_invD(3) [OF assms, of h "fresh s"] n by auto
qed

text \<open>A state whose frames other than \<open>f\<close> are as before.\<close>

lemma frame_ok_other:
  assumes "frame_ok s g" "fr_state s' g = fr_state s g" "fr_caller s' g = fr_caller s g"
    "fr_value s' g = fr_value s g" "fr_void s' g = fr_void s g"
    and "fr_state s g = Some F_Run \<Longrightarrow> \<exists>p. running s' = Some (g, p)"
    and "\<And>h. awaits_on (fr_state s g) h \<Longrightarrow> callee_ok s g h \<Longrightarrow> callee_ok s' g h \<and> fr_void s' h = fr_void s h"
  shows "frame_ok s' g"
  using assms by (auto simp: frame_ok_def split: option.splits frame_state.splits)


lemma task_invI:
  assumes "\<And>f. frame_ok s f" "\<And>f. fr_state s f \<noteq> None \<Longrightarrow> f < fresh s"
    "\<And>h g. fr_state s h \<noteq> None \<Longrightarrow> fr_caller s h = Some g \<Longrightarrow> awaits_on (fr_state s g) h"
    "\<And>f p. running s = Some (f, p) \<Longrightarrow> fr_state s f = Some F_Run \<and> typed (fr_void s f) p"
  shows "task_inv s"
  using assms by (auto simp: task_inv_def)

text \<open>The only frame that runs is the one in \<open>running\<close>.\<close>

lemma run_unique:
  assumes "task_inv s" "fr_state s g = Some F_Run"
  shows "\<exists>p. running s = Some (g, p)"
  using task_invD(1) [OF assms(1), of g] assms(2) by (simp add: frame_ok_def)

lemma new_task_inv:
  assumes inv: "task_inv s" and ty: "typed void p"
  shows "task_inv (snd (new_task void p s))"
proof -
  let ?s = "snd (new_task void p s)"
  note d = task_invD [OF inv] and u = fresh_unused [OF inv]
  show ?thesis
  proof (rule task_invI)
    show "frame_ok ?s g" for g
    proof (cases "g = fresh s")
      case True
      with ty show ?thesis by (simp add: frame_ok_def new_task_def Let_def)
    next
      case False
      show ?thesis
      proof (rule frame_ok_other [OF d(1) [of g]])
        fix x assume "callee_ok s g x"
        moreover from this u(1) have "x \<noteq> fresh s" by (auto simp: callee_ok_def)
        ultimately show "callee_ok ?s g x \<and> fr_void ?s x = fr_void s x"
          by (simp add: callee_ok_def new_task_def Let_def)
      next
        assume "fr_state s g = Some F_Run"
        with run_unique [OF inv] show "\<exists>p. running ?s = Some (g, p)" by (simp add: new_task_def Let_def)
      qed (use False in \<open>simp_all add: new_task_def Let_def\<close>)
    qed
    show "fr_state ?s g \<noteq> None \<Longrightarrow> g < fresh ?s" for g
      using d(2) [of g] by (auto simp: new_task_def Let_def split: if_splits)
    show "fr_state ?s h \<noteq> None \<Longrightarrow> fr_caller ?s h = Some g \<Longrightarrow> awaits_on (fr_state ?s g) h" for h g
      using d(3) [of h g] u(1) u(3) [of h] by (auto simp: new_task_def Let_def split: if_splits)
    show "running ?s = Some (g, q) \<Longrightarrow> fr_state ?s g = Some F_Run \<and> typed (fr_void ?s g) q" for g q
      using d(4) [of g q] u(1) by (auto simp: new_task_def Let_def)
  qed
qed

lemma run_frame_inv:
  assumes inv: "task_inv s" and "running s = None" "typed (fr_void s f) p" "fr_value s f = None"
    and st: "fr_state s f = Some (F_Init q) \<or> fr_state s f = Some (F_Susp k)"
  shows "task_inv (run_frame f p s)"
proof -
  let ?s = "run_frame f p s"
  note d = task_invD [OF inv]
  have na: "\<not> awaits_on (fr_state s f) h" for h using st by auto
  have fs: "fr_state s f \<noteq> None" "fr_state s f \<noteq> Some F_Run" "fr_state s f \<noteq> Some F_Final" using st by auto
  show ?thesis
  proof (rule task_invI)
    show "frame_ok ?s g" for g
    proof (cases "g = f")
      case True
      with assms show ?thesis by (simp add: frame_ok_def run_frame_def)
    next
      case False
      have nr: "fr_state s g \<noteq> Some F_Run" using run_unique [OF inv, of g] assms(2) by auto
      show ?thesis
      proof (rule frame_ok_other [OF d(1) [of g]])
        fix x assume "callee_ok s g x"
        then show "callee_ok ?s g x \<and> fr_void ?s x = fr_void s x"
          by (simp add: callee_ok_def run_frame_def)
      qed (use False nr in \<open>simp_all add: run_frame_def\<close>)
    qed
    show "fr_state ?s g \<noteq> None \<Longrightarrow> g < fresh ?s" for g
      using d(2) [of g] d(2) [of f] fs by (auto simp: run_frame_def split: if_splits)
    show "fr_state ?s h \<noteq> None \<Longrightarrow> fr_caller ?s h = Some g \<Longrightarrow> awaits_on (fr_state ?s g) h" for h g
      using d(3) [of h g] fs na [of h] by (auto simp: run_frame_def split: if_splits)
    show "running ?s = Some (g, q) \<Longrightarrow> fr_state ?s g = Some F_Run \<and> typed (fr_void ?s g) q" for g q
      using assms(3) by (auto simp: run_frame_def)
  qed
qed

lemma suspend_inv:
  assumes inv: "task_inv s" and r: "running s = Some (f, Susp k)"
  shows "task_inv (s\<lparr>fr_state := (fr_state s)(f := Some (F_Susp k)), running := None\<rparr>)"
proof -
  let ?s = "s\<lparr>fr_state := (fr_state s)(f := Some (F_Susp k)), running := None\<rparr>"
  note d = task_invD [OF inv]
  have f: "fr_state s f = Some F_Run" "typed (fr_void s f) (Susp k)" using d(4) [OF r] by auto
  have v: "fr_value s f = None" using d(1) [of f] f by (simp add: frame_ok_def)
  show ?thesis
  proof (rule task_invI)
    show "frame_ok ?s g" for g
    proof (cases "g = f")
      case True
      with f v show ?thesis by (simp add: frame_ok_def)
    next
      case False
      have nr: "fr_state s g \<noteq> Some F_Run" using run_unique [OF inv, of g] r False by auto
      show ?thesis
      proof (rule frame_ok_other [OF d(1) [of g]])
        fix x assume "callee_ok s g x"
        then show "callee_ok ?s g x \<and> fr_void ?s x = fr_void s x" by (simp add: callee_ok_def)
      qed (use False nr in simp_all)
    qed
    show "fr_state ?s g \<noteq> None \<Longrightarrow> g < fresh ?s" for g
      using d(2) [of g] d(2) [of f] f by (auto split: if_splits)
    show "fr_state ?s h \<noteq> None \<Longrightarrow> fr_caller ?s h = Some g \<Longrightarrow> awaits_on (fr_state ?s g) h" for h g
      using d(3) [of h g] f by (auto split: if_splits)
  qed simp
qed

lemma co_await_inv:
  assumes inv: "task_inv s" and r: "running s = Some (f, p)" and h: "fr_state s h = Some (F_Init q)"
    and ty: "\<forall>r. (fr_void s h \<longleftrightarrow> r = None) \<longrightarrow> typed (fr_void s f) (k r)"
  shows "\<exists>s'. task_co_await f h k s = Next s' \<and> task_inv s'"
proof -
  let ?s = "run_frame h q (s\<lparr>fr_caller := (fr_caller s)(h := Some f),
      fr_state := (fr_state s)(f := Some (F_Await h k))\<rparr>)"
  note d = task_invD [OF inv]
  have f: "fr_state s f = Some F_Run" using d(4) [OF r] by auto
  have v: "fr_value s f = None" using d(1) [of f] f by (simp add: frame_ok_def)
  have hq: "typed (fr_void s h) q" "fr_caller s h = None" "fr_value s h = None"
    using d(1) [of h] h by (simp_all add: frame_ok_def)
  have fh: "f \<noteq> h" using f h by auto
  have nh: "\<not> callee_ok s g h" for g using h by (simp add: callee_ok_def)
  have naf: "callee_ok s g f \<Longrightarrow> callee_ok ?s g f" for g
    using fh by (auto simp: callee_ok_def run_frame_def)
  have "task_inv ?s"
  proof (rule task_invI)
    show "frame_ok ?s g" for g
    proof -
      consider "g = f" | "g = h" | "g \<noteq> f" "g \<noteq> h" by blast
      then show ?thesis
      proof cases
        case 1
        with fh v ty show ?thesis by (simp add: frame_ok_def run_frame_def callee_ok_def)
      next
        case 2
        with fh hq show ?thesis by (simp add: frame_ok_def run_frame_def)
      next
        case 3
        have "fr_state s g \<noteq> Some F_Run" using run_unique [OF inv, of g] r 3 by auto
        then show ?thesis
        proof (intro frame_ok_other [OF d(1) [of g]])
          fix x assume x: "callee_ok s g x"
          then have "x \<noteq> h" using nh by blast
          with x naf [of g] show "callee_ok ?s g x \<and> fr_void ?s x = fr_void s x"
            by (cases "x = f") (auto simp: callee_ok_def run_frame_def)
        qed (use 3 in \<open>auto simp: run_frame_def\<close>)
      qed
    qed
    show "fr_state ?s g \<noteq> None \<Longrightarrow> g < fresh ?s" for g
      using d(2) [of g] d(2) [of f] d(2) [of h] f h by (auto simp: run_frame_def split: if_splits)
    show "fr_state ?s x \<noteq> None \<Longrightarrow> fr_caller ?s x = Some g \<Longrightarrow> awaits_on (fr_state ?s g) x" for x g
      using d(3) [of x g] d(3) [of f g] f h fh by (auto simp: run_frame_def split: if_splits)
    show "running ?s = Some (g, q') \<Longrightarrow> fr_state ?s g = Some F_Run \<and> typed (fr_void ?s g) q'" for g q'
      using hq by (auto simp: run_frame_def)
  qed
  then show ?thesis using h by (simp add: task_co_await_def)
qed


text \<open>Returning: at the top the frame stays at its final suspension point, else control and
  value go to the caller and the frame is destroyed.\<close>

definition returned_top :: "nat \<Rightarrow> int option \<Rightarrow> task_sys \<Rightarrow> task_sys" where
  "returned_top f r s = s\<lparr>fr_value := (fr_value s)(f := r), fr_state := (fr_state s)(f := Some F_Final),
     running := None\<rparr>"

definition returned_to :: "nat \<Rightarrow> nat \<Rightarrow> prog \<Rightarrow> int option \<Rightarrow> task_sys \<Rightarrow> task_sys" where
  "returned_to f g p r s = s\<lparr>fr_value := (fr_value s)(f := r),
     fr_state := (fr_state s)(f := None, g := Some F_Run), running := Some (g, p),
     destroyed := destroyed s @ [f]\<rparr>"

lemma task_return_top:
  assumes "fr_caller s f = None" "fr_value s f = None"
  shows "task_return f r s = Next (returned_top f r s)"
  using assms by (cases r) (auto simp: task_defs returned_top_def fun_upd_idem)

lemma task_return_to:
  assumes "fr_caller s f = Some g" "fr_value s f = None" "fr_state s g = Some (F_Await f k)" "f \<noteq> g"
    "fr_void s f \<longleftrightarrow> r = None"
  shows "task_return f r s = Next (returned_to f g (k r) r s)"
proof (cases r)
  case None
  with assms have "fr_value s = (fr_value s)(f := r)" by (simp add: fun_upd_idem)
  with None assms show ?thesis
    by (simp add: task_defs returned_to_def fun_upd_idem fun_upd_upd)
next
  case (Some v)
  with assms show ?thesis by (simp add: task_defs returned_to_def)
qed

lemma returned_top_inv:
  assumes inv: "task_inv s" and r: "running s = Some (f, Ret r)" and c: "fr_caller s f = None"
  shows "task_inv (returned_top f r s)"
proof -
  let ?s = "returned_top f r s"
  note d = task_invD [OF inv]
  have f: "fr_state s f = Some F_Run" using d(4) [OF r] by auto
  have nf: "\<not> callee_ok s g f" for g using c by (simp add: callee_ok_def)
  show ?thesis
  proof (rule task_invI)
    show "frame_ok ?s g" for g
    proof (cases "g = f")
      case True
      with c show ?thesis by (simp add: frame_ok_def returned_top_def)
    next
      case False
      have nr: "fr_state s g \<noteq> Some F_Run" using run_unique [OF inv, of g] r False by auto
      show ?thesis
      proof (rule frame_ok_other [OF d(1) [of g]])
        fix x assume x: "callee_ok s g x"
        then have "x \<noteq> f" using nf by blast
        with x show "callee_ok ?s g x \<and> fr_void ?s x = fr_void s x"
          by (simp add: callee_ok_def returned_top_def)
      qed (use False nr in \<open>simp_all add: returned_top_def\<close>)
    qed
    show "fr_state ?s g \<noteq> None \<Longrightarrow> g < fresh ?s" for g
      using d(2) [of g] d(2) [of f] f by (auto simp: returned_top_def split: if_splits)
    show "fr_state ?s h \<noteq> None \<Longrightarrow> fr_caller ?s h = Some g \<Longrightarrow> awaits_on (fr_state ?s g) h" for h g
      using d(3) [of h g] d(3) [of f g] f c by (auto simp: returned_top_def split: if_splits)
  qed (simp add: returned_top_def)
qed

lemma returned_to_inv:
  assumes inv: "task_inv s" and r: "running s = Some (f, Ret r)" and c: "fr_caller s f = Some g"
    and g: "fr_state s g = Some (F_Await f k)"
  shows "task_inv (returned_to f g (k r) r s)"
proof -
  let ?s = "returned_to f g (k r) r s"
  note d = task_invD [OF inv]
  have f: "fr_state s f = Some F_Run" "fr_void s f \<longleftrightarrow> r = None" using d(4) [OF r] by auto
  have fg: "f \<noteq> g" using f g by auto
  have gk: "callee_ok s g f" "fr_value s g = None"
    "\<And>r. (fr_void s f \<longleftrightarrow> r = None) \<Longrightarrow> typed (fr_void s g) (k r)"
    using d(1) [of g] g by (auto simp: frame_ok_def)
  have callee: "x \<noteq> f \<and> x \<noteq> g \<or> x = g" if "callee_ok s y x" "y \<noteq> g" for x y
    using that c by (auto simp: callee_ok_def)
  show ?thesis
  proof (rule task_invI)
    show "frame_ok ?s y" for y
    proof -
      consider "y = f" | "y = g" | "y \<noteq> f" "y \<noteq> g" by blast
      then show ?thesis
      proof cases
        case 1
        with fg show ?thesis by (simp add: frame_ok_def returned_to_def)
      next
        case 2
        with fg gk show ?thesis by (simp add: frame_ok_def returned_to_def)
      next
        case 3
        have nr: "fr_state s y \<noteq> Some F_Run" using run_unique [OF inv, of y] r 3 by auto
        show ?thesis
        proof (rule frame_ok_other [OF d(1) [of y]])
          fix x assume x: "callee_ok s y x"
          with callee [OF x 3(2)] fg show "callee_ok ?s y x \<and> fr_void ?s x = fr_void s x"
            by (auto simp: callee_ok_def returned_to_def)
        qed (use 3 nr in \<open>simp_all add: returned_to_def\<close>)
      qed
    qed
    show "fr_state ?s y \<noteq> None \<Longrightarrow> y < fresh ?s" for y
      using d(2) [of y] d(2) [of g] g by (auto simp: returned_to_def split: if_splits)
    show "fr_state ?s h \<noteq> None \<Longrightarrow> fr_caller ?s h = Some y \<Longrightarrow> awaits_on (fr_state ?s y) h" for h y
    proof -
      assume h: "fr_state ?s h \<noteq> None" "fr_caller ?s h = Some y"
      then have hf: "h \<noteq> f" "fr_state s h \<noteq> None" using fg g by (auto simp: returned_to_def split: if_splits)
      have "awaits_on (fr_state s y) h" using d(3) [of h y] h hf by (simp add: returned_to_def)
      moreover from this have "y \<noteq> f" "y \<noteq> g" using f g hf by auto
      ultimately show "awaits_on (fr_state ?s y) h" by (simp add: returned_to_def)
    qed
    show "running ?s = Some (y, q) \<Longrightarrow> fr_state ?s y = Some F_Run \<and> typed (fr_void ?s y) q" for y q
      using gk(3) f(2) by (auto simp: returned_to_def)
  qed
qed

lemma task_return_inv:
  assumes inv: "task_inv s" and r: "running s = Some (f, Ret r)"
  shows "\<exists>s'. task_return f r s = Next s' \<and> task_inv s'"
proof -
  note d = task_invD [OF inv]
  have f: "fr_state s f = Some F_Run" "fr_void s f \<longleftrightarrow> r = None" using d(4) [OF r] by auto
  have v: "fr_value s f = None" using d(1) [of f] f by (simp add: frame_ok_def)
  show ?thesis
  proof (cases "fr_caller s f")
    case None
    with task_return_top [OF None v] returned_top_inv [OF inv r None] show ?thesis by blast
  next
    case (Some g)
    with d(3) [of f g] f obtain k where g: "fr_state s g = Some (F_Await f k)" by (auto elim: awaits_onE)
    then have "f \<noteq> g" using f by auto
    with task_return_to [OF Some v g _ f(2)] returned_to_inv [OF inv r Some g] show ?thesis by blast
  qed
qed

lemma task_tick_inv:
  assumes inv: "task_inv s" and r: "running s = Some (f, p)"
  shows "\<exists>s'. task_tick f p s = Next s' \<and> task_inv s'"
proof (cases p)
  case (Ret v)
  with task_return_inv [OF inv, of f v] r show ?thesis by simp
next
  case (Susp k)
  with suspend_inv [OF inv, of f k] r show ?thesis by simp
next
  case (Await void q k)
  let ?h = "fresh s" and ?s = "snd (new_task void q s)"
  have f: "fr_state s f = Some F_Run" "typed (fr_void s f) (Await void q k)"
    using task_invD(4) [OF inv r] Await by auto
  then have fh: "f \<noteq> ?h" using fresh_unused(1) [OF inv] by auto
  have "task_inv ?s" using new_task_inv [OF inv, of void q] f by simp
  moreover have "running ?s = Some (f, p)" "fr_state ?s ?h = Some (F_Init q)" "fr_void ?s ?h = void"
    "fr_void ?s f = fr_void s f"
    using r fh by (simp_all add: new_task_def Let_def)
  moreover have "\<forall>r. (fr_void ?s ?h \<longleftrightarrow> r = None) \<longrightarrow> typed (fr_void ?s f) (k r)"
    using f(2) fh by (simp add: new_task_def Let_def)
  ultimately have "\<exists>s'. task_co_await f ?h k ?s = Next s' \<and> task_inv s'"
    using co_await_inv [of ?s f p ?h q k] by blast
  moreover have "task_tick f p s = task_co_await f ?h k ?s"
    using Await by (simp add: new_task_def Let_def)
  ultimately show ?thesis by simp
qed


lemma drop_inv:
  assumes inv: "task_inv s" and "running s = None" and f: "fr_state s f = Some F_Final"
  shows "task_inv (s\<lparr>fr_state := (fr_state s)(f := None), destroyed := destroyed s @ [f]\<rparr>)"
proof -
  let ?s = "s\<lparr>fr_state := (fr_state s)(f := None), destroyed := destroyed s @ [f]\<rparr>"
  note d = task_invD [OF inv]
  have nf: "\<not> callee_ok s g f" for g using f by (simp add: callee_ok_def)
  show ?thesis
  proof (rule task_invI)
    show "frame_ok ?s g" for g
    proof (cases "g = f")
      case False
      have nr: "fr_state s g \<noteq> Some F_Run" using run_unique [OF inv, of g] assms(2) by auto
      show ?thesis
      proof (rule frame_ok_other [OF d(1) [of g]])
        fix x assume x: "callee_ok s g x"
        then have "x \<noteq> f" using nf by blast
        with x show "callee_ok ?s g x \<and> fr_void ?s x = fr_void s x" by (simp add: callee_ok_def)
      qed (use False nr in simp_all)
    qed (simp add: frame_ok_def)
    show "fr_state ?s h \<noteq> None \<Longrightarrow> fr_caller ?s h = Some g \<Longrightarrow> awaits_on (fr_state ?s g) h" for h g
      using d(3) [of h g] f by (auto split: if_splits)
  qed (use d assms(2) in \<open>auto split: if_splits\<close>)
qed

text \<open>The compiler accepts a body only with the results its declared types have.\<close>

fun event_typed :: "task_event \<Rightarrow> bool" where
  "event_typed (Spawn void p) = typed void p"
| "event_typed (Start f) = True"
| "event_typed (Drop f) = True"
| "event_typed Tick = True"
| "event_typed (Wake f v) = True"

definition compiled_exec :: "task_event \<Rightarrow> task_sys \<Rightarrow> task_sys outcome" where
  "compiled_exec e s = (if event_typed e then task_exec e s else Blocked)"

lemma not_startedE: "not_started st \<Longrightarrow> (\<And>p. st = Some (F_Init p) \<Longrightarrow> P) \<Longrightarrow> P"
  by (cases st rule: not_started.cases) auto

lemma task_exec_inv:
  assumes inv: "task_inv s" and ty: "event_typed e"
  shows "task_exec e s = Blocked \<or> (\<exists>s'. task_exec e s = Next s' \<and> task_inv s')"
proof (cases e)
  case (Spawn void p)
  with new_task_inv [OF inv] ty show ?thesis by simp
next
  case (Start f)
  show ?thesis
  proof (cases "running s = None \<and> not_started (fr_state s f)")
    case True
    then obtain p where p: "fr_state s f = Some (F_Init p)" by (auto elim: not_startedE)
    with task_invD(1) [OF inv, of f] have "typed (fr_void s f) p" "fr_value s f = None"
      by (simp_all add: frame_ok_def)
    with run_frame_inv [OF inv] True p Start show ?thesis by (simp add: start_task_def)
  qed (use Start in auto)
next
  case (Drop f)
  with drop_inv [OF inv, of f] show ?thesis by (simp add: task_is_done_def destroy_frame_def)
next
  case Tick
  with task_tick_inv [OF inv] show ?thesis by (cases "running s") auto
next
  case (Wake f v)
  show ?thesis
  proof (cases "running s = None \<and> (\<exists>k. fr_state s f = Some (F_Susp k))")
    case True
    then obtain k where k: "fr_state s f = Some (F_Susp k)" by blast
    with task_invD(1) [OF inv, of f] have "typed (fr_void s f) (k v)" "fr_value s f = None"
      by (simp_all add: frame_ok_def)
    with run_frame_inv [OF inv] True k Wake show ?thesis by simp
  next
    case False
    with Wake show ?thesis by (auto split: option.splits frame_state.splits)
  qed
qed

interpretation tasks: safe_machine task_init compiled_exec task_inv
proof
  show "task_inv task_init" by (rule task_inv_init)
  show "task_inv s \<Longrightarrow> compiled_exec e s = Next s' \<Longrightarrow> task_inv s'" for e s s'
    using task_exec_inv [of s e] by (auto simp: compiled_exec_def split: if_splits)
  show "task_inv s \<Longrightarrow> compiled_exec e s \<noteq> Fault f" for e s f
    using task_exec_inv [of s e] by (auto simp: compiled_exec_def)
qed

section \<open>A task computes what its body says\<close>

text \<open>The values that the callbacks of a schedule deliver.\<close>

primrec inputs :: "task_event list \<Rightarrow> int list" where
  "inputs [] = []"
| "inputs (e # es) = (case e of Wake f v \<Rightarrow> v # inputs es | _ \<Rightarrow> inputs es)"

lemma inputs_append [simp]: "inputs (es @ fs) = inputs es @ inputs fs"
  by (induction es) (auto split: task_event.split)

text \<open>
  \<open>keeps s s' f\<close>: everything but the state of frame \<open>f\<close> and frames made meanwhile is as before,
  and the frames made meanwhile are gone.
\<close>

definition keeps :: "task_sys \<Rightarrow> task_sys \<Rightarrow> bool" where
  "keeps s s' \<longleftrightarrow> fresh s \<le> fresh s' \<and> (\<forall>x < fresh s. fr_state s' x = fr_state s x \<and>
     fr_caller s' x = fr_caller s x \<and> fr_value s' x = fr_value s x \<and> fr_void s' x = fr_void s x) \<and>
     (\<forall>x \<ge> fresh s. fr_state s' x = None) \<and>
     (\<exists>ds. destroyed s' = destroyed s @ ds \<and> distinct ds \<and> set ds = {fresh s..<fresh s'})"

lemma keeps_refl: "(\<And>x. fresh s \<le> x \<Longrightarrow> fr_state s x = None) \<Longrightarrow> keeps s s"
  by (simp add: keeps_def)

lemma keeps_trans:
  assumes "keeps s s1" "keeps s1 s2"
  shows "keeps s s2"
proof -
  from assms obtain ds es where d: "destroyed s1 = destroyed s @ ds" "distinct ds" "set ds = {fresh s..<fresh s1}"
    "destroyed s2 = destroyed s1 @ es" "distinct es" "set es = {fresh s1..<fresh s2}"
    unfolding keeps_def by blast
  have le: "fresh s \<le> fresh s1" "fresh s1 \<le> fresh s2" using assms by (auto simp: keeps_def)
  have "distinct (ds @ es) \<and> set (ds @ es) = {fresh s..<fresh s2}" using d le by auto
  then have "\<exists>fs. destroyed s2 = destroyed s @ fs \<and> distinct fs \<and> set fs = {fresh s..<fresh s2}"
    using d(1,4) by (intro exI [of _ "ds @ es"]) simp
  moreover have "fr_state s2 x = None" if "fresh s \<le> x" for x
    using assms that by (cases "x < fresh s1") (auto simp: keeps_def)
  ultimately show ?thesis using assms le unfolding keeps_def by auto
qed


text \<open>The frame \<open>f\<close> runs its body down to the \<open>co_return\<close>.\<close>

lemma body_runs:
  assumes "running s = Some (f, p)" "fr_state s f = Some F_Run" "f < fresh s"
    "\<And>x. fresh s \<le> x \<Longrightarrow> fr_state s x = None" "typed b p" "eval p ins = Some (r, rest)"
  shows "\<exists>es s'. run compiled_exec es s = Next s' \<and> inputs es @ rest = ins \<and>
    running s' = Some (f, Ret r) \<and> keeps s s'"
  using assms
proof (induction p arbitrary: s f b ins r rest)
  case (Ret v)
  then show ?case by (intro exI [of _ "[]"] exI [of _ s]) (simp add: keeps_refl)
next
  case (Susp k)
  from Susp.prems(6) obtain i ins' where i: "ins = i # ins'" "eval (k i) ins' = Some (r, rest)"
    by (cases ins) auto
  let ?s = "s\<lparr>running := Some (f, k i)\<rparr>"
  have st: "run compiled_exec [Tick, Wake f i] s = Next ?s"
    using Susp.prems(1,2) by (simp add: compiled_exec_def run_frame_def fun_upd_idem)
  have "\<exists>es s'. run compiled_exec es ?s = Next s' \<and> inputs es @ rest = ins' \<and>
      running s' = Some (f, Ret r) \<and> keeps ?s s'"
    by (rule Susp.IH [OF rangeI, where b = b]) (use Susp.prems i in auto)
  then obtain es s' where es: "run compiled_exec es ?s = Next s'" "inputs es @ rest = ins'"
    "running s' = Some (f, Ret r)" "keeps ?s s'" by blast
  have "run compiled_exec ([Tick, Wake f i] @ es) s = Next s'" using st es(1) by (simp only: run_append bind_outcome.simps)
  moreover have "inputs ([Tick, Wake f i] @ es) @ rest = ins" using es(2) i by simp
  moreover have "keeps s s'" using es(4) by (simp add: keeps_def)
  ultimately show ?case using es(3) by blast
next
  case (Await void q k)
  from Await.prems(6) obtain v ins' where v: "eval q ins = Some (v, ins')" "eval (k v) ins' = Some (r, rest)"
    by (auto split: option.splits)
  have ty: "typed void q" "void \<longleftrightarrow> v = None" "typed b (k v)"
    using Await.prems(5) eval_typed [OF v(1), of void] by auto
  let ?h = "fresh s"
  define s1 where "s1 = run_frame ?h q ((snd (new_task void q s))\<lparr>
     fr_caller := (fr_caller (snd (new_task void q s)))(?h := Some f),
     fr_state := (fr_state (snd (new_task void q s)))(f := Some (F_Await ?h k))\<rparr>)"
  have fh: "f \<noteq> ?h" using Await.prems(3) by simp
  have f1: "running s1 = Some (?h, q)" "fresh s1 = Suc ?h" "fr_caller s1 = (fr_caller s)(?h := Some f)"
    "fr_state s1 = (fr_state s)(f := Some (F_Await ?h k), ?h := Some F_Run)"
    "fr_value s1 = (fr_value s)(?h := None)" "fr_void s1 = (fr_void s)(?h := void)"
    "destroyed s1 = destroyed s"
    using fh by (auto simp: s1_def run_frame_def new_task_def Let_def fun_upd_twist)
  have st1: "run compiled_exec [Tick] s = Next s1"
    using Await.prems(1) fh by (simp add: compiled_exec_def task_co_await_def new_task_def s1_def Let_def)
  have "\<exists>es s'. run compiled_exec es s1 = Next s' \<and> inputs es @ ins' = ins \<and>
      running s' = Some (?h, Ret v) \<and> keeps s1 s'"
    by (rule Await.IH(1) [where b = void]) (use f1 Await.prems(3,4) ty(1) v(1) fh in auto)
  then obtain es s2 where es: "run compiled_exec es s1 = Next s2" "inputs es @ ins' = ins"
    "running s2 = Some (?h, Ret v)" "keeps s1 s2" by blast
  have old: "fr_state s2 x = fr_state s1 x" "fr_caller s2 x = fr_caller s1 x" "fr_value s2 x = fr_value s1 x"
    "fr_void s2 x = fr_void s1 x" if "x \<le> ?h" for x
    using es(4) that f1(2) by (auto simp: keeps_def)
  define s3 where "s3 = returned_to ?h f (k v) v s2"
  have "task_return ?h v s2 = Next s3"
    unfolding s3_def using old [of ?h] old [of f] f1 fh ty(2) Await.prems(3)
    by (intro task_return_to) auto
  then have st3: "run compiled_exec [Tick] s2 = Next s3" using es(3) by (simp add: compiled_exec_def)
  have le: "Suc ?h \<le> fresh s2" using es(4) f1(2) by (simp add: keeps_def)
  have k3: "keeps s s3"
  proof -
    from es(4) obtain ds where ds: "destroyed s2 = destroyed s @ ds" "distinct ds" "set ds = {Suc ?h..<fresh s2}"
      using f1 by (auto simp: keeps_def)
    have "distinct (ds @ [?h]) \<and> set (ds @ [?h]) = {?h..<fresh s2}" using ds le by auto
    then have "\<exists>es. destroyed s3 = destroyed s @ es \<and> distinct es \<and> set es = {?h..<fresh s3}"
      using ds(1) by (intro exI [of _ "ds @ [?h]"]) (simp add: s3_def returned_to_def)
    moreover have "fr_state s3 x = fr_state s x \<and> fr_caller s3 x = fr_caller s x \<and>
        fr_value s3 x = fr_value s x \<and> fr_void s3 x = fr_void s x" if "x < ?h" for x
      using old [of x] that f1 Await.prems(2) by (auto simp: s3_def returned_to_def)
    moreover have "fr_state s3 x = None" if "?h \<le> x" for x
      using es(4) f1(2) that Await.prems(3) by (cases "x = ?h") (auto simp: s3_def returned_to_def keeps_def)
    ultimately show ?thesis using le by (auto simp: keeps_def s3_def returned_to_def)
  qed
  have "\<exists>es s'. run compiled_exec es s3 = Next s' \<and> inputs es @ rest = ins' \<and>
      running s' = Some (f, Ret r) \<and> keeps s3 s'"
  proof (rule Await.IH(2) [OF rangeI, where b = b])
    show "f < fresh s3" using k3 Await.prems(3) by (simp add: keeps_def)
    show "fr_state s3 x = None" if "fresh s3 \<le> x" for x using k3 that by (auto simp: keeps_def)
  qed (use ty v fh in \<open>simp_all add: s3_def returned_to_def\<close>)
  then obtain fs s' where fs: "run compiled_exec fs s3 = Next s'" "inputs fs @ rest = ins'"
    "running s' = Some (f, Ret r)" "keeps s3 s'" by blast
  have "run compiled_exec ([Tick] @ es @ [Tick] @ fs) s = Next s'"
    using st1 es(1) st3 fs(1) by (simp only: run_append bind_outcome.simps)
  moreover have "inputs ([Tick] @ es @ [Tick] @ fs) @ rest = ins" using es(2) fs(2) by simp
  ultimately show ?case using fs(3) keeps_trans [OF k3 fs(4)] by blast
qed

section \<open>Properties\<close>


text \<open>
  Property C11 (a task computes what its body says). Starting a task and delivering the values its
  leaf awaiters wait for leads it to its final suspension point with the value that the direct
  evaluation of its body gives; every frame made for a \<open>co_await\<close> meanwhile is destroyed exactly
  once, and its own frame is still there.
\<close>
theorem task_computes:
  assumes "typed void p" and "eval p ins = Some (r, [])"
  shows "\<exists>es s. run compiled_exec (Spawn void p # Start 0 # es) task_init = Next s \<and> inputs es = ins \<and>
    task_is_done 0 s \<and> task_get 0 s = r \<and> {x. fr_state s x \<noteq> None} = {0} \<and>
    distinct (destroyed s) \<and> set (destroyed s) = {1..<fresh s}"
proof -
  define s0 where "s0 = run_frame 0 p (snd (new_task void p task_init))"
  have st: "run compiled_exec [Spawn void p, Start 0] task_init = Next s0"
    using assms(1)
    by (simp add: s0_def compiled_exec_def start_task_def new_task_def task_init_def run_frame_def Let_def)
  have s0: "running s0 = Some (0, p)" "fr_state s0 = (\<lambda>_. None)(0 := Some F_Run)" "fresh s0 = 1"
    "destroyed s0 = []" "fr_caller s0 0 = None" "fr_value s0 0 = None" "fr_void s0 0 = void"
    by (simp_all add: s0_def run_frame_def new_task_def task_init_def Let_def)
  have "\<exists>es s'. run compiled_exec es s0 = Next s' \<and> inputs es @ [] = ins \<and>
      running s' = Some (0, Ret r) \<and> keeps s0 s'"
    by (rule body_runs [OF s0(1) _ _ _ assms]) (use s0 in auto)
  then obtain es s1 where es: "run compiled_exec es s0 = Next s1" "inputs es = ins"
    "running s1 = Some (0, Ret r)" "keeps s0 s1" by auto
  have f: "fr_caller s1 0 = None" "fr_value s1 0 = None" using es(4) s0 by (auto simp: keeps_def)
  let ?s = "returned_top 0 r s1"
  have end': "run compiled_exec [Tick] s1 = Next ?s"
    using es(3) task_return_top [OF f] by (simp add: compiled_exec_def)
  have run: "run compiled_exec ([Spawn void p, Start 0] @ es @ [Tick]) task_init = Next ?s"
    using st es(1) end' by (simp only: run_append bind_outcome.simps)
  have none: "fr_state s1 x = None" if "x \<noteq> 0" for x using es(4) s0 that by (auto simp: keeps_def)
  have "distinct (destroyed s1) \<and> set (destroyed s1) = {1..<fresh s1}"
    using es(4) s0 by (auto simp: keeps_def)
  moreover have "{x. fr_state ?s x \<noteq> None} = {0}" using none by (auto simp: returned_top_def)
  ultimately show ?thesis using run es(2)
    by (intro exI [of _ "es @ [Tick]"] exI [of _ ?s])
      (simp add: returned_top_def task_is_done_def task_get_def)
qed

text \<open>The example of a task that awaits a task that waits for an I/O result and adds one.\<close>

definition add_one :: prog where
  "add_one = Susp (\<lambda>i. Ret (Some (i + 1)))"

definition twice :: prog where
  "twice = Await False add_one (\<lambda>a. Await False add_one (\<lambda>b. case (a, b) of
     (Some x, Some y) \<Rightarrow> Ret (Some (x + y)) | _ \<Rightarrow> Ret (Some 0)))"

theorem task_computes_witness:
  "\<exists>es s. run compiled_exec (Spawn False twice # Start 0 # es) task_init = Next s \<and>
     task_is_done 0 s \<and> task_get 0 s = Some 32"
proof -
  have "typed False twice" by (auto simp: twice_def add_one_def split: option.split)
  moreover have "eval twice [10, 20] = Some (Some 32, [])" by (simp add: twice_def add_one_def)
  ultimately show ?thesis using task_computes [of False twice "[10, 20]" "Some 32"] by blast
qed

end
