(* ===== verification/TaskObject.thy ===== *)
theory TaskObject
  imports CoTask
begin

text \<open>
  The objects of type \<open>task<T>\<close> and \<open>task<void>\<close> (\<^verbatim>\<open>include/task.hpp\<close>) and who destroys which frame.

  An object has one member, the handle \<open>_h\<close>; it is named by a number, and \<open>objs s v\<close> is \<open>None\<close> when
  there is no object \<open>v\<close>, else its \<open>_h\<close> (\<open>Some None\<close>: the null handle, left behind by a move).  Theory
  \<open>CoTask\<close> has the frames themselves.  \<open>callbacks\<close> are the frames whose address an I/O, a lock or a
  yield has registered, to resume it later, whether the frame is still there or not.
\<close>

section \<open>Objects\<close>

record task_objs =
  sys :: task_sys
  objs :: "nat \<Rightarrow> nat option option"
  callbacks :: "nat set"

definition objs_init :: task_objs where
  "objs_init = \<lparr>sys = task_init, objs = (\<lambda>_. None), callbacks = {}\<rparr>"

text \<open>A coroutine is called: \<open>get_return_object\<close> makes the object from the promise.\<close>

definition obj_new :: "nat \<Rightarrow> bool \<Rightarrow> prog \<Rightarrow> task_objs \<Rightarrow> task_objs" where
  "obj_new v void p s =
     (let (h, s1) = new_task void p (sys s) in s\<lparr>sys := s1, objs := (objs s)(v := Some (Some h))\<rparr>)"

text \<open>The move constructor makes \<open>w\<close> from \<open>v\<close> (the copy constructor is deleted).\<close>

definition obj_move :: "nat \<Rightarrow> nat \<Rightarrow> task_objs \<Rightarrow> task_objs" where
  "obj_move v w s = s\<lparr>objs := (objs s)(w := objs s v, v := Some None)\<rparr>"

definition obj_destroy :: "nat \<Rightarrow> task_objs \<Rightarrow> task_objs outcome" where
  "obj_destroy v s =
     (case objs s v of
        Some (Some f) \<Rightarrow> map_next (\<lambda>t. s\<lparr>sys := t, objs := (objs s)(v := None)\<rparr>) (destroy_frame f (sys s))
      | _ \<Rightarrow> Next (s\<lparr>objs := (objs s)(v := None)\<rparr>))"

definition obj_start :: "nat \<Rightarrow> task_objs \<Rightarrow> task_objs outcome" where
  "obj_start v s = (case objs s v of
      Some (Some f) \<Rightarrow> map_next (\<lambda>t. s\<lparr>sys := t\<rparr>) (start_task f (sys s))
    | _ \<Rightarrow> Fault NullDeref)"

definition obj_done :: "nat \<Rightarrow> task_objs \<Rightarrow> bool outcome" where
  "obj_done v s = (case objs s v of
      Some (Some f) \<Rightarrow> if fr_state (sys s) f = None then Fault UseAfterFree else Next (task_is_done f (sys s))
    | _ \<Rightarrow> Fault NullDeref)"

text \<open>
  \<open>co_await\<close> of an object in the coroutine \<open>f\<close>: \<open>std::exchange(_h, nullptr)\<close>, then \<open>await_suspend\<close>
  on the handle.
\<close>

definition obj_co_await :: "nat \<Rightarrow> nat \<Rightarrow> (int option \<Rightarrow> prog) \<Rightarrow> task_objs \<Rightarrow> task_objs outcome" where
  "obj_co_await f v k s = (case objs s v of
      Some (Some h) \<Rightarrow>
        map_next (\<lambda>t. s\<lparr>sys := t, objs := (objs s)(v := Some None)\<rparr>) (task_co_await f h k (sys s))
    | _ \<Rightarrow> Fault NullDeref)"

text \<open>The running coroutine goes on; a leaf awaiter registers its frame.\<close>

definition obj_tick :: "nat \<Rightarrow> prog \<Rightarrow> task_objs \<Rightarrow> task_objs outcome" where
  "obj_tick f p s =
     map_next (\<lambda>t. s\<lparr>sys := t, callbacks := (case p of Susp k \<Rightarrow> insert f (callbacks s) | _ \<Rightarrow> callbacks s)\<rparr>)
       (task_tick f p (sys s))"

definition obj_callback :: "nat \<Rightarrow> int \<Rightarrow> task_objs \<Rightarrow> task_objs outcome" where
  "obj_callback f i s = (case fr_state (sys s) f of
      None \<Rightarrow> Fault UseAfterFree
    | Some (F_Susp k) \<Rightarrow> Next (s\<lparr>sys := run_frame f (k i) (sys s), callbacks := callbacks s - {f}\<rparr>)
    | Some _ \<Rightarrow> Fault BadResume)"

text \<open>
  \<open>Obj_Await\<close> names the object that the running coroutine awaits and what it does with the
  result.  With \<open>contract\<close>, the client starts or awaits a task once, does not use the null handle,
  and destroys only objects that are empty, not started or done.
\<close>

datatype obj_event =
    Obj_New nat bool prog
  | Obj_Move nat nat
  | Obj_Destroy nat
  | Obj_Start nat
  | Obj_Await nat "int option \<Rightarrow> prog"
  | Obj_Tick
  | Obj_Callback nat int

definition obj_fresh :: "nat \<Rightarrow> task_objs \<Rightarrow> bool" where
  "obj_fresh v s \<longleftrightarrow> (\<exists>f. objs s v = Some (Some f) \<and> not_started (fr_state (sys s) f))"

definition obj_idle :: "nat \<Rightarrow> task_objs \<Rightarrow> bool" where
  "obj_idle v s \<longleftrightarrow> objs s v = Some None \<or> obj_fresh v s \<or>
     (\<exists>f. objs s v = Some (Some f) \<and> task_is_done f (sys s))"

definition await_typed :: "nat \<Rightarrow> nat \<Rightarrow> (int option \<Rightarrow> prog) \<Rightarrow> task_objs \<Rightarrow> bool" where
  "await_typed f v k s \<longleftrightarrow> (\<forall>h. objs s v = Some (Some h) \<longrightarrow>
     (\<forall>r. (fr_void (sys s) h \<longleftrightarrow> r = None) \<longrightarrow> typed (fr_void (sys s) f) (k r)))"

fun obj_exec :: "bool \<Rightarrow> obj_event \<Rightarrow> task_objs \<Rightarrow> task_objs outcome" where
  "obj_exec contract (Obj_New v void p) s =
     (if objs s v = None \<and> typed void p then Next (obj_new v void p s) else Blocked)"
| "obj_exec contract (Obj_Move v w) s =
     (if objs s v \<noteq> None \<and> objs s w = None then Next (obj_move v w s) else Blocked)"
| "obj_exec contract (Obj_Destroy v) s =
     (if objs s v = None \<or> contract \<and> \<not> obj_idle v s then Blocked else obj_destroy v s)"
| "obj_exec contract (Obj_Start v) s =
     (if objs s v = None \<or> running (sys s) \<noteq> None \<or> contract \<and> \<not> obj_fresh v s then Blocked else obj_start v s)"
| "obj_exec contract (Obj_Await v k) s =
     (case running (sys s) of None \<Rightarrow> Blocked | Some (f, p) \<Rightarrow>
       if objs s v = None \<or> \<not> await_typed f v k s \<or> contract \<and> \<not> obj_fresh v s then Blocked
       else obj_co_await f v k s)"
| "obj_exec contract Obj_Tick s =
     (case running (sys s) of None \<Rightarrow> Blocked | Some (f, p) \<Rightarrow> obj_tick f p s)"
| "obj_exec contract (Obj_Callback f i) s =
     (if running (sys s) = None \<and> f \<in> callbacks s then obj_callback f i s else Blocked)"

section \<open>Roots\<close>

text \<open>The frames that nobody awaits are the ones that an object has to own.\<close>

definition roots :: "task_sys \<Rightarrow> nat set" where
  "roots s = {f. fr_state s f \<noteq> None \<and> fr_caller s f = None}"

definition suspended :: "task_sys \<Rightarrow> nat set" where
  "suspended s = {f. \<exists>k. fr_state s f = Some (F_Susp k)}"

lemma new_task_sets:
  assumes "task_inv s"
  shows "roots (snd (new_task void p s)) = insert (fresh s) (roots s)"
    "suspended (snd (new_task void p s)) = suspended s"
  using fresh_unused(1) [OF assms] by (auto simp: roots_def suspended_def new_task_def Let_def)

lemma run_frame_sets:
  assumes "fr_state s f \<noteq> None"
  shows "roots (run_frame f p s) = roots s" "suspended (run_frame f p s) = suspended s - {f}"
  using assms by (auto simp: roots_def suspended_def run_frame_def split: if_splits)

lemma co_await_sets:
  assumes "running s = Some (f, p)" "task_inv s" "task_co_await f h k s = Next s'"
  shows "roots s' = roots s - {h} \<and> suspended s' = suspended s"
proof -
  from assms(3) obtain q where q: "fr_state s h = Some (F_Init q)"
    by (auto simp: task_co_await_def split: option.splits frame_state.splits)
  have f: "fr_state s f = Some F_Run" using task_invD(4) [OF assms(2,1)] by simp
  with q have "f \<noteq> h" by auto
  with assms(3) f q show ?thesis
    by (auto simp: task_co_await_def roots_def suspended_def run_frame_def split: if_splits)
qed

lemma tick_sets:
  assumes inv: "task_inv s" and r: "running s = Some (f, p)" and step: "task_tick f p s = Next s'"
  shows "roots s' = roots s \<and> suspended s' = (case p of Susp k \<Rightarrow> insert f (suspended s) | _ \<Rightarrow> suspended s)"
proof (cases p)
  case (Susp k)
  have "fr_state s f = Some F_Run" using task_invD(4) [OF inv r] by simp
  with Susp step show ?thesis by (auto simp: roots_def suspended_def split: if_splits)
next
  case (Ret v)
  have f: "fr_state s f = Some F_Run" "fr_void s f \<longleftrightarrow> v = None" using task_invD(4) [OF inv r] Ret by auto
  have n: "fr_value s f = None" using task_invD(1) [OF inv, of f] f by (simp add: frame_ok_def)
  show ?thesis
  proof (cases "fr_caller s f")
    case None
    with task_return_top [OF None n, of v] step Ret f show ?thesis
      by (auto simp: returned_top_def roots_def suspended_def split: if_splits)
  next
    case (Some g)
    with task_invD(3) [OF inv, of f g] f obtain k where g: "fr_state s g = Some (F_Await f k)"
      by (auto elim: awaits_onE)
    then have "f \<noteq> g" using f by auto
    with task_return_to [OF Some n g _ f(2)] step Ret f g Some show ?thesis
      by (auto simp: returned_to_def roots_def suspended_def split: if_splits)
  qed
next
  case (Await void q k)
  let ?s = "snd (new_task void q s)"
  have f: "fr_state s f = Some F_Run" "typed void q" using task_invD(4) [OF inv r] Await by auto
  have "task_co_await f (fresh s) k ?s = Next s'" using step Await by (simp add: new_task_def Let_def)
  moreover have "running ?s = Some (f, p)" using r by (simp add: new_task_def Let_def)
  ultimately have "roots s' = roots ?s - {fresh s} \<and> suspended s' = suspended ?s"
    using co_await_sets new_task_inv [OF inv f(2)] by blast
  moreover have "fresh s \<notin> roots s" using fresh_unused(1) [OF inv] by (simp add: roots_def)
  ultimately show ?thesis using new_task_sets [OF inv] Await by simp
qed

lemma destroy_root_inv:
  assumes inv: "task_inv s" and "fr_caller s f = None" "not_started (fr_state s f) \<or> fr_state s f = Some F_Final"
  shows "\<exists>s'. destroy_frame f s = Next s' \<and> task_inv s' \<and> roots s' = roots s - {f} \<and> suspended s' = suspended s \<and>
    fr_state s' = (fr_state s)(f := None) \<and> fr_caller s' = fr_caller s"
proof -
  let ?s = "s\<lparr>fr_state := (fr_state s)(f := None), destroyed := destroyed s @ [f]\<rparr>"
  note d = task_invD [OF inv]
  have st: "fr_state s f \<noteq> None" "fr_state s f \<noteq> Some F_Run" "\<not> awaits_on (fr_state s f) x" "f \<notin> suspended s" for x
    using assms(3) by (auto elim!: not_startedE simp: suspended_def)
  have nf: "\<not> callee_ok s g f" for g using assms(2) by (simp add: callee_ok_def)
  have "task_inv ?s"
  proof (rule task_invI)
    show "frame_ok ?s g" for g
    proof (cases "g = f")
      case False
      show ?thesis
      proof (rule frame_ok_other [OF d(1) [of g]])
        fix x assume x: "callee_ok s g x"
        then have "x \<noteq> f" using nf by blast
        with x show "callee_ok ?s g x \<and> fr_void ?s x = fr_void s x" by (simp add: callee_ok_def)
      qed (use False run_unique [OF inv, of g] in simp_all)
    qed (simp add: frame_ok_def)
    show "fr_state ?s h \<noteq> None \<Longrightarrow> fr_caller ?s h = Some g \<Longrightarrow> awaits_on (fr_state ?s g) h" for h g
      using d(3) [of h g] st(3) [of h] by (auto split: if_splits)
  qed (use d st in \<open>auto split: if_splits\<close>)
  then show ?thesis using st(1,4) by (auto simp: destroy_frame_def roots_def suspended_def)
qed

section \<open>Chains of awaiting frames\<close>

text \<open>Following \<open>_caller\<close> from a frame ends at a root.\<close>

inductive rooted :: "task_sys \<Rightarrow> nat \<Rightarrow> bool" for s where
  root: "fr_state s f \<noteq> None \<Longrightarrow> fr_caller s f = None \<Longrightarrow> rooted s f"
| awaited: "fr_state s f \<noteq> None \<Longrightarrow> fr_caller s f = Some g \<Longrightarrow> rooted s g \<Longrightarrow> rooted s f"

lemma rooted_root: "rooted s f \<Longrightarrow> \<exists>g \<in> roots s. (\<lambda>x y. fr_caller s x = Some y)\<^sup>*\<^sup>* f g"
proof (induction rule: rooted.induct)
  case (awaited f g)
  then show ?case by (meson converse_rtranclp_into_rtranclp)
qed (auto simp: roots_def)

definition all_rooted :: "task_sys \<Rightarrow> bool" where
  "all_rooted s \<longleftrightarrow> (\<forall>f. fr_state s f \<noteq> None \<longrightarrow> rooted s f)"

text \<open>A step that changes the place of one frame, which awaits nothing, keeps the chains.\<close>

lemma rooted_other:
  assumes "\<And>f. f \<noteq> h \<Longrightarrow> fr_state s f \<noteq> None \<Longrightarrow> fr_state s' f \<noteq> None \<and> fr_caller s' f = fr_caller s f"
    and "\<And>f. fr_state s f \<noteq> None \<Longrightarrow> fr_caller s f \<noteq> Some h"
  shows "rooted s f \<Longrightarrow> f \<noteq> h \<Longrightarrow> rooted s' f"
proof (induction rule: rooted.induct)
  case (root f)
  with assms(1) [of f] show ?case by (auto intro: rooted.root)
next
  case (awaited f g)
  with assms(2) [of f] have "g \<noteq> h" by auto
  with awaited assms(1) [of f] show ?case by (auto intro: rooted.awaited)
qed

lemma all_rooted_other:
  assumes inv: "task_inv s" and all: "all_rooted s" and nh: "\<And>x. \<not> awaits_on (fr_state s h) x"
    and other: "\<And>f. f \<noteq> h \<Longrightarrow> fr_state s' f \<noteq> None \<longleftrightarrow> fr_state s f \<noteq> None"
      "\<And>f. f \<noteq> h \<Longrightarrow> fr_state s f \<noteq> None \<Longrightarrow> fr_caller s' f = fr_caller s f"
    and h: "fr_state s' h = None \<or> fr_caller s' h = None \<or> (\<exists>g. fr_caller s' h = Some g \<and> g \<noteq> h \<and> fr_state s g \<noteq> None)"
  shows "all_rooted s'"
proof -
  have others: "rooted s' f" if "f \<noteq> h" "fr_state s f \<noteq> None" for f
  proof (rule rooted_other)
    show "rooted s f" using all that by (simp add: all_rooted_def)
    show "fr_caller s x \<noteq> Some h" if "fr_state s x \<noteq> None" for x
      using task_invD(3) [OF inv that] nh by blast
  qed (use that other in auto)
  have "rooted s' h" if "fr_state s' h \<noteq> None"
    using h others that by (auto intro: rooted.intros)
  with others other(1) show ?thesis unfolding all_rooted_def by metis
qed

text \<open>No frame comes or goes and no \<open>_caller\<close> changes.\<close>

lemma all_rooted_same:
  assumes "all_rooted s" "\<And>f. fr_state s' f \<noteq> None \<longleftrightarrow> fr_state s f \<noteq> None" "fr_caller s' = fr_caller s"
  shows "all_rooted s'"
proof -
  have "rooted s' f" if "rooted s f" for f
    using that by induction (use assms in \<open>auto intro: rooted.intros\<close>)
  with assms show ?thesis by (simp add: all_rooted_def)
qed

lemma new_task_rooted:
  assumes "task_inv s" "all_rooted s"
  shows "all_rooted (snd (new_task void p s))"
  by (rule all_rooted_other [OF assms, where h = "fresh s"])
    (use fresh_unused(1) [OF assms(1)] in \<open>auto simp: new_task_def Let_def\<close>)

lemma run_frame_rooted: "all_rooted s \<Longrightarrow> fr_state s f \<noteq> None \<Longrightarrow> all_rooted (run_frame f p s)"
  by (rule all_rooted_same) (auto simp: run_frame_def split: if_splits)

lemma co_await_rooted:
  assumes "running s = Some (f, p)" "task_inv s" "all_rooted s" "task_co_await f h k s = Next s'"
  shows "all_rooted s'"
proof -
  from assms(4) obtain q where q: "fr_state s h = Some (F_Init q)"
    by (auto simp: task_co_await_def split: option.splits frame_state.splits)
  have f: "fr_state s f = Some F_Run" using task_invD(4) [OF assms(2,1)] by simp
  with q have "f \<noteq> h" by auto
  with assms(4) f q show ?thesis
    by (intro all_rooted_other [OF assms(2,3), where h = h]) (auto simp: task_co_await_def run_frame_def split: if_splits)
qed

lemma tick_rooted:
  assumes inv: "task_inv s" and all: "all_rooted s" and r: "running s = Some (f, p)" and step: "task_tick f p s = Next s'"
  shows "all_rooted s'"
proof (cases p)
  case (Susp k)
  have "fr_state s f = Some F_Run" using task_invD(4) [OF inv r] by simp
  with Susp step show ?thesis by (intro all_rooted_same [OF all]) (auto split: if_splits)
next
  case (Ret v)
  have f: "fr_state s f = Some F_Run" "fr_void s f \<longleftrightarrow> v = None" using task_invD(4) [OF inv r] Ret by auto
  have n: "fr_value s f = None" using task_invD(1) [OF inv, of f] f by (simp add: frame_ok_def)
  show ?thesis
  proof (cases "fr_caller s f")
    case None
    with task_return_top [OF None n, of v] step Ret f show ?thesis
      by (intro all_rooted_same [OF all]) (auto simp: returned_top_def split: if_splits)
  next
    case (Some g)
    with task_invD(3) [OF inv, of f g] f obtain k where g: "fr_state s g = Some (F_Await f k)"
      by (auto elim: awaits_onE)
    then have "f \<noteq> g" using f by auto
    with task_return_to [OF Some n g _ f(2)] step Ret f g show ?thesis
      by (intro all_rooted_other [OF inv all, where h = f]) (auto simp: returned_to_def split: if_splits)
  qed
next
  case (Await void q k)
  let ?s = "snd (new_task void q s)"
  have ty: "typed void q" using task_invD(4) [OF inv r] Await by auto
  have "task_co_await f (fresh s) k ?s = Next s'" "running ?s = Some (f, p)"
    using step Await r by (simp_all add: new_task_def Let_def)
  then show ?thesis using co_await_rooted new_task_inv [OF inv ty] new_task_rooted [OF inv all] by blast
qed

section \<open>The invariant\<close>

definition owning :: "(nat \<Rightarrow> nat option option) \<Rightarrow> nat set \<Rightarrow> bool" where
  "owning ob R \<longleftrightarrow> (\<forall>v f. ob v = Some (Some f) \<longrightarrow> f \<in> R) \<and> (\<forall>f \<in> R. \<exists>v. ob v = Some (Some f)) \<and>
     (\<forall>v w f. ob v = Some (Some f) \<longrightarrow> ob w = Some (Some f) \<longrightarrow> v = w)"

lemma owning_new:
  assumes "owning ob R" "ob v = None" "f \<notin> R"
  shows "owning (ob(v := Some (Some f))) (insert f R)"
proof -
  have "\<exists>w. (ob(v := Some (Some f))) w = Some (Some g)" if "g \<in> insert f R" for g
  proof (cases "g = f")
    case False
    with that assms(1) obtain w where "ob w = Some (Some g)" by (auto simp: owning_def)
    with assms(2) show ?thesis by (intro exI [of _ w]) auto
  qed auto
  with assms show ?thesis by (auto simp: owning_def split: if_splits)
qed

lemma owning_taken:
  assumes "owning ob R" "ob v = Some (Some f)" "h = None \<or> h = Some None"
  shows "owning (ob(v := h)) (R - {f})"
proof -
  have "\<exists>w. (ob(v := h)) w = Some (Some g)" if "g \<in> R" "g \<noteq> f" for g
  proof -
    from that assms(1) obtain w where "ob w = Some (Some g)" by (auto simp: owning_def)
    with assms(2) that show ?thesis by (intro exI [of _ w]) auto
  qed
  with assms show ?thesis by (auto simp: owning_def split: if_splits)
qed

lemma owning_empty: "owning ob R \<Longrightarrow> \<nexists>f. ob v = Some (Some f) \<Longrightarrow> owning (ob(v := None)) R"
  by (auto simp: owning_def) metis

lemma owning_move:
  assumes "owning ob R" "ob w = None"
  shows "owning (ob(w := ob v, v := Some None)) R"
proof -
  let ?ob = "ob(w := ob v, v := Some None)"
  have "\<exists>x. ?ob x = Some (Some g)" if g: "g \<in> R" for g
  proof -
    from g assms(1) obtain x where x: "ob x = Some (Some g)" by (auto simp: owning_def)
    show ?thesis
    proof (cases "x = v")
      case True
      with x assms(2) have "?ob w = Some (Some g)" by auto
      then show ?thesis ..
    next
      case False
      with x assms(2) have "?ob x = Some (Some g)" by auto
      then show ?thesis ..
    qed
  qed
  with assms show ?thesis by (auto simp: owning_def split: if_splits)
qed

definition obj_inv :: "task_objs \<Rightarrow> bool" where
  "obj_inv s \<longleftrightarrow> task_inv (sys s) \<and> callbacks s = suspended (sys s) \<and> owning (objs s) (roots (sys s)) \<and>
     all_rooted (sys s)"

lemma obj_invD:
  assumes "obj_inv s"
  shows "task_inv (sys s)" "callbacks s = suspended (sys s)" "owning (objs s) (roots (sys s))"
    "objs s v = Some (Some f) \<Longrightarrow> f \<in> roots (sys s)" "all_rooted (sys s)"
  using assms by (auto simp: obj_inv_def owning_def)

text \<open>The steps that leave the objects alone, and those that take the frame of \<open>v\<close> from it.\<close>

lemma obj_inv_same:
  assumes "obj_inv s" "task_inv t" "roots t = roots (sys s)" "cb = suspended t" "all_rooted t"
  shows "obj_inv (s\<lparr>sys := t, callbacks := cb\<rparr>)"
  using assms by (simp add: obj_inv_def)

lemma obj_inv_taken:
  assumes "obj_inv s" "objs s v = Some (Some f)" "task_inv t" "roots t = roots (sys s) - {f}"
    "suspended t = suspended (sys s)" "all_rooted t" "h = None \<or> h = Some None"
  shows "obj_inv (s\<lparr>sys := t, objs := (objs s)(v := h)\<rparr>)"
  using assms owning_taken [of "objs s" "roots (sys s)" v f h] by (simp add: obj_inv_def)

lemma obj_new_inv:
  assumes inv: "obj_inv s" and "objs s v = None" "typed void p"
  shows "obj_inv (obj_new v void p s)"
proof -
  note d = obj_invD [OF inv]
  have "fresh (sys s) \<notin> roots (sys s)" using fresh_unused(1) [OF d(1)] by (simp add: roots_def)
  moreover have "obj_new v void p s = s\<lparr>sys := snd (new_task void p (sys s)),
      objs := (objs s)(v := Some (Some (fresh (sys s))))\<rparr>"
    by (simp add: obj_new_def new_task_def Let_def)
  ultimately show ?thesis
    using d(2) new_task_inv [OF d(1) assms(3)] new_task_sets [OF d(1), of void p] owning_new [OF d(3) assms(2)]
      new_task_rooted [OF d(1,5), of void p]
    by (simp add: obj_inv_def)
qed

lemma obj_move_inv: "obj_inv s \<Longrightarrow> objs s w = None \<Longrightarrow> obj_inv (obj_move v w s)"
  by (simp add: obj_inv_def obj_move_def owning_move)

lemma obj_step:
  assumes inv: "obj_inv s"
  shows "obj_exec True e s = Blocked \<or> (\<exists>s'. obj_exec True e s = Next s' \<and> obj_inv s')"
proof (cases e)
  case (Obj_New v void p)
  with obj_new_inv [OF inv] show ?thesis by simp
next
  case (Obj_Move v w)
  with obj_move_inv [OF inv] show ?thesis by simp
next
  case (Obj_Destroy v)
  show ?thesis
  proof (cases "\<exists>f. objs s v = Some (Some f)")
    case True
    then obtain f where f: "objs s v = Some (Some f)" ..
    then have r: "f \<in> roots (sys s)" by (rule obj_invD(4) [OF inv])
    show ?thesis
    proof (cases "obj_idle v s")
      case idle: True
      then have st: "not_started (fr_state (sys s) f) \<or> fr_state (sys s) f = Some F_Final"
        using f by (auto simp: obj_idle_def obj_fresh_def task_is_done_def)
      have "fr_caller (sys s) f = None" using r by (simp add: roots_def)
      from destroy_root_inv [OF obj_invD(1) [OF inv] this st] obtain t where
        t: "destroy_frame f (sys s) = Next t" "task_inv t" "roots t = roots (sys s) - {f}"
          "suspended t = suspended (sys s)" "fr_state t = (fr_state (sys s))(f := None)" "fr_caller t = fr_caller (sys s)" by blast
      have "\<not> awaits_on (fr_state (sys s) f) x" for x using st by (auto elim!: not_startedE)
      then have "all_rooted t"
        using t(5,6) by (intro all_rooted_other [OF obj_invD(1,5) [OF inv], where h = f]) auto
      then have "obj_inv (s\<lparr>sys := t, objs := (objs s)(v := None)\<rparr>)"
        by (intro obj_inv_taken [OF inv f t(2-4)]) simp_all
      with t(1) Obj_Destroy f idle show ?thesis by (simp add: obj_destroy_def)
    qed (use Obj_Destroy in simp)
  next
    case False
    then have "obj_inv (s\<lparr>objs := (objs s)(v := None)\<rparr>)"
      using inv by (simp add: obj_inv_def owning_empty)
    with False Obj_Destroy show ?thesis
      by (auto simp: obj_destroy_def split: option.splits)
  qed
next
  case (Obj_Start v)
  show ?thesis
  proof (cases "running (sys s) = None \<and> obj_fresh v s")
    case True
    then obtain f p where f: "objs s v = Some (Some f)" "fr_state (sys s) f = Some (F_Init p)"
      by (auto simp: obj_fresh_def elim: not_startedE)
    have "typed (fr_void (sys s) f) p" "fr_value (sys s) f = None"
      using task_invD(1) [OF obj_invD(1) [OF inv], of f] f(2) by (simp_all add: frame_ok_def)
    then have "task_inv (run_frame f p (sys s))"
      using run_frame_inv [OF obj_invD(1) [OF inv]] True f(2) by blast
    moreover have "f \<notin> suspended (sys s)" using f(2) by (simp add: suspended_def)
    ultimately have "obj_inv (s\<lparr>sys := run_frame f p (sys s), callbacks := callbacks s\<rparr>)"
      using f(2) obj_invD(2) [OF inv] run_frame_sets [of "sys s" f p] run_frame_rooted [OF obj_invD(5) [OF inv], of f p]
      by (intro obj_inv_same [OF inv]) auto
    with f Obj_Start show ?thesis by (simp add: obj_start_def start_task_def)
  qed (use Obj_Start in auto)
next
  case (Obj_Await v k)
  show ?thesis
  proof (cases "obj_exec True e s = Blocked")
    case False
    with Obj_Await obtain f p where f: "running (sys s) = Some (f, p)" "await_typed f v k s" "obj_fresh v s"
      by (auto split: option.splits if_splits)
    then obtain h q where h: "objs s v = Some (Some h)" "fr_state (sys s) h = Some (F_Init q)"
      by (auto simp: obj_fresh_def elim: not_startedE)
    with f(2) co_await_inv [OF obj_invD(1) [OF inv] f(1) h(2), of k] obtain t where
      t: "task_co_await f h k (sys s) = Next t" "task_inv t" by (auto simp: await_typed_def)
    from co_await_sets [OF f(1) obj_invD(1) [OF inv] t(1)] co_await_rooted [OF f(1) obj_invD(1,5) [OF inv] t(1)]
    have "obj_inv (s\<lparr>sys := t, objs := (objs s)(v := Some None)\<rparr>)"
      by (intro obj_inv_taken [OF inv h(1) t(2)]) simp_all
    with t(1) f h Obj_Await show ?thesis by (simp add: obj_co_await_def)
  qed simp
next
  case Obj_Tick
  show ?thesis
  proof (cases "running (sys s)")
    case (Some r)
    then obtain f p where r: "running (sys s) = Some (f, p)" by (cases r) auto
    from task_tick_inv [OF obj_invD(1) [OF inv] r] obtain t where
      t: "task_tick f p (sys s) = Next t" "task_inv t" by blast
    have "obj_inv (s\<lparr>sys := t, callbacks := (case p of Susp k \<Rightarrow> insert f (callbacks s) | _ \<Rightarrow> callbacks s)\<rparr>)"
      using tick_sets [OF obj_invD(1) [OF inv] r t(1)] tick_rooted [OF obj_invD(1,5) [OF inv] r t(1)] obj_invD(2) [OF inv]
      by (intro obj_inv_same [OF inv t(2)]) (simp_all split: prog.splits)
    with t(1) r Obj_Tick show ?thesis by (simp add: obj_tick_def)
  qed (use Obj_Tick in simp)
next
  case (Obj_Callback f i)
  show ?thesis
  proof (cases "running (sys s) = None \<and> f \<in> callbacks s")
    case True
    then obtain k where k: "fr_state (sys s) f = Some (F_Susp k)"
      using obj_invD(2) [OF inv] by (auto simp: suspended_def)
    have "typed (fr_void (sys s) f) (k i)" "fr_value (sys s) f = None"
      using task_invD(1) [OF obj_invD(1) [OF inv], of f] k by (simp_all add: frame_ok_def)
    then have "task_inv (run_frame f (k i) (sys s))"
      using run_frame_inv [OF obj_invD(1) [OF inv]] True k by blast
    then have "obj_inv (s\<lparr>sys := run_frame f (k i) (sys s), callbacks := callbacks s - {f}\<rparr>)"
      using k obj_invD(2) [OF inv] run_frame_sets [of "sys s" f "k i"]
        run_frame_rooted [OF obj_invD(5) [OF inv], of f "k i"] by (intro obj_inv_same [OF inv]) auto
    with True k Obj_Callback show ?thesis by (simp add: obj_callback_def)
  qed (use Obj_Callback in auto)
qed

interpretation task_objects: safe_machine objs_init "obj_exec True" obj_inv
proof
  show "obj_inv objs_init"
    using task_inv_init by (simp add: obj_inv_def objs_init_def roots_def owning_def suspended_def task_init_def all_rooted_def)
  show "obj_inv s \<Longrightarrow> obj_exec True e s = Next s' \<Longrightarrow> obj_inv s'" for e s s'
    using obj_step [of s e] by auto
  show "obj_inv s \<Longrightarrow> obj_exec True e s \<noteq> Fault f" for e s f
    using obj_step [of s e] by auto
qed

section \<open>How the scheduler keeps an unfinished wrapper\<close>

text \<open>
  The end of \<open>service_thread_run\<close> (\<^verbatim>\<open>src/schedule.cpp\<close>): the local \<open>t\<close> is moved to a new element \<open>w\<close>
  of \<open>wrapper_tasks\<close> unless it is done, and destroyed.
\<close>

definition keep_unless_done :: "nat \<Rightarrow> nat \<Rightarrow> task_objs \<Rightarrow> task_objs outcome" where
  "keep_unless_done t w s = bind_outcome (obj_done t s) (\<lambda>d.
     obj_destroy t (if d then s else obj_move t w s))"

section \<open>Properties\<close>


text \<open>An object is moved, and the frame awaited from the new one.\<close>

definition objs_demo :: task_objs where
  "objs_demo = \<lparr>sys = \<lparr>fr_state = (\<lambda>_. None)(0 := Some (F_Await 1 (\<lambda>r. Ret r)), 1 := Some F_Run),
       fr_caller = (\<lambda>_. None)(1 := Some 0), fr_value = (\<lambda>_. None), fr_void = (\<lambda>_. False),
       running = Some (1, Ret (Some 7)), fresh = 2, destroyed = []\<rparr>,
     objs = (\<lambda>_. None)(0 := Some (Some 0), 1 := Some None, 2 := Some None), callbacks = {}\<rparr>"

lemma objs_demo_reach: "reach (obj_exec True) objs_init objs_demo"
proof (rule run_reach [OF reach_init])
  show "run (obj_exec True) [Obj_New 0 False (Ret (Some 0)), Obj_New 1 False (Ret (Some 7)), Obj_Move 1 2, Obj_Start 0,
      Obj_Await 2 (\<lambda>r. Ret r)] objs_init = Next objs_demo"
    by (simp add: objs_init_def objs_demo_def obj_new_def obj_move_def obj_start_def obj_co_await_def obj_fresh_def
        await_typed_def task_defs task_init_def fun_upd_def fun_eq_iff)
qed


text \<open>
  Also shown (the scheduler keeps an unfinished wrapper). After \<open>t.start()\<close> has returned,
  \<open>service_thread_run\<close> keeps to the contract: a wrapper that is done is destroyed, another is moved
  to the list with its frame alive; \<open>t\<close> is gone in both cases.
\<close>
theorem service_thread_run_keeps:
  assumes "reach (obj_exec True) objs_init s" and "objs s t = Some (Some f)" and "objs s w = None"
  shows "\<exists>s'. keep_unless_done t w s = Next s' \<and> reach (obj_exec True) objs_init s' \<and> objs s' t = None \<and>
    (if task_is_done f (sys s) then fr_state (sys s') f = None
     else objs s' w = Some (Some f) \<and> sys s' = sys s)"
proof -
  have alive: "fr_state (sys s) f \<noteq> None"
    using obj_invD(4) [OF task_objects.reach_inv [OF assms(1)] assms(2)] by (simp add: roots_def)
  show ?thesis
  proof (cases "task_is_done f (sys s)")
    case True
    then have e: "obj_exec True (Obj_Destroy t) s = obj_destroy t s"
      using assms(2) by (simp add: obj_idle_def)
    obtain s' where s': "obj_destroy t s = Next s'" "objs s' t = None" "fr_state (sys s') f = None"
      using assms(2) alive by (simp add: obj_destroy_def destroy_frame_def)
    have "reach (obj_exec True) objs_init s'" using reach_step [OF assms(1)] e s'(1) by metis
    moreover have "keep_unless_done t w s = obj_destroy t s"
      using True assms(2) alive by (simp add: keep_unless_done_def obj_done_def del: not_None_eq)
    ultimately show ?thesis using s' True by auto
  next
    case False
    let ?s1 = "obj_move t w s" and ?s2 = "s\<lparr>objs := (objs s)(w := Some (Some f), t := None)\<rparr>"
    have tw: "t \<noteq> w" using assms(2,3) by auto
    have "obj_exec True (Obj_Move t w) s = Next ?s1" using assms(2,3) by simp
    moreover have "obj_exec True (Obj_Destroy t) ?s1 = Next ?s2" "obj_destroy t ?s1 = Next ?s2"
      using assms(2) tw by (simp_all add: obj_move_def obj_destroy_def obj_idle_def)
    ultimately have "reach (obj_exec True) objs_init ?s2" by (meson assms(1) reach_step)
    moreover have "keep_unless_done t w s = Next ?s2"
      using False assms(2) alive \<open>obj_destroy t ?s1 = Next ?s2\<close>
      by (simp add: keep_unless_done_def obj_done_def del: not_None_eq)
    ultimately show ?thesis using False tw by simp
  qed
qed

text \<open>The wrapper of a task that waits for an I/O.\<close>

theorem service_thread_run_keeps_witness:
  "\<exists>s s'. run (obj_exec True) [Obj_New 0 True (Susp (\<lambda>_. Ret None)), Obj_Start 0, Obj_Tick] objs_init = Next s \<and>
     keep_unless_done 0 1 s = Next s' \<and> objs s' 1 = Some (Some 0)"
proof -
  obtain s where s: "run (obj_exec True) [Obj_New 0 True (Susp (\<lambda>_. Ret None)), Obj_Start 0, Obj_Tick] objs_init = Next s"
    "objs s 0 = Some (Some 0)" "objs s 1 = None" "\<not> task_is_done 0 (sys s)"
    by (simp add: objs_init_def obj_new_def obj_start_def obj_tick_def obj_fresh_def task_defs task_init_def)
  from service_thread_run_keeps [OF run_reach [OF reach_init s(1)] s(2,3)] s(4)
  obtain s' where "keep_unless_done 0 1 s = Next s'" "objs s' 1 = Some (Some 0)" by auto
  with s(1) show ?thesis by blast
qed


end
