(* ===== verification/Service.thy ===== *)
theory Service
  imports Prelude
begin

text \<open>
  The block-device service of \<^verbatim>\<open>src/service.cpp\<close> and \<^verbatim>\<open>include/service.hpp\<close>:
  \<open>co_await read(...)\<close> and \<open>co_await write(...)\<close>, the completion callback, and the retry of a
  request that the device could not take for lack of memory.

  SPDK is outside the repository.  What its functions return is part of the event: the result code
  of \<open>spdk_bdev_read\<close> or \<open>spdk_bdev_write\<close>, and whether a request in flight completed with
  success.  As its documentation says, a callback runs on the reactor of the submitting thread
  after the call returned, so a whole \<open>co_await\<close> is one event, and a queued wait entry is called
  back once.  Awaiters (their member \<open>res\<close>) are numbered in the order of the calls; \<open>asked\<close>
  records the call each one was made by and \<open>co_waits\<close> the awaiter a coroutine is suspended in.
\<close>

section \<open>State\<close>

datatype io_op = IoRead | IoWrite

record io_args =
  io_buf :: nat
  io_len :: int
  io_offset :: nat

record io_request = io_args +
  rq_op :: io_op
  rq_res :: nat            \<comment> \<open>the \<open>cb_arg\<close>, \<open>&awaiter.res\<close>\<close>

record retry_context = io_args +
  ctx_res :: nat

record service =
  res_value :: "nat \<Rightarrow> int option"      \<comment> \<open>\<open>res.res\<close>, \<open>None\<close> while indeterminate\<close>
  res_coro :: "nat \<Rightarrow> nat option"        \<comment> \<open>\<open>res.coro\<close>\<close>
  aw_ready :: "nat \<Rightarrow> bool"              \<comment> \<open>\<open>ready\<close>\<close>
  retry_contexts :: "nat \<Rightarrow> retry_context"
  wait_cb :: "nat \<Rightarrow> io_op"              \<comment> \<open>\<open>wait_entries[core].cb_fn\<close>\<close>
  io_wait :: "nat list"                  \<comment> \<open>cores whose entry is queued\<close>
  in_flight :: "io_request list"
  next_aw :: nat
  co_waits :: "nat \<Rightarrow> nat option"
  resumed :: "(nat \<times> int) list"          \<comment> \<open>coroutines and the values their \<open>co_await\<close> gave\<close>
  asked :: "nat \<Rightarrow> io_op \<times> io_args"

definition ENOMEM :: int where "ENOMEM = 12"

definition no_args :: io_args where "no_args = \<lparr>io_buf = 0, io_len = 0, io_offset = 0\<rparr>"

definition service_init :: service where
  "service_init = \<lparr>res_value = (\<lambda>_. None), res_coro = (\<lambda>_. None), aw_ready = (\<lambda>_. False),
     retry_contexts = (\<lambda>_. io_args.extend no_args \<lparr>ctx_res = 0\<rparr>), wait_cb = (\<lambda>_. IoRead),
     io_wait = [], in_flight = [], next_aw = 0, co_waits = (\<lambda>_. None), resumed = [],
     asked = (\<lambda>_. (IoRead, no_args))\<rparr>"

section \<open>Operations\<close>

definition request :: "io_op \<Rightarrow> 'a io_args_scheme \<Rightarrow> nat \<Rightarrow> io_request" where
  "request op args a = \<lparr>io_buf = io_buf args, io_len = io_len args, io_offset = io_offset args,
     rq_op = op, rq_res = a\<rparr>"

definition set_failure :: "nat \<Rightarrow> int \<Rightarrow> service \<Rightarrow> service" where
  "set_failure a rc s = s\<lparr>res_value := (res_value s)(a := Some rc), aw_ready := (aw_ready s)(a := True)\<rparr>"

text \<open>Queueing the wait entry of the core, with the parameters for the callback.\<close>

definition queue_retry :: "io_op \<Rightarrow> nat \<Rightarrow> io_args \<Rightarrow> nat \<Rightarrow> service \<Rightarrow> service" where
  "queue_retry op core args a s =
     s\<lparr>wait_cb := (wait_cb s)(core := op),
       retry_contexts := (retry_contexts s)(core := io_args.extend args \<lparr>ctx_res = a\<rparr>),
       io_wait := io_wait s @ [core]\<rparr>"

text \<open>\<open>read\<close> and \<open>write\<close> differ only in the SPDK function and the retry callback they name.\<close>

definition submit :: "io_op \<Rightarrow> nat \<Rightarrow> io_args \<Rightarrow> int \<Rightarrow> service \<Rightarrow> nat \<times> service" where
  "submit op core args rc s =
     (let a = next_aw s;
          s1 = s\<lparr>next_aw := Suc a, res_value := (res_value s)(a := None), res_coro := (res_coro s)(a := None),
                 aw_ready := (aw_ready s)(a := False), asked := (asked s)(a := (op, args))\<rparr>
      in (a, if rc = 0 then s1\<lparr>in_flight := in_flight s1 @ [request op args a]\<rparr>
             else if rc = - ENOMEM then queue_retry op core args a s1
             else set_failure a rc s1))"

definition service_read :: "nat \<Rightarrow> io_args \<Rightarrow> int \<Rightarrow> service \<Rightarrow> nat \<times> service" where
  "service_read core args rc s = submit IoRead core args rc s"

definition service_write :: "nat \<Rightarrow> io_args \<Rightarrow> int \<Rightarrow> service \<Rightarrow> nat \<times> service" where
  "service_write core args rc s = submit IoWrite core args rc s"

text \<open>The awaiter, and the resumption of the coroutine stored in it.\<close>

definition aw_await_ready :: "nat \<Rightarrow> service \<Rightarrow> bool" where
  "aw_await_ready a s = aw_ready s a"

definition aw_await_suspend :: "nat \<Rightarrow> nat \<Rightarrow> service \<Rightarrow> service" where
  "aw_await_suspend a co s = s\<lparr>res_coro := (res_coro s)(a := Some co), co_waits := (co_waits s)(co := Some a)\<rparr>"

definition aw_await_resume :: "nat \<Rightarrow> nat \<Rightarrow> service \<Rightarrow> service outcome" where
  "aw_await_resume a co s = (case res_value s a of
      None \<Rightarrow> Fault BadOptionalAccess
    | Some v \<Rightarrow> Next (s\<lparr>co_waits := (co_waits s)(co := None), resumed := resumed s @ [(co, v)]\<rparr>))"

definition coro_resume :: "nat \<Rightarrow> service \<Rightarrow> service outcome" where
  "coro_resume a s = (case res_coro s a of
      None \<Rightarrow> Fault NullDeref
    | Some co \<Rightarrow> if co_waits s co = Some a then aw_await_resume a co s else Fault BadResume)"

definition co_await_io :: "nat \<Rightarrow> nat \<times> service \<Rightarrow> service outcome" where
  "co_await_io co as = (case as of (a, s) \<Rightarrow>
     if aw_await_ready a s then aw_await_resume a co s else Next (aw_await_suspend a co s))"

definition spdk_io_complete_cb :: "nat \<Rightarrow> bool \<Rightarrow> service \<Rightarrow> service outcome" where
  "spdk_io_complete_cb a success s =
     coro_resume a (s\<lparr>res_value := (res_value s)(a := Some (if success then 0 else 1))\<rparr>)"

definition spdk_retry :: "io_op \<Rightarrow> nat \<Rightarrow> int \<Rightarrow> service \<Rightarrow> service outcome" where
  "spdk_retry op core rc s =
     (let ctx = retry_contexts s core
      in if rc = 0 then Next (s\<lparr>in_flight := in_flight s @ [request op ctx (ctx_res ctx)]\<rparr>)
         else if rc = - ENOMEM then Next s
         else coro_resume (ctx_res ctx) (s\<lparr>res_value := (res_value s)(ctx_res ctx := Some rc)\<rparr>))"

definition spdk_retry_read :: "nat \<Rightarrow> int \<Rightarrow> service \<Rightarrow> service outcome" where
  "spdk_retry_read core rc s = spdk_retry IoRead core rc s"

definition spdk_retry_write :: "nat \<Rightarrow> int \<Rightarrow> service \<Rightarrow> service outcome" where
  "spdk_retry_write core rc s = spdk_retry IoWrite core rc s"

text \<open>
  The events of the reactors: coroutine \<open>co\<close> on \<open>core\<close> awaits a request that SPDK answers with
  \<open>rc\<close>; the request number \<open>i\<close> in flight completes; the oldest wait entry is called back and SPDK
  answers the retry with \<open>rc\<close>.  With \<open>single\<close>, SPDK answers \<open>-ENOMEM\<close> at most once per core at a
  time and never to a retry.
\<close>

datatype service_event =
    IoCall io_op nat nat io_args int | IoComplete nat bool | IoWaitCb int

fun service_exec :: "bool \<Rightarrow> service_event \<Rightarrow> service \<Rightarrow> service outcome" where
  "service_exec single (IoCall op core co args rc) s =
     (if co_waits s co \<noteq> None \<or> single \<and> rc = - ENOMEM \<and> core \<in> set (io_wait s) then Blocked
      else co_await_io co
        (case op of IoRead \<Rightarrow> service_read core args rc s | IoWrite \<Rightarrow> service_write core args rc s))"
| "service_exec single (IoComplete i success) s =
     (if i < length (in_flight s) then
        spdk_io_complete_cb (rq_res (in_flight s ! i)) success
          (s\<lparr>in_flight := take i (in_flight s) @ drop (Suc i) (in_flight s)\<rparr>)
      else Blocked)"
| "service_exec single (IoWaitCb rc) s = (case io_wait s of
      [] \<Rightarrow> Blocked
    | core # rest \<Rightarrow>
        if single \<and> rc = - ENOMEM then Blocked
        else let s1 = s\<lparr>io_wait := rest\<rparr>
             in case wait_cb s core of
                  IoRead \<Rightarrow> spdk_retry_read core rc s1 | IoWrite \<Rightarrow> spdk_retry_write core rc s1)"

lemmas service_defs = service_read_def service_write_def submit_def queue_retry_def set_failure_def
  aw_await_ready_def aw_await_suspend_def aw_await_resume_def coro_resume_def co_await_io_def
  spdk_io_complete_cb_def spdk_retry_def spdk_retry_read_def spdk_retry_write_def Let_def

section \<open>Invariant\<close>

text \<open>
  The awaiters that some callback will reach: those of the requests in flight and those in the
  retry context of a core whose wait entry is queued.
\<close>

definition pending :: "service \<Rightarrow> nat list" where
  "pending s = map rq_res (in_flight s) @ map (\<lambda>core. ctx_res (retry_contexts s core)) (io_wait s)"

definition args_of :: "'a io_args_scheme \<Rightarrow> io_args" where
  "args_of x = \<lparr>io_buf = io_buf x, io_len = io_len x, io_offset = io_offset x\<rparr>"

text \<open>Every suspended coroutine is reached by exactly one pending callback.\<close>

definition reached_once :: "service \<Rightarrow> nat list \<Rightarrow> bool" where
  "reached_once s pend \<longleftrightarrow> distinct pend \<and>
     (\<forall>a \<in> set pend. a < next_aw s \<and> (\<exists>co. res_coro s a = Some co \<and> co_waits s co = Some a)) \<and>
     (\<forall>co a. co_waits s co = Some a \<longrightarrow> a \<in> set pend \<and> res_coro s a = Some co)"

text \<open>The requests in flight and those to be retried are the ones asked for.\<close>

definition requests_ok :: "service \<Rightarrow> bool" where
  "requests_ok s \<longleftrightarrow> distinct (io_wait s) \<and>
     (\<forall>r \<in> set (in_flight s). asked s (rq_res r) = (rq_op r, args_of r)) \<and>
     (\<forall>core \<in> set (io_wait s). asked s (ctx_res (retry_contexts s core)) =
        (wait_cb s core, args_of (retry_contexts s core)))"

definition service_inv :: "service \<Rightarrow> bool" where
  "service_inv s \<longleftrightarrow> reached_once s (pending s) \<and> requests_ok s"

lemma service_inv_init: "service_inv service_init"
  by (simp add: service_inv_def reached_once_def requests_ok_def pending_def service_init_def)

lemma reached_onceD:
  assumes "reached_once s pend"
  shows "distinct pend" "a \<in> set pend \<Longrightarrow> a < next_aw s"
    "a \<in> set pend \<Longrightarrow> \<exists>co. res_coro s a = Some co \<and> co_waits s co = Some a"
    "co_waits s co = Some a \<Longrightarrow> a \<in> set pend \<and> res_coro s a = Some co"
  using assms by (auto simp: reached_once_def)

lemma reached_once_cong:
  assumes "reached_once s pend" "distinct pend'" "set pend' = set pend" "next_aw s' = next_aw s"
    "res_coro s' = res_coro s" "co_waits s' = co_waits s"
  shows "reached_once s' pend'"
  using assms unfolding reached_once_def by simp

text \<open>A new awaiter, suspended.\<close>

lemma reached_once_new:
  assumes "reached_once s pend" "co_waits s co = None" "distinct pend'"
    "set pend' = insert (next_aw s) (set pend)" "next_aw s' = Suc (next_aw s)"
    "res_coro s' = (res_coro s)(next_aw s := Some co)" "co_waits s' = (co_waits s)(co := Some (next_aw s))"
  shows "reached_once s' pend'"
proof -
  note d = reached_onceD [OF assms(1)]
  have n: "a \<noteq> next_aw s" if "a \<in> set pend" for a using d(2) [OF that] by simp
  have "\<exists>co'. res_coro s' a = Some co' \<and> co_waits s' co' = Some a" if a: "a \<in> set pend" for a
  proof -
    obtain co' where c: "res_coro s a = Some co'" "co_waits s co' = Some a" using d(3) [OF a] by blast
    with assms(2) have "co' \<noteq> co" by auto
    with c n [OF a] assms(6,7) show ?thesis by auto
  qed
  moreover have "a \<in> set pend' \<and> res_coro s' a = Some c" if c: "co_waits s' c = Some a" for c a
  proof (cases "c = co")
    case True
    with c assms(4,6,7) show ?thesis by auto
  next
    case False
    with c assms(7) have "co_waits s c = Some a" by simp
    with d(4) n assms(4,6) show ?thesis by auto
  qed
  moreover have "a < next_aw s'" if "a \<in> set pend'" for a
    using that d(2) [of a] assms(4,5) by auto
  ultimately show ?thesis using assms(3,4,6,7) unfolding reached_once_def by auto
qed

text \<open>A callback resumes the coroutine, which then waits no more.\<close>

definition resumed_with :: "nat \<Rightarrow> nat \<Rightarrow> int \<Rightarrow> service \<Rightarrow> service" where
  "resumed_with a co v s = s\<lparr>res_value := (res_value s)(a := Some v), co_waits := (co_waits s)(co := None),
     resumed := resumed s @ [(co, v)]\<rparr>"

lemma coro_resume_reached:
  assumes "reached_once s pend" "a \<in> set pend" "distinct pend'" "set pend' = set pend - {a}"
  shows "\<exists>co. co_waits s co = Some a \<and>
    coro_resume a (s\<lparr>res_value := (res_value s)(a := Some v)\<rparr>) = Next (resumed_with a co v s) \<and>
    reached_once (resumed_with a co v s) pend'"
proof -
  note d = reached_onceD [OF assms(1)]
  obtain co where c: "res_coro s a = Some co" "co_waits s co = Some a" using d(3) [OF assms(2)] by blast
  let ?s = "resumed_with a co v s"
  have "coro_resume a (s\<lparr>res_value := (res_value s)(a := Some v)\<rparr>) = Next ?s"
    using c by (simp add: coro_resume_def aw_await_resume_def resumed_with_def)
  moreover have "reached_once ?s pend'"
    unfolding reached_once_def
  proof (intro conjI ballI allI impI)
    fix x assume x: "x \<in> set pend'"
    with assms(4) have xp: "x \<in> set pend" "x \<noteq> a" by auto
    then show "x < next_aw ?s" using d(2) by (simp add: resumed_with_def)
    obtain co' where c': "res_coro s x = Some co'" "co_waits s co' = Some x" using d(3) [OF xp(1)] by blast
    with c xp(2) have "co' \<noteq> co" by auto
    with c' show "\<exists>co. res_coro ?s x = Some co \<and> co_waits ?s co = Some x" by (auto simp: resumed_with_def)
  next
    fix c' x assume "co_waits ?s c' = Some x"
    then have w: "c' \<noteq> co" "co_waits s c' = Some x" by (auto simp: resumed_with_def split: if_splits)
    with d(4) have x: "x \<in> set pend" "res_coro s x = Some c'" by auto
    with c w(1) have "x \<noteq> a" by auto
    with x assms(4) show "x \<in> set pend'" "res_coro ?s x = Some c'" by (auto simp: resumed_with_def)
  qed (rule assms(3))
  ultimately show ?thesis using c(2) by blast
qed

lemma pending_fresh: "service_inv s \<Longrightarrow> a \<in> set (pending s) \<Longrightarrow> a \<noteq> next_aw s"
  by (auto simp: service_inv_def reached_once_def)

lemma in_pending:
  "r \<in> set (in_flight s) \<Longrightarrow> rq_res r \<in> set (pending s)"
  "core \<in> set (io_wait s) \<Longrightarrow> ctx_res (retry_contexts s core) \<in> set (pending s)"
  by (auto simp: pending_def)

text \<open>The three outcomes of a call.\<close>

lemma call_inv:
  assumes inv: "service_inv s" and co: "co_waits s co = None"
    and core: "rc = - ENOMEM \<Longrightarrow> core \<notin> set (io_wait s)"
  shows "\<exists>s'. co_await_io co (submit op core args rc s) = Next s' \<and> service_inv s'"
proof -
  let ?a = "next_aw s"
  have r: "reached_once s (pending s)" and q: "requests_ok s" using inv by (auto simp: service_inv_def)
  note d = reached_onceD [OF r]
  have new: "?a \<notin> set (pending s)" using pending_fresh [OF inv] by blast
  have nf: "rq_res x \<noteq> ?a" if "x \<in> set (in_flight s)" for x using in_pending(1) [OF that] new by metis
  have nc: "ctx_res (retry_contexts s c) \<noteq> ?a" if "c \<in> set (io_wait s)" for c
    using in_pending(2) [OF that] new by metis
  consider "rc = 0" | "rc = - ENOMEM" "rc \<noteq> 0" | "rc \<noteq> 0" "rc \<noteq> - ENOMEM" by (auto simp: ENOMEM_def)
  then show ?thesis
  proof cases
    case 1
    define s' where "s' = s\<lparr>next_aw := Suc ?a, res_value := (res_value s)(?a := None),
      res_coro := (res_coro s)(?a := Some co), aw_ready := (aw_ready s)(?a := False),
      asked := (asked s)(?a := (op, args)), in_flight := in_flight s @ [request op args ?a],
      co_waits := (co_waits s)(co := Some ?a)\<rparr>"
    have "co_await_io co (submit op core args rc s) = Next s'"
      using 1 by (simp add: service_defs s'_def)
    moreover have "set (pending s') = insert ?a (set (pending s))" "distinct (pending s')"
      using d(1) new by (auto simp: pending_def s'_def request_def)
    then have "reached_once s' (pending s')"
      using co by (intro reached_once_new [OF r]) (simp_all add: s'_def)
    moreover have "requests_ok s'"
      using q nf nc by (auto simp: requests_ok_def s'_def request_def args_of_def)
    ultimately show ?thesis by (auto simp: service_inv_def)
  next
    case 2
    define s' where "s' = s\<lparr>next_aw := Suc ?a, res_value := (res_value s)(?a := None),
      res_coro := (res_coro s)(?a := Some co), aw_ready := (aw_ready s)(?a := False),
      asked := (asked s)(?a := (op, args)), wait_cb := (wait_cb s)(core := op),
      retry_contexts := (retry_contexts s)(core := io_args.extend args \<lparr>ctx_res = ?a\<rparr>),
      io_wait := io_wait s @ [core], co_waits := (co_waits s)(co := Some ?a)\<rparr>"
    have c: "core \<notin> set (io_wait s)" using core 2 by simp
    have "co_await_io co (submit op core args rc s) = Next s'"
      using 2 by (simp add: service_defs s'_def)
    moreover have "pending s' = pending s @ [?a]"
      using c by (auto simp: pending_def s'_def io_args.defs)
    then have "reached_once s' (pending s')"
      using co d(1) new by (intro reached_once_new [OF r]) (simp_all add: s'_def)
    moreover have "requests_ok s'"
      using q nf nc c by (auto simp: requests_ok_def s'_def args_of_def io_args.defs)
    ultimately show ?thesis by (auto simp: service_inv_def)
  next
    case 3
    define s' where "s' = s\<lparr>next_aw := Suc ?a, res_value := (res_value s)(?a := Some rc),
      res_coro := (res_coro s)(?a := None), aw_ready := (aw_ready s)(?a := True),
      asked := (asked s)(?a := (op, args)), co_waits := (co_waits s)(co := None),
      resumed := resumed s @ [(co, rc)]\<rparr>"
    have "co_await_io co (submit op core args rc s) = Next s'"
      using 3 by (simp add: service_defs s'_def)
    moreover have p: "pending s' = pending s" by (simp add: pending_def s'_def)
    have "reached_once s' (pending s')"
      unfolding p reached_once_def
    proof (intro conjI ballI allI impI)
      show "distinct (pending s)" by (rule d(1))
    next
      fix a assume a: "a \<in> set (pending s)"
      show "a < next_aw s'" using d(2) [OF a] by (simp add: s'_def)
      have "a \<noteq> ?a" using a new by metis
      with d(3) [OF a] co show "\<exists>c. res_coro s' a = Some c \<and> co_waits s' c = Some a"
        by (auto simp: s'_def fun_upd_idem)
    next
      fix c a assume "co_waits s' c = Some a"
      then have "co_waits s c = Some a" using co by (auto simp: s'_def split: if_splits)
      with d(4) have a: "a \<in> set (pending s)" "res_coro s a = Some c" by auto
      then have "a \<noteq> ?a" using new by metis
      with a show "a \<in> set (pending s)" "res_coro s' a = Some c" by (simp_all add: s'_def)
    qed
    moreover have "requests_ok s'" using q nf nc by (auto simp: requests_ok_def s'_def)
    ultimately show ?thesis by (auto simp: service_inv_def)
  qed
qed


text \<open>A request in flight leaves the list and its coroutine is resumed.\<close>

lemma set_without:
  assumes "distinct (map f xs @ ys)" "i < length xs"
  shows "distinct (map f (take i xs @ drop (Suc i) xs) @ ys)"
    "set (map f (take i xs @ drop (Suc i) xs) @ ys) = set (map f xs @ ys) - {f (xs ! i)}"
proof -
  have "xs = take i xs @ xs ! i # drop (Suc i) xs" using assms(2) by (rule id_take_nth_drop)
  then obtain us vs x where xs: "xs = us @ x # vs" "us = take i xs" "vs = drop (Suc i) xs" "x = xs ! i" by blast
  have e: "take i xs @ drop (Suc i) xs = us @ vs" "f (xs ! i) = f x" using xs by simp_all
  show "distinct (map f (take i xs @ drop (Suc i) xs) @ ys)"
    unfolding e using assms(1) unfolding xs(1) by auto
  show "set (map f (take i xs @ drop (Suc i) xs) @ ys) = set (map f xs @ ys) - {f (xs ! i)}"
    unfolding e using assms(1) unfolding xs(1) by auto
qed

lemma complete_inv:
  assumes inv: "service_inv s" and i: "i < length (in_flight s)"
  shows "\<exists>co s'. service_exec single (IoComplete i success) s = Next s' \<and> service_inv s' \<and>
    co_waits s co = Some (rq_res (in_flight s ! i)) \<and> co_waits s' co = None \<and>
    resumed s' = resumed s @ [(co, if success then 0 else 1)]"
proof -
  let ?a = "rq_res (in_flight s ! i)" and ?v = "if success then 0 else 1 :: int"
  let ?s = "s\<lparr>in_flight := take i (in_flight s) @ drop (Suc i) (in_flight s)\<rparr>"
  have r: "reached_once s (pending s)" and q: "requests_ok s" using inv by (auto simp: service_inv_def)
  note d = reached_onceD [OF r]
  have p: "distinct (pending ?s)" "set (pending ?s) = set (pending s) - {?a}"
    using set_without [OF _ i, of rq_res "map (\<lambda>core. ctx_res (retry_contexts s core)) (io_wait s)"] d(1)
    by (simp_all add: pending_def)
  have rs: "reached_once ?s (pending s)" using r by (rule reached_once_cong) (simp_all add: d(1))
  have a: "?a \<in> set (pending s)" using i by (intro in_pending(1)) simp
  from coro_resume_reached [OF rs a p, of ?v] obtain co where co: "co_waits s co = Some ?a"
    "coro_resume ?a (?s\<lparr>res_value := (res_value ?s)(?a := Some ?v)\<rparr>) = Next (resumed_with ?a co ?v ?s)"
    "reached_once (resumed_with ?a co ?v ?s) (pending ?s)" by auto
  let ?t = "resumed_with ?a co ?v ?s"
  have "set (take i (in_flight s) @ drop (Suc i) (in_flight s)) \<subseteq> set (in_flight s)"
    using set_take_subset set_drop_subset by fastforce
  then have "requests_ok ?t" using q unfolding requests_ok_def by (auto simp: resumed_with_def)
  moreover have "pending ?t = pending ?s" by (simp add: pending_def resumed_with_def)
  ultimately have "service_inv ?t" using co(3) by (simp add: service_inv_def)
  moreover have "service_exec single (IoComplete i success) s = Next ?t"
    using i co(2) by (simp add: spdk_io_complete_cb_def)
  ultimately show ?thesis using co(1)
    by (intro exI [of _ co] exI [of _ ?t]) (simp add: resumed_with_def)
qed

text \<open>The oldest wait entry is called back.\<close>

lemma retry_inv:
  assumes inv: "service_inv s" and w: "io_wait s = core # rest" and rc: "rc \<noteq> - ENOMEM"
  shows "\<exists>s'. service_exec single (IoWaitCb rc) s = Next s' \<and> service_inv s' \<and>
    (rc = 0 \<longrightarrow> resumed s' = resumed s \<and> in_flight s' = in_flight s @
       [request (fst (asked s (ctx_res (retry_contexts s core)))) (snd (asked s (ctx_res (retry_contexts s core))))
          (ctx_res (retry_contexts s core))]) \<and>
    (rc \<noteq> 0 \<longrightarrow> (\<exists>co. co_waits s co = Some (ctx_res (retry_contexts s core)) \<and> co_waits s' co = None \<and>
       resumed s' = resumed s @ [(co, rc)]))"
proof -
  let ?ctx = "retry_contexts s core" and ?s = "s\<lparr>io_wait := rest\<rparr>"
  let ?a = "ctx_res ?ctx"
  have r: "reached_once s (pending s)" and q: "requests_ok s" using inv by (auto simp: service_inv_def)
  note d = reached_onceD [OF r]
  have asked: "asked s ?a = (wait_cb s core, args_of ?ctx)" using q w by (simp add: requests_ok_def)
  have ex: "service_exec single (IoWaitCb rc) s = spdk_retry (wait_cb s core) core rc ?s"
    using w rc by (cases "wait_cb s core") (simp_all add: spdk_retry_read_def spdk_retry_write_def)
  have a: "?a \<in> set (pending s)" using w by (intro in_pending(2)) simp
  have p: "distinct (pending ?s)" "set (pending ?s) = set (pending s) - {?a}"
    using d(1) w by (auto simp: pending_def)
  show ?thesis
  proof (cases "rc = 0")
    case True
    let ?r = "request (wait_cb s core) ?ctx ?a"
    let ?t = "?s\<lparr>in_flight := in_flight s @ [?r]\<rparr>"
    have req: "request (fst (asked s ?a)) (snd (asked s ?a)) ?a = ?r"
      by (simp add: asked request_def args_of_def)
    have ex': "service_exec single (IoWaitCb rc) s = Next ?t"
      unfolding ex using True by (simp add: spdk_retry_def Let_def)
    have "set (pending ?t) = set (pending s)" "distinct (pending ?t)"
      using d(1) w by (auto simp: pending_def request_def)
    then have "reached_once ?t (pending ?t)" by (intro reached_once_cong [OF r]) simp_all
    moreover have "requests_ok ?t"
      using q w asked by (auto simp: requests_ok_def request_def args_of_def)
    ultimately have "service_inv ?t" by (simp add: service_inv_def)
    with ex' True req show ?thesis by (intro exI [of _ ?t]) simp
  next
    case False
    have rs: "reached_once ?s (pending s)" using r by (rule reached_once_cong) (simp_all add: d(1))
    from coro_resume_reached [OF rs a p, of rc] obtain co where co: "co_waits s co = Some ?a"
      "coro_resume ?a (?s\<lparr>res_value := (res_value ?s)(?a := Some rc)\<rparr>) = Next (resumed_with ?a co rc ?s)"
      "reached_once (resumed_with ?a co rc ?s) (pending ?s)" by auto
    let ?t = "resumed_with ?a co rc ?s"
    have ex': "service_exec single (IoWaitCb rc) s = Next ?t"
      unfolding ex using False rc co(2) by (simp add: spdk_retry_def Let_def)
    have "requests_ok ?t" using q w by (auto simp: requests_ok_def resumed_with_def)
    moreover have "pending ?t = pending ?s" by (simp add: pending_def resumed_with_def)
    ultimately have "service_inv ?t" using co(3) by (simp add: service_inv_def)
    with ex' False co(1) show ?thesis
      by (intro exI [of _ ?t]) (auto simp: resumed_with_def)
  qed
qed

interpretation service: safe_machine service_init "service_exec True" service_inv
proof
  show "service_inv service_init" by (rule service_inv_init)
  have k: "service_exec True e s = Blocked \<or> (\<exists>s'. service_exec True e s = Next s' \<and> service_inv s')"
    if inv: "service_inv s" for e s
  proof (cases e)
    case (IoCall op core co args rc)
    show ?thesis
    proof (cases "co_waits s co \<noteq> None \<or> rc = - ENOMEM \<and> core \<in> set (io_wait s)")
      case False
      then have "service_exec True e s = co_await_io co (submit op core args rc s)"
        using IoCall by (cases op) (auto simp: service_read_def service_write_def)
      with call_inv [OF inv, of co rc core op args] False show ?thesis by auto
    qed (use IoCall in auto)
  next
    case (IoComplete i success)
    with complete_inv [OF inv, of i True success] show ?thesis by (cases "i < length (in_flight s)") auto
  next
    case (IoWaitCb rc)
    show ?thesis
    proof (cases "io_wait s = [] \<or> rc = - ENOMEM")
      case True
      with IoWaitCb show ?thesis by (auto split: list.split)
    next
      case False
      then obtain core rest where "io_wait s = core # rest" by (cases "io_wait s") auto
      from retry_inv [OF inv this, of rc True] False IoWaitCb show ?thesis by blast
    qed
  qed
  show "service_inv s \<Longrightarrow> service_exec True e s = Next s' \<Longrightarrow> service_inv s'" for e s s'
    using k [of s e] by auto
  show "service_inv s \<Longrightarrow> service_exec True e s \<noteq> Fault f" for e s f
    using k [of s e] by auto
qed


section \<open>Requests that are lost\<close>

text \<open>A coroutine that waits for an awaiter that no callback will reach.\<close>

definition orphan :: "service \<Rightarrow> nat \<Rightarrow> nat \<Rightarrow> bool" where
  "orphan s co a \<longleftrightarrow> co_waits s co = Some a \<and> a \<notin> set (pending s) \<and> a < next_aw s"

lemma coro_resume_orphan:
  assumes "coro_resume x s = Next s'" "orphan s co a" "x \<noteq> a"
  shows "orphan s' co a"
  using assms
  by (auto simp: coro_resume_def aw_await_resume_def orphan_def pending_def split: option.splits if_splits)

lemma orphan_cong:
  assumes "orphan s co a" "co_waits s' co = co_waits s co" "next_aw s \<le> next_aw s'"
    "set (pending s') \<subseteq> insert (next_aw s) (set (pending s))"
  shows "orphan s' co a"
  using assms by (auto simp: orphan_def)

lemma orphan_call:
  assumes o: "orphan s co a" and co: "co_waits s co' = None"
    and step: "co_await_io co' (submit op core args rc s) = Next s'"
  shows "orphan s' co a"
proof -
  have ne: "co \<noteq> co'" using o co by (auto simp: orphan_def)
  have sub: "(\<lambda>c. ctx_res (if c = core then x else retry_contexts s c)) ` set (io_wait s) \<subseteq>
      insert (ctx_res x) ((\<lambda>c. ctx_res (retry_contexts s c)) ` set (io_wait s))" for x
    by auto
  consider "rc = 0" | "rc = - ENOMEM" "rc \<noteq> 0" | "rc \<noteq> 0" "rc \<noteq> - ENOMEM" by (auto simp: ENOMEM_def)
  then show ?thesis
  proof cases
    case 1
    with step ne show ?thesis
      by (intro orphan_cong [OF o]) (auto simp: service_defs pending_def request_def)
  next
    case 2
    with step ne sub show ?thesis
      by (intro orphan_cong [OF o]) (auto simp: service_defs pending_def io_args.defs)
  next
    case 3
    with step ne show ?thesis
      by (intro orphan_cong [OF o]) (auto simp: service_defs pending_def)
  qed
qed

lemma orphan_step:
  assumes o: "orphan s co a" and step: "service_exec single e s = Next s'"
  shows "orphan s' co a"
proof (cases e)
  case (IoCall op core co' args rc)
  with step have "co_waits s co' = None" "co_await_io co' (submit op core args rc s) = Next s'"
    by (auto simp: service_read_def service_write_def split: if_splits io_op.splits)
  then show ?thesis by (rule orphan_call [OF o])
next
  case (IoComplete i success)
  let ?x = "rq_res (in_flight s ! i)"
  let ?s = "s\<lparr>in_flight := take i (in_flight s) @ drop (Suc i) (in_flight s),
    res_value := (res_value s)(?x := Some (if success then 0 else 1))\<rparr>"
  have i: "i < length (in_flight s)" using IoComplete step by (auto split: if_splits)
  then have "?x \<in> set (pending s)" by (intro in_pending(1)) simp
  then have "?x \<noteq> a" using o by (auto simp: orphan_def)
  moreover have "set (take i (in_flight s) @ drop (Suc i) (in_flight s)) \<subseteq> set (in_flight s)"
    using set_take_subset set_drop_subset by fastforce
  then have "orphan ?s co a" by (intro orphan_cong [OF o]) (auto simp: pending_def)
  moreover have "coro_resume ?x ?s = Next s'"
    using IoComplete step i by (simp add: spdk_io_complete_cb_def)
  ultimately show ?thesis using coro_resume_orphan by blast
next
  case (IoWaitCb rc)
  then obtain core rest where w: "io_wait s = core # rest" using step by (cases "io_wait s") auto
  let ?ctx = "retry_contexts s core" and ?s = "s\<lparr>io_wait := rest\<rparr>"
  have st: "spdk_retry (wait_cb s core) core rc ?s = Next s'"
    using IoWaitCb step w
    by (cases "wait_cb s core") (auto simp: spdk_retry_read_def spdk_retry_write_def split: if_splits)
  have p: "ctx_res ?ctx \<in> set (pending s)" using w by (intro in_pending(2)) simp
  then have x: "ctx_res ?ctx \<noteq> a" using o by (auto simp: orphan_def)
  consider "rc = 0" | "rc = - ENOMEM" "rc \<noteq> 0" | "rc \<noteq> 0" "rc \<noteq> - ENOMEM" by (auto simp: ENOMEM_def)
  then show ?thesis
  proof cases
    case 1
    with st p w show ?thesis
      by (intro orphan_cong [OF o]) (auto simp: spdk_retry_def pending_def request_def Let_def)
  next
    case 2
    with st w show ?thesis by (intro orphan_cong [OF o]) (auto simp: spdk_retry_def pending_def Let_def)
  next
    case 3
    have "orphan (?s\<lparr>res_value := (res_value s)(ctx_res ?ctx := Some rc)\<rparr>) co a"
      using w by (intro orphan_cong [OF o]) (auto simp: pending_def)
    moreover have "coro_resume (ctx_res ?ctx) (?s\<lparr>res_value := (res_value s)(ctx_res ?ctx := Some rc)\<rparr>) = Next s'"
      using st 3 by (simp add: spdk_retry_def Let_def)
    ultimately show ?thesis using coro_resume_orphan x by blast
  qed
qed

lemma orphan_run: "orphan s co a \<Longrightarrow> run (service_exec single) es s = Next s' \<Longrightarrow> orphan s' co a"
  by (induction es arbitrary: s) (auto dest: orphan_step)

section \<open>Properties\<close>


definition demo_args :: io_args where
  "demo_args = \<lparr>io_buf = 4096, io_len = 512, io_offset = 1024\<rparr>"

lemma service_demo:
  "\<exists>s. run (service_exec True) [IoCall IoRead 0 7 demo_args (- ENOMEM), IoCall IoWrite 1 8 demo_args 0]
     service_init = Next s \<and> co_waits s 7 = Some 0 \<and> co_waits s 8 = Some 1 \<and> io_wait s = [0] \<and>
     co_waits s 9 = None \<and> pending s = [1, 0] \<and> resumed s = [] \<and> retry_contexts s 0 = io_args.extend demo_args \<lparr>ctx_res = 0\<rparr> \<and>
     asked s 0 = (IoRead, demo_args)"
  by (simp add: service_defs service_init_def ENOMEM_def pending_def request_def demo_args_def io_args.defs)


text \<open>
  Also shown (a completion gives its coroutine the result). The completion of a request resumes
  the coroutine that awaits it, once, with 0 for success and 1 for failure.
\<close>
theorem service_completion_result:
  assumes "reach (service_exec True) service_init s" and "i < length (in_flight s)"
  shows "\<exists>co s'. service_exec True (IoComplete i success) s = Next s' \<and>
    co_waits s co = Some (rq_res (in_flight s ! i)) \<and> co_waits s' co = None \<and>
    resumed s' = resumed s @ [(co, if success then 0 else 1)]"
  using complete_inv [OF service.reach_inv [OF assms(1)] assms(2)] by blast

theorem service_completion_result_witness:
  "\<exists>s s' co. run (service_exec True) [IoCall IoWrite 1 8 demo_args 0] service_init = Next s \<and>
     service_exec True (IoComplete 0 False) s = Next s' \<and> resumed s' = [(co, 1)]"
proof -
  obtain s where s: "run (service_exec True) [IoCall IoWrite 1 8 demo_args 0] service_init = Next s"
    "length (in_flight s) = 1" "resumed s = []"
    by (simp add: service_defs service_init_def ENOMEM_def request_def)
  from service_completion_result [OF run_reach [OF reach_init s(1)], of 0 False] s show ?thesis by fastforce
qed

text \<open>
  Also shown (a retry makes the request again). When the wait entry of a core is called back and
  SPDK takes the request, it is the one the coroutine asked for, with the same operation, buffer,
  length and offset; an error other than \<open>-ENOMEM\<close> resumes the coroutine with that error.
\<close>
theorem service_retry_same_request:
  assumes "reach (service_exec True) service_init s" and "io_wait s = core # rest" and "rc \<noteq> - ENOMEM"
  shows "\<exists>s'. service_exec True (IoWaitCb rc) s = Next s' \<and>
    (rc = 0 \<longrightarrow> resumed s' = resumed s \<and> in_flight s' = in_flight s @
       [request (fst (asked s (ctx_res (retry_contexts s core)))) (snd (asked s (ctx_res (retry_contexts s core))))
          (ctx_res (retry_contexts s core))]) \<and>
    (rc \<noteq> 0 \<longrightarrow> (\<exists>co. co_waits s co = Some (ctx_res (retry_contexts s core)) \<and> co_waits s' co = None \<and>
       resumed s' = resumed s @ [(co, rc)]))"
  using retry_inv [OF service.reach_inv [OF assms(1)] assms(2,3)] by blast

theorem service_retry_same_request_witness:
  "\<exists>s s'. service_exec True (IoWaitCb 0) s = Next s' \<and> io_wait s = [0] \<and>
     request IoRead demo_args 0 \<in> set (in_flight s')"
proof -
  obtain s where s: "run (service_exec True)
      [IoCall IoRead 0 7 demo_args (- ENOMEM), IoCall IoWrite 1 8 demo_args 0] service_init = Next s"
    "io_wait s = [0]" "retry_contexts s 0 = io_args.extend demo_args \<lparr>ctx_res = 0\<rparr>"
    "asked s 0 = (IoRead, demo_args)" using service_demo by blast
  have "ctx_res (retry_contexts s 0) = 0" using s(3) by (simp add: io_args.defs)
  with service_retry_same_request [OF run_reach [OF reach_init s(1)] s(2), of 0] s(2,4)
  show ?thesis by (fastforce simp: ENOMEM_def)
qed

text \<open>
  Property C38 (a second \<open>-ENOMEM\<close> on a core loses a request). When a request is refused for lack of
  memory while the wait entry of its core is queued for another one, the retry context of that one
  is overwritten: its coroutine stays suspended in every continuation.
\<close>
theorem second_enomem_loses_request:
  assumes "reach (service_exec True) service_init s" and "core \<in> set (io_wait s)"
    and "co_waits s co' = None"
  shows "\<exists>co s1. co_waits s co = Some (ctx_res (retry_contexts s core)) \<and>
    service_exec False (IoCall op core co' args (- ENOMEM)) s = Next s1 \<and>
    (\<forall>es s'. run (service_exec False) es s1 = Next s' \<longrightarrow> co_waits s' co = co_waits s co)"
proof -
  let ?a = "ctx_res (retry_contexts s core)"
  have inv: "service_inv s" by (rule service.reach_inv [OF assms(1)])
  then have r: "reached_once s (pending s)" by (simp add: service_inv_def)
  have a: "?a \<in> set (pending s)" using assms(2) by (rule in_pending(2))
  obtain co where co: "co_waits s co = Some ?a" using reached_onceD(3) [OF r a] by blast
  obtain s1 where s1: "co_await_io co' (submit op core args (- ENOMEM) s) = Next s1" "co \<noteq> co'"
    "co_waits s1 co = Some ?a" "next_aw s1 = Suc (next_aw s)"
    "in_flight s1 = in_flight s" "io_wait s1 = io_wait s @ [core]"
    "retry_contexts s1 = (retry_contexts s)(core := io_args.extend args \<lparr>ctx_res = next_aw s\<rparr>)"
    using assms(3) co by (fastforce simp: service_defs ENOMEM_def)
  have "distinct (pending s)" using reached_onceD(1) [OF r] .
  then have d: "?a \<notin> set (map rq_res (in_flight s))"
    "\<And>c. c \<in> set (io_wait s) \<Longrightarrow> c \<noteq> core \<Longrightarrow> ctx_res (retry_contexts s c) \<noteq> ?a"
    using assms(2) by (auto simp: pending_def distinct_map inj_on_def)
  have "set (pending s1) \<subseteq> rq_res ` set (in_flight s) \<union> {next_aw s} \<union>
      (\<lambda>c. ctx_res (retry_contexts s c)) ` (set (io_wait s) - {core})"
    by (auto simp: pending_def s1 io_args.defs)
  moreover have "?a < next_aw s" using reached_onceD(2) [OF r a] .
  ultimately have "orphan s1 co ?a" using s1(3,4) d by (fastforce simp: orphan_def)
  then have "co_waits s' co = co_waits s co" if "run (service_exec False) es s1 = Next s'" for es s'
    using orphan_run [OF _ that, of co ?a] co by (simp add: orphan_def)
  moreover have "service_exec False (IoCall op core co' args (- ENOMEM)) s = Next s1"
    using s1(1) assms(3) by (cases op) (simp_all add: service_read_def service_write_def)
  ultimately show ?thesis using co by blast
qed

theorem second_enomem_loses_request_witness:
  "\<exists>s s1 co. io_wait s = [0] \<and> co_waits s co = Some 0 \<and>
     service_exec False (IoCall IoRead 0 9 demo_args (- ENOMEM)) s = Next s1 \<and> co_waits s1 co = Some 0"
proof -
  obtain s where s: "run (service_exec True)
      [IoCall IoRead 0 7 demo_args (- ENOMEM), IoCall IoWrite 1 8 demo_args 0] service_init = Next s"
    "io_wait s = [0]" "retry_contexts s 0 = io_args.extend demo_args \<lparr>ctx_res = 0\<rparr>" "co_waits s 9 = None"
    using service_demo by blast
  have "ctx_res (retry_contexts s 0) = 0" using s(3) by (simp add: io_args.defs)
  moreover obtain co s1 where "co_waits s co = Some (ctx_res (retry_contexts s 0))"
    "service_exec False (IoCall IoRead 0 9 demo_args (- ENOMEM)) s = Next s1"
    "\<forall>es s'. run (service_exec False) es s1 = Next s' \<longrightarrow> co_waits s' co = co_waits s co"
    using second_enomem_loses_request [OF run_reach [OF reach_init s(1)] _ s(4), of 0 IoRead demo_args] s(2)
    by auto
  moreover have "run (service_exec False) [] s1 = Next s1" by simp
  ultimately show ?thesis using s(2) by metis
qed

text \<open>
  Also shown (a retry that is refused loses its request). When the retry gets \<open>-ENOMEM\<close> again, the
  callback does nothing: the coroutine stays suspended in every continuation.
\<close>
theorem retry_enomem_loses_request:
  assumes "reach (service_exec True) service_init s" and "io_wait s = core # rest"
  shows "\<exists>co s1. co_waits s co = Some (ctx_res (retry_contexts s core)) \<and>
    service_exec False (IoWaitCb (- ENOMEM)) s = Next s1 \<and>
    (\<forall>es s'. run (service_exec False) es s1 = Next s' \<longrightarrow> co_waits s' co = co_waits s co)"
proof -
  let ?a = "ctx_res (retry_contexts s core)" and ?s = "s\<lparr>io_wait := rest\<rparr>"
  have "service_inv s" by (rule service.reach_inv [OF assms(1)])
  then have r: "reached_once s (pending s)" by (simp add: service_inv_def)
  have a: "?a \<in> set (pending s)" using assms(2) by (intro in_pending(2)) simp
  obtain co where co: "co_waits s co = Some ?a" using reached_onceD(3) [OF r a] by blast
  have ex: "service_exec False (IoWaitCb (- ENOMEM)) s = Next ?s"
    using assms(2) by (cases "wait_cb s core")
      (simp_all add: spdk_retry_read_def spdk_retry_write_def spdk_retry_def ENOMEM_def)
  have "?a \<notin> set (pending ?s)" using reached_onceD(1) [OF r] assms(2) by (auto simp: pending_def)
  with reached_onceD(2) [OF r a] co have "orphan ?s co ?a" by (simp add: orphan_def)
  then have "co_waits s' co = co_waits s co" if "run (service_exec False) es ?s = Next s'" for es s'
    using orphan_run [OF _ that, of co ?a] co by (simp add: orphan_def)
  with ex co show ?thesis by blast
qed

theorem retry_enomem_loses_request_witness:
  "\<exists>s s1 co. io_wait s = [0] \<and> service_exec False (IoWaitCb (- ENOMEM)) s = Next s1 \<and> co_waits s1 co = Some 0"
proof -
  obtain s where s: "run (service_exec True)
      [IoCall IoRead 0 7 demo_args (- ENOMEM), IoCall IoWrite 1 8 demo_args 0] service_init = Next s"
    "io_wait s = [0]" "retry_contexts s 0 = io_args.extend demo_args \<lparr>ctx_res = 0\<rparr>"
    using service_demo by blast
  have "ctx_res (retry_contexts s 0) = 0" using s(3) by (simp add: io_args.defs)
  moreover obtain co s1 where "co_waits s co = Some (ctx_res (retry_contexts s 0))"
    "service_exec False (IoWaitCb (- ENOMEM)) s = Next s1"
    "\<forall>es s'. run (service_exec False) es s1 = Next s' \<longrightarrow> co_waits s' co = co_waits s co"
    using retry_enomem_loses_request [OF run_reach [OF reach_init s(1)] s(2)] by blast
  moreover have "run (service_exec False) [] s1 = Next s1" by simp
  ultimately show ?thesis using s(2) by metis
qed

end
