(* ===== verification/Schedule.thy ===== *)
theory Schedule
  imports Rcu
begin

text \<open>
  The scheduler of \<^verbatim>\<open>src/schedule.cpp\<close> and \<^verbatim>\<open>include/schedule.hpp\<close>: the setup of
  the service, the round-robin distribution of the tasks over the reactors, the wrapper coroutine
  around every task, \<open>yield\<close>, and the shutdown.

  SPDK is outside the repository.  What the sources use of it is this: the reactors run on the
  cores of the mask, numbered from 0; \<open>spdk_thread_send_msg\<close> appends to the queue of a thread and
  the thread's reactor takes the messages in order; an I/O channel belongs to one thread.  What
  \<open>spdk_cpuset_fmt\<close> and \<open>spdk_bdev_open_ext\<close> return is part of the event.  A handler runs as one
  step.  What a task does when it is resumed (its effect on the memory of the RCU component, and
  whether it yields, suspends in another awaiter or finishes) is part of the event, too, so the
  theorems hold for every program of tasks.
\<close>

section \<open>State\<close>

datatype msg =
    GetChannel nat    \<comment> \<open>\<open>thread_init_get_channel\<close> with the core\<close>
  | RunTask nat       \<comment> \<open>\<open>service_thread_run\<close> with \<open>&tasks[i]\<close>\<close>
  | ResumeYield nat   \<comment> \<open>\<open>service_thread_run_yield\<close> with the coroutine\<close>
  | TaskDone          \<comment> \<open>\<open>task_done\<close>\<close>
  | ThreadExit nat    \<comment> \<open>\<open>thread_exit\<close> with the core\<close>

datatype desc_state = DescNull | DescOpen | DescClosed
datatype channel_state = ChanNull | ChanOpen | ChanPut
datatype phase = Setup | Running | Stopped

datatype co_frame =
    Co_New      \<comment> \<open>at \<open>initial_suspend\<close>\<close>
  | Co_Yield    \<comment> \<open>suspended in \<open>YieldAwaiter\<close>\<close>
  | Co_Wait     \<comment> \<open>suspended in another awaiter\<close>
  | Co_Gone     \<comment> \<open>no frame\<close>

datatype wrapper_frame = W_None | W_Await | W_Done

record sched =
  device_name :: string
  json_file :: string
  cpumask :: string
  tasks :: "nat option list"            \<comment> \<open>the handles; \<open>None\<close> once moved out\<close>
  wrapper_tasks :: "nat list"
  num_threads :: int
  desc :: desc_state
  alive_tasks :: int
  main_thread :: "nat option"
  threads :: "nat \<Rightarrow> nat option"          \<comment> \<open>a thread is named by its core\<close>
  channels :: "nat \<Rightarrow> channel_state"
  msgs :: "nat \<Rightarrow> msg list"             \<comment> \<open>the queue of the thread, oldest first\<close>
  exited :: "nat \<Rightarrow> bool"
  stops :: nat                          \<comment> \<open>calls of \<open>spdk_app_stop\<close>\<close>
  frame :: "nat \<Rightarrow> co_frame"             \<comment> \<open>of the task with that number\<close>
  wrapper :: "nat \<Rightarrow> wrapper_frame"      \<comment> \<open>of the \<open>task_run\<close> around it\<close>
  mem :: rcu_mem
  phase :: phase

definition NUL :: char where "NUL = CHR 0x00"

definition zeros :: "nat \<Rightarrow> string" where "zeros k = replicate k NUL"

definition sched_boot :: sched where
  "sched_boot = \<lparr>device_name = zeros 64, json_file = zeros 256, cpumask = ''0x'' @ zeros 14, tasks = [],
     wrapper_tasks = [], num_threads = 0, desc = DescNull, alive_tasks = 0, main_thread = None,
     threads = (\<lambda>_. None), channels = (\<lambda>_. ChanNull), msgs = (\<lambda>_. []), exited = (\<lambda>_. False), stops = 0,
     frame = (\<lambda>_. Co_Gone), wrapper = (\<lambda>_. W_None),
     mem = \<lparr>versions = (\<lambda>_. 0), sequencer = 0, gp = 0, field_a = (\<lambda>_. 0), buf = (\<lambda>_. []),
            rcu_count = (\<lambda>_. 1023), g_syncs = 0\<rparr>, phase = Setup\<rparr>"

section \<open>Setup\<close>

text \<open>C strings: \<open>strncpy\<close> into a buffer, \<open>strcpy\<close> to a place in it, and the string read back.\<close>

definition strncpy :: "string \<Rightarrow> string \<Rightarrow> nat \<Rightarrow> string" where
  "strncpy dest src k = take k src @ replicate (k - length src) NUL @ drop k dest"

definition strcpy_at :: "string \<Rightarrow> nat \<Rightarrow> string \<Rightarrow> string outcome" where
  "strcpy_at dest k src =
     (if length dest < k + length src + 1 then Fault OutOfBounds
      else Next (take k dest @ src @ NUL # drop (k + length src + 1) dest))"

definition c_string :: "string \<Rightarrow> string" where
  "c_string b = takeWhile (\<lambda>c. c \<noteq> NUL) b"

lemma takeWhile_NUL: "NUL \<notin> set xs \<Longrightarrow> takeWhile (\<lambda>c. c \<noteq> NUL) (xs @ NUL # ys) = xs"
  by (induction xs) auto

lemma strncpy_string:
  assumes "length dest = Suc k" "NUL \<notin> set src"
  shows "c_string ((strncpy dest src k)[k := NUL]) = take k src" "length ((strncpy dest src k)[k := NUL]) = Suc k"
proof -
  let ?h = "take k src @ replicate (k - length src) NUL"
  have l: "length ?h = k" by simp
  have "length (drop k dest) = 1" using assms(1) by simp
  then obtain d where d: "drop k dest = [d]" by (cases "drop k dest") auto
  have "strncpy dest src k = ?h @ [d]" by (simp add: strncpy_def d)
  also have "(?h @ [d])[k := NUL] = ?h @ [NUL]"
    using list_update_length [of ?h d "[]" NUL] unfolding l .
  finally have e: "(strncpy dest src k)[k := NUL] = take k src @ replicate (k - length src) NUL @ [NUL]" by simp
  then show "length ((strncpy dest src k)[k := NUL]) = Suc k" by simp
  have "\<exists>ys. replicate (k - length src) NUL @ [NUL] = NUL # ys" by (cases "k - length src") auto
  then obtain ys where "(strncpy dest src k)[k := NUL] = take k src @ NUL # ys" using e by auto
  moreover have "NUL \<notin> set (take k src)" using assms(2) by (meson in_set_takeD)
  ultimately show "c_string ((strncpy dest src k)[k := NUL]) = take k src"
    by (simp add: c_string_def takeWhile_NUL)
qed

definition init_service :: "int \<Rightarrow> string \<Rightarrow> string \<Rightarrow> sched \<Rightarrow> sched" where
  "init_service thread_num config_file bdev_name s =
     s\<lparr>mem := rcu_init (mem s), num_threads := thread_num, alive_tasks := 0,
       device_name := (strncpy (device_name s) bdev_name 63)[63 := NUL],
       json_file := (strncpy (json_file s) config_file 255)[255 := NUL]\<rparr>"

definition add_task :: "sched \<Rightarrow> sched" where
  "add_task s = s\<lparr>tasks := tasks s @ [Some (length (tasks s))],
     frame := (frame s)(length (tasks s) := Co_New)\<rparr>"

section \<open>Messages and shutdown\<close>

definition spdk_thread_send_msg :: "nat option \<Rightarrow> msg \<Rightarrow> sched \<Rightarrow> sched outcome" where
  "spdk_thread_send_msg thread m s = (case thread of
      None \<Rightarrow> Fault NullDeref
    | Some c \<Rightarrow> if exited s c then Fault UseAfterFree
               else Next (s\<lparr>msgs := (msgs s)(c := msgs s c @ [m])\<rparr>))"

definition put_io_channel :: "nat \<Rightarrow> sched \<Rightarrow> sched outcome" where
  "put_io_channel core s =
     (if channels s core = ChanOpen then Next (s\<lparr>channels := (channels s)(core := ChanPut)\<rparr>)
      else Fault NullDeref)"

definition get_io_channel :: "nat \<Rightarrow> sched \<Rightarrow> sched outcome" where
  "get_io_channel core s = (case desc s of
      DescNull \<Rightarrow> Fault NullDeref
    | DescClosed \<Rightarrow> Fault UseAfterFree
    | DescOpen \<Rightarrow> if 256 \<le> core then Fault OutOfBounds
                  else Next (s\<lparr>channels := (channels s)(core := ChanOpen)\<rparr>))"

definition thread_init_get_channel :: "nat \<Rightarrow> sched \<Rightarrow> sched outcome" where
  "thread_init_get_channel core s = get_io_channel core s"

definition thread_exit :: "nat \<Rightarrow> nat \<Rightarrow> sched \<Rightarrow> sched outcome" where
  "thread_exit c core s =
     bind_outcome (put_io_channel core s) (\<lambda>s1. Next (s1\<lparr>exited := (exited s1)(c := True)\<rparr>))"

fun exit_threads :: "nat list \<Rightarrow> sched \<Rightarrow> sched outcome" where
  "exit_threads [] s = Next s"
| "exit_threads (i # is) s =
     bind_outcome (if i = 0 then put_io_channel i s else spdk_thread_send_msg (threads s i) (ThreadExit i) s)
       (exit_threads is)"

definition service_exit :: "sched \<Rightarrow> sched outcome" where
  "service_exit s =
     bind_outcome (exit_threads [0..<nat (num_threads s)] s)
       (\<lambda>s1. Next (s1\<lparr>desc := DescClosed, stops := Suc (stops s1)\<rparr>))"

definition task_done :: "sched \<Rightarrow> sched outcome" where
  "task_done s =
     (let s1 = s\<lparr>alive_tasks := alive_tasks s - 1\<rparr>
      in if alive_tasks s1 = 0 then service_exit s1 else Next s1)"

section \<open>Running tasks\<close>

text \<open>What a task does from one suspension point to the next.\<close>

datatype act = Yields | Suspends | Finishes

definition yield_await_suspend :: "nat \<Rightarrow> nat \<Rightarrow> sched \<Rightarrow> sched outcome" where
  "yield_await_suspend c h s =
     spdk_thread_send_msg (Some c) (ResumeYield h)
       (s\<lparr>frame := (frame s)(h := Co_Yield), mem := rcu_offline c (mem s)\<rparr>)"

text \<open>\<open>task_run\<close> after its \<open>co_await\<close>, which has destroyed the frame of the task.\<close>

definition task_run_rest :: "nat \<Rightarrow> nat \<Rightarrow> sched \<Rightarrow> sched outcome" where
  "task_run_rest c h s =
     (if wrapper s h \<noteq> W_Await then Fault BadResume
      else spdk_thread_send_msg (main_thread s) TaskDone
             (s\<lparr>mem := rcu_offline c (mem s), wrapper := (wrapper s)(h := W_Done)\<rparr>))"

definition resume_task :: "nat \<Rightarrow> nat \<Rightarrow> act \<Rightarrow> (rcu_mem \<Rightarrow> rcu_mem) \<Rightarrow> sched \<Rightarrow> sched outcome" where
  "resume_task c h a eff s =
     (let s1 = s\<lparr>mem := eff (mem s)\<rparr>
      in case a of
           Yields \<Rightarrow> yield_await_suspend c h s1
         | Suspends \<Rightarrow> Next (s1\<lparr>frame := (frame s1)(h := Co_Wait)\<rparr>)
         | Finishes \<Rightarrow> task_run_rest c h (s1\<lparr>frame := (frame s1)(h := Co_Gone)\<rparr>))"

text \<open>\<open>task_run\<close> up to the start of the task: the handle moves into the awaiter.\<close>

definition task_run :: "nat \<Rightarrow> nat \<Rightarrow> act \<Rightarrow> (rcu_mem \<Rightarrow> rcu_mem) \<Rightarrow> sched \<Rightarrow> sched outcome" where
  "task_run c i a eff s =
     (if length (tasks s) \<le> i then Fault UseAfterFree
      else case tasks s ! i of
          None \<Rightarrow> Fault NullDeref
        | Some h \<Rightarrow>
            if frame s h \<noteq> Co_New then Fault BadResume
            else resume_task c h a eff
                   (s\<lparr>tasks := (tasks s)[i := None], wrapper := (wrapper s)(h := W_Await)\<rparr>))"

definition service_thread_run :: "nat \<Rightarrow> nat \<Rightarrow> act \<Rightarrow> (rcu_mem \<Rightarrow> rcu_mem) \<Rightarrow> sched \<Rightarrow> sched outcome" where
  "service_thread_run c i a eff s =
     bind_outcome (task_run c i a eff s) (\<lambda>s1.
       if wrapper s1 i = W_Done then Next (s1\<lparr>wrapper := (wrapper s1)(i := W_None)\<rparr>)
       else Next (s1\<lparr>wrapper_tasks := wrapper_tasks s1 @ [i]\<rparr>))"

definition service_thread_run_yield :: "nat \<Rightarrow> nat \<Rightarrow> act \<Rightarrow> (rcu_mem \<Rightarrow> rcu_mem) \<Rightarrow> sched \<Rightarrow> sched outcome" where
  "service_thread_run_yield c h a eff s =
     (if frame s h \<noteq> Co_Yield then Fault BadResume else resume_task c h a eff s)"

fun handle_msg :: "nat \<Rightarrow> msg \<Rightarrow> act \<Rightarrow> (rcu_mem \<Rightarrow> rcu_mem) \<Rightarrow> sched \<Rightarrow> sched outcome" where
  "handle_msg c (GetChannel core) a eff s = thread_init_get_channel core s"
| "handle_msg c (RunTask i) a eff s = service_thread_run c i a eff s"
| "handle_msg c (ResumeYield h) a eff s = service_thread_run_yield c h a eff s"
| "handle_msg c TaskDone a eff s = task_done s"
| "handle_msg c (ThreadExit core) a eff s = thread_exit c core s"

section \<open>Start\<close>

fun create_threads :: "nat \<Rightarrow> nat list \<Rightarrow> sched \<Rightarrow> sched outcome" where
  "create_threads current [] s = Next s"
| "create_threads current (i # is) s =
     bind_outcome
       (if 256 \<le> i then Fault OutOfBounds
        else if i \<noteq> current then spdk_thread_send_msg (Some i) (GetChannel i) s
        else get_io_channel i (s\<lparr>main_thread := Some i\<rparr>))
       (\<lambda>s1. create_threads current is (s1\<lparr>threads := (threads s1)(i := Some i)\<rparr>))"

definition INT32_MAX :: int where "INT32_MAX = 2147483647"

fun distribute :: "nat list \<Rightarrow> sched \<Rightarrow> sched outcome" where
  "distribute [] s = Next s"
| "distribute (i # is) s =
     (if alive_tasks s = INT32_MAX then Fault SignedOverflow
      else bind_outcome
             (spdk_thread_send_msg (threads s (i mod nat (num_threads s))) (RunTask i)
                (s\<lparr>alive_tasks := alive_tasks s + 1\<rparr>))
             (distribute is))"

text \<open>\<open>assert\<close> is compiled away under \<open>NDEBUG\<close>, with the call in it.\<close>

definition open_device :: "bool \<Rightarrow> bool \<Rightarrow> sched \<Rightarrow> sched outcome" where
  "open_device ndebug ok s =
     (if ndebug then Next s
      else if \<not> ok then Fault AssertFailed
      else Next (s\<lparr>desc := DescOpen\<rparr>))"

definition get_bdev :: "sched \<Rightarrow> sched outcome" where
  "get_bdev s = (case desc s of
      DescNull \<Rightarrow> Fault NullDeref | DescClosed \<Rightarrow> Fault UseAfterFree | DescOpen \<Rightarrow> Next s)"

definition scheduler_init :: "bool \<Rightarrow> bool \<Rightarrow> nat \<Rightarrow> nat list \<Rightarrow> sched \<Rightarrow> sched outcome" where
  "scheduler_init ndebug ok current cores s =
     bind_outcome (open_device ndebug ok s) (\<lambda>s1.
     bind_outcome (get_bdev s1) (\<lambda>s2.
     bind_outcome (create_threads current cores s2) (\<lambda>s3.
     bind_outcome (distribute [0..<length (tasks s3)] s3) (\<lambda>s4.
       if tasks s4 = [] then service_exit s4 else Next s4))))"

text \<open>\<open>execute\<close>, with the string \<open>cpus\<close> that \<open>spdk_cpuset_fmt\<close> gives for the cores below \<open>num_threads\<close>.\<close>

definition execute :: "string \<Rightarrow> bool \<Rightarrow> bool \<Rightarrow> nat \<Rightarrow> sched \<Rightarrow> sched outcome" where
  "execute cpus ndebug ok main s =
     bind_outcome (strcpy_at (cpumask s) 2 cpus) (\<lambda>b.
       scheduler_init ndebug ok main [0..<nat (num_threads s)] (s\<lparr>cpumask := b, phase := Running\<rparr>))"

text \<open>
  \<open>run\<close> with a task, and \<open>run_all\<close> with a range of \<open>k\<close> of them; plain \<open>run\<close> is \<open>execute\<close>.
\<close>

definition run_task :: "string \<Rightarrow> bool \<Rightarrow> bool \<Rightarrow> nat \<Rightarrow> sched \<Rightarrow> sched outcome" where
  "run_task cpus ndebug ok main s = execute cpus ndebug ok main (add_task s)"

fun run_all :: "nat \<Rightarrow> string \<Rightarrow> bool \<Rightarrow> bool \<Rightarrow> nat \<Rightarrow> sched \<Rightarrow> sched outcome" where
  "run_all 0 cpus ndebug ok main s = execute cpus ndebug ok main s"
| "run_all (Suc k) cpus ndebug ok main s = run_all k cpus ndebug ok main (add_task s)"

section \<open>Events\<close>

text \<open>
  The client sets the service up, adds tasks and runs them; a reactor takes the next message of its
  thread; something else than a yield (an I/O, a lock) resumes a task on some core; \<open>run\<close> returns
  when the application has stopped and no message is left.  With \<open>contract\<close>, the client asks for
  1 to 256 threads and at most \<open>INT32_MAX\<close> tasks, the mask fits its buffer, the device can be opened,
  and the service is run once.
\<close>

datatype sched_event =
    InitService int string string
  | AddTask
  | Run string bool
  | Poll nat act "rcu_mem \<Rightarrow> rcu_mem"
  | Wake nat nat act "rcu_mem \<Rightarrow> rcu_mem"
  | RunReturns

fun sched_exec :: "bool \<Rightarrow> nat \<Rightarrow> sched_event \<Rightarrow> sched \<Rightarrow> sched outcome" where
  "sched_exec contract main (InitService n config bdev_name) s =
     (if phase s = Running \<or> contract \<and> (phase s = Stopped \<or> n \<le> 0 \<or> 256 < n) then Blocked
      else Next ((init_service n config bdev_name s)\<lparr>phase := Setup\<rparr>))"
| "sched_exec contract main AddTask s =
     (if phase s = Running \<or> contract \<and> (phase s = Stopped \<or> INT32_MAX \<le> int (length (tasks s))) then Blocked
      else Next (add_task s))"
| "sched_exec contract main (Run cpus ok) s =
     (if phase s = Running \<or> num_threads s \<le> 0 \<or> contract \<and> (phase s = Stopped \<or> 13 < length cpus \<or> \<not> ok)
      then Blocked else execute cpus False ok main s)"
| "sched_exec contract main (Poll c a eff) s =
     (if phase s \<noteq> Running then Blocked
      else case msgs s c of
          [] \<Rightarrow> Blocked
        | m # rest \<Rightarrow> handle_msg c m a eff (s\<lparr>msgs := (msgs s)(c := rest)\<rparr>))"
| "sched_exec contract main (Wake c h a eff) s =
     (if phase s \<noteq> Running \<or> int c \<ge> num_threads s \<or> exited s c \<or> frame s h \<noteq> Co_Wait then Blocked
      else resume_task c h a eff s)"
| "sched_exec contract main RunReturns s =
     (if phase s = Running \<and> 0 < stops s \<and> list_all (\<lambda>c. msgs s c = []) [0..<nat (num_threads s)]
      then Next (s\<lparr>phase := Stopped, exited := (\<lambda>_. False), stops := 0\<rparr>) else Blocked)"

lemmas sched_defs = init_service_def add_task_def spdk_thread_send_msg_def put_io_channel_def
  get_io_channel_def thread_init_get_channel_def thread_exit_def service_exit_def task_done_def
  yield_await_suspend_def task_run_rest_def resume_task_def task_run_def service_thread_run_def
  service_thread_run_yield_def open_device_def get_bdev_def scheduler_init_def execute_def Let_def

section \<open>Counting messages\<close>

definition occ :: "nat \<Rightarrow> (nat \<Rightarrow> msg list) \<Rightarrow> msg \<Rightarrow> nat" where
  "occ n f m = (\<Sum>c<n. count_list (f c) m)"

lemma occ_upd: "k < n \<Longrightarrow> occ n (f(k := xs)) m + count_list (f k) m = occ n f m + count_list xs m"
proof -
  assume k: "k < n"
  have "occ n g m = count_list (g k) m + (\<Sum>c\<in>{..<n} - {k}. count_list (g c) m)" for g
    using k unfolding occ_def by (intro sum.remove) auto
  from this [of f] this [of "f(k := xs)"] show ?thesis by simp
qed

lemma occ_send: "k < n \<Longrightarrow> occ n (f(k := f k @ [x])) m = occ n f m + (if x = m then 1 else 0)"
  using occ_upd [of k n f "f k @ [x]" m] by (simp split: if_splits)

lemma occ_pop: "k < n \<Longrightarrow> f k = x # r \<Longrightarrow> occ n (f(k := r)) m = occ n f m - (if x = m then 1 else 0)"
  using occ_upd [of k n f r m] by (simp split: if_splits)

lemma occ_0: "occ n f m = 0 \<longleftrightarrow> (\<forall>c<n. m \<notin> set (f c))"
  by (auto simp: occ_def count_list_0_iff)

lemma occ_pos: "k < n \<Longrightarrow> m \<in> set (f k) \<Longrightarrow> 0 < occ n f m"
  using occ_0 [of n f m] by auto

section \<open>The start\<close>

text \<open>What \<open>scheduler_init\<close> has put into the queue of a core: the request for its channel, then its tasks.\<close>

definition first_msg :: "nat \<Rightarrow> nat \<Rightarrow> msg list" where
  "first_msg n k = (if 0 < k \<and> k < n then [GetChannel k] else [])"

definition share :: "nat \<Rightarrow> nat \<Rightarrow> nat \<Rightarrow> nat list" where
  "share n k j = filter (\<lambda>i. i mod n = k) [0..<j]"

definition created :: "nat \<Rightarrow> sched \<Rightarrow> sched" where
  "created j s = (if j = 0 then s else
     s\<lparr>main_thread := Some 0, channels := (channels s)(0 := ChanOpen),
       threads := (\<lambda>k. if k < j then Some k else threads s k), msgs := first_msg j\<rparr>)"

lemma created_Suc:
  assumes "desc s = DescOpen" "\<And>k. \<not> exited s k" "\<And>k. msgs s k = []" "j < 256"
  shows "bind_outcome
       (if 256 \<le> j then Fault OutOfBounds
        else if j \<noteq> 0 then spdk_thread_send_msg (Some j) (GetChannel j) (created j s)
        else get_io_channel j ((created j s)\<lparr>main_thread := Some j\<rparr>))
       (\<lambda>s1. Next (s1\<lparr>threads := (threads s1)(j := Some j)\<rparr>)) = Next (created (Suc j) s)"
proof (cases "j = 0")
  case True
  have "msgs s = first_msg 1" using assms(3) by (auto simp: first_msg_def)
  with True assms show ?thesis by (auto simp: get_io_channel_def created_def fun_eq_iff)
next
  case False
  have "(first_msg j)(j := first_msg j j @ [GetChannel j]) = first_msg (Suc j)"
    using False by (auto simp: first_msg_def fun_eq_iff)
  moreover have "(\<lambda>k. if k < j then Some k else threads s k)(j := Some j) =
      (\<lambda>k. if k < Suc j then Some k else threads s k)" by auto
  ultimately show ?thesis using False assms by (simp add: spdk_thread_send_msg_def created_def)
qed

lemma create_threads_created:
  assumes "desc s = DescOpen" "\<And>k. \<not> exited s k" "\<And>k. msgs s k = []"
  shows "j \<le> n \<Longrightarrow> n \<le> 256 \<Longrightarrow> create_threads 0 [j..<n] (created j s) = Next (created n s)"
proof (induction "n - j" arbitrary: j)
  case 0
  then show ?case by simp
next
  case (Suc d)
  then have j: "j < n" and u: "[j..<n] = j # [Suc j..<n]" by (auto simp: upt_rec)
  have IH: "create_threads 0 [Suc j..<n] (created (Suc j) s) = Next (created n s)"
    using Suc.hyps(1) [of "Suc j"] Suc.hyps(2) Suc.prems j by simp
  from created_Suc [OF assms, of j] j Suc.prems show ?case
    unfolding u create_threads.simps using IH
    by (cases "if 256 \<le> j then Fault OutOfBounds
        else if j \<noteq> 0 then spdk_thread_send_msg (Some j) (GetChannel j) (created j s)
        else get_io_channel j ((created j s)\<lparr>main_thread := Some j\<rparr>)") (simp_all split del: if_split)
qed

definition distributed :: "nat \<Rightarrow> nat \<Rightarrow> sched \<Rightarrow> sched" where
  "distributed n j s = s\<lparr>alive_tasks := int j,
     msgs := (\<lambda>k. msgs s k @ (if k < n then map RunTask (share n k j) else []))\<rparr>"

lemma distribute_distributed:
  assumes "0 < n" "nat (num_threads s) = n" "\<And>k. k < n \<Longrightarrow> threads s k = Some k" "\<And>k. \<not> exited s k"
  shows "j \<le> l \<Longrightarrow> int l \<le> INT32_MAX \<Longrightarrow>
    distribute [j..<l] (distributed n j s) = Next (distributed n l s)"
proof (induction "l - j" arbitrary: j)
  case 0
  then show ?case by simp
next
  case (Suc d)
  then have j: "j < l" and u: "[j..<l] = j # [Suc j..<l]" by (auto simp: upt_rec)
  have m: "j mod n < n" using assms(1) by simp
  have "(msgs (distributed n j s))(j mod n := msgs (distributed n j s) (j mod n) @ [RunTask j]) =
      msgs (distributed n (Suc j) s)"
    using m by (auto simp: distributed_def share_def fun_eq_iff)
  then have "spdk_thread_send_msg (threads (distributed n j s) (j mod nat (num_threads (distributed n j s))))
      (RunTask j) ((distributed n j s)\<lparr>alive_tasks := alive_tasks (distributed n j s) + 1\<rparr>) =
      Next (distributed n (Suc j) s)"
    using assms m by (simp add: spdk_thread_send_msg_def distributed_def)
  moreover have "alive_tasks (distributed n j s) \<noteq> INT32_MAX" using j Suc.prems by (simp add: distributed_def)
  moreover have "distribute [Suc j..<l] (distributed n (Suc j) s) = Next (distributed n l s)"
    using Suc.hyps(1) [of "Suc j"] Suc.hyps(2) Suc.prems j by simp
  ultimately show ?case unfolding u by simp
qed

definition exiting :: "nat \<Rightarrow> sched \<Rightarrow> sched" where
  "exiting j s = (if j = 0 then s else
     s\<lparr>channels := (channels s)(0 := ChanPut),
       msgs := (\<lambda>k. msgs s k @ (if 0 < k \<and> k < j then [ThreadExit k] else []))\<rparr>)"

lemma exit_threads_exiting:
  assumes "channels s 0 = ChanOpen" "\<And>k. k < n \<Longrightarrow> threads s k = Some k" "\<And>k. \<not> exited s k"
  shows "j \<le> n \<Longrightarrow> exit_threads [j..<n] (exiting j s) = Next (exiting n s)"
proof (induction "n - j" arbitrary: j)
  case 0
  then show ?case by simp
next
  case (Suc d)
  then have j: "j < n" and u: "[j..<n] = j # [Suc j..<n]" by (auto simp: upt_rec)
  have "(if j = 0 then put_io_channel j (exiting j s)
      else spdk_thread_send_msg (threads (exiting j s) j) (ThreadExit j) (exiting j s)) = Next (exiting (Suc j) s)"
  proof (cases "j = 0")
    case True
    have "(\<lambda>k. msgs s k @ (if 0 < k \<and> k = 0 then [ThreadExit k] else [])) = msgs s" by auto
    with True assms(1) show ?thesis by (simp add: put_io_channel_def exiting_def)
  next
    case False
    have "(msgs (exiting j s))(j := msgs (exiting j s) j @ [ThreadExit j]) = msgs (exiting (Suc j) s)"
      using False by (auto simp: exiting_def fun_eq_iff)
    with False assms j show ?thesis by (simp add: spdk_thread_send_msg_def exiting_def)
  qed
  moreover have "exit_threads [Suc j..<n] (exiting (Suc j) s) = Next (exiting n s)"
    using Suc.hyps(1) [of "Suc j"] Suc.hyps(2) j by simp
  ultimately show ?case unfolding u exit_threads.simps by simp
qed

lemma service_exit_exiting:
  assumes "channels s 0 = ChanOpen" "\<And>k. k < nat (num_threads s) \<Longrightarrow> threads s k = Some k"
    "\<And>k. \<not> exited s k"
  shows "service_exit s =
    Next ((exiting (nat (num_threads s)) s)\<lparr>desc := DescClosed, stops := Suc (stops s)\<rparr>)"
proof -
  have "exit_threads [0..<nat (num_threads s)] (exiting 0 s) = Next (exiting (nat (num_threads s)) s)"
    by (rule exit_threads_exiting) (use assms in auto)
  moreover have "exiting 0 s = s" "stops (exiting (nat (num_threads s)) s) = stops s" by (simp_all add: exiting_def)
  ultimately show ?thesis by (simp add: service_exit_def)
qed

section \<open>Invariant\<close>

text \<open>
  Before \<open>run\<close>: nothing has happened to the tasks.  While they run: every message is for the core
  it is queued on, and the request for the channel comes first (\<open>shape_ok\<close>); \<open>alive_tasks\<close> counts
  the tasks that are not done and the notices of the main thread's queue (\<open>count_ok\<close>); each task is
  in one place (\<open>task_ok\<close>).  After \<open>service_exit\<close> only requests for channels and exit messages are
  left (\<open>shut_inv\<close>).
\<close>

definition nt :: "sched \<Rightarrow> nat" where "nt s = nat (num_threads s)"

definition setup_ok :: "sched \<Rightarrow> bool" where
  "setup_ok s \<longleftrightarrow> (\<forall>c. msgs s c = []) \<and> num_threads s \<le> 256 \<and> stops s = 0 \<and>
     (\<forall>c. \<not> exited s c) \<and> alive_tasks s = 0 \<and> int (length (tasks s)) \<le> INT32_MAX \<and>
     tasks s = map Some [0..<length (tasks s)] \<and> (\<forall>i. wrapper s i = W_None) \<and>
     (\<forall>i. frame s i = (if i < length (tasks s) then Co_New else Co_Gone))"

definition setup_inv :: "sched \<Rightarrow> bool" where
  "setup_inv s \<longleftrightarrow> phase s = Setup \<and> length (cpumask s) = 16 \<and> setup_ok s"

fun msg_ok :: "nat \<Rightarrow> nat \<Rightarrow> msg \<Rightarrow> bool" where
  "msg_ok n c (GetChannel k) \<longleftrightarrow> k = c \<and> c \<noteq> 0"
| "msg_ok n c (RunTask i) \<longleftrightarrow> c = i mod n"
| "msg_ok n c (ResumeYield h) \<longleftrightarrow> True"
| "msg_ok n c TaskDone \<longleftrightarrow> c = 0"
| "msg_ok n c (ThreadExit k) \<longleftrightarrow> False"

definition chan_ok :: "nat \<Rightarrow> channel_state \<Rightarrow> msg list \<Rightarrow> bool" where
  "chan_ok c ch q \<longleftrightarrow> ch = ChanOpen \<and> GetChannel c \<notin> set q \<or>
     c \<noteq> 0 \<and> (\<exists>r. q = GetChannel c # r \<and> GetChannel c \<notin> set r)"

definition static_ok :: "sched \<Rightarrow> bool" where
  "static_ok s \<longleftrightarrow> phase s = Running \<and> 0 < nt s \<and> main_thread s = Some 0 \<and> (\<forall>c<nt s. threads s c = Some c) \<and>
     (\<forall>c. \<not> exited s c) \<and> desc s = DescOpen \<and> stops s = 0 \<and> nt s \<le> 256"

definition shape_ok :: "sched \<Rightarrow> bool" where
  "shape_ok s \<longleftrightarrow> static_ok s \<and> (\<forall>c m. m \<in> set (msgs s c) \<longrightarrow> c < nt s \<and> msg_ok (nt s) c m) \<and>
     (\<forall>c<nt s. chan_ok c (channels s c) (msgs s c))"

definition unfinished :: "sched \<Rightarrow> nat set" where
  "unfinished s = {i. frame s i \<noteq> Co_Gone}"

definition count_ok :: "sched \<Rightarrow> bool" where
  "count_ok s \<longleftrightarrow> 0 < alive_tasks s \<and> finite (unfinished s) \<and>
     alive_tasks s = int (card (unfinished s) + occ (nt s) (msgs s) TaskDone)"

text \<open>
  The numbers of messages that start and resume task \<open>i\<close>, whether it is in the vector, its handle
  there, its frame, its wrapper, and whether the wrapper is kept.
\<close>

definition task_rel :: "nat \<Rightarrow> nat \<Rightarrow> nat \<Rightarrow> bool \<Rightarrow> nat option \<Rightarrow> co_frame \<Rightarrow> wrapper_frame \<Rightarrow> bool \<Rightarrow> bool" where
  "task_rel i starts yields present t fr w kept \<longleftrightarrow>
     starts = (if fr = Co_New then 1 else 0) \<and> yields = (if fr = Co_Yield then 1 else 0) \<and>
     (present \<longrightarrow> t = (if fr = Co_New then Some i else None)) \<and> (\<not> present \<longrightarrow> fr = Co_Gone) \<and>
     (w = W_Await \<longleftrightarrow> fr = Co_Yield \<or> fr = Co_Wait) \<and> (w = W_Await \<longrightarrow> kept) \<and>
     (fr = Co_New \<longrightarrow> w = W_None)"

definition task_ok :: "sched \<Rightarrow> nat \<Rightarrow> bool" where
  "task_ok s i \<longleftrightarrow> task_rel i (occ (nt s) (msgs s) (RunTask i)) (occ (nt s) (msgs s) (ResumeYield i))
     (i < length (tasks s)) (tasks s ! i) (frame s i) (wrapper s i) (i \<in> set (wrapper_tasks s))"

text \<open>Task \<open>h\<close> is being resumed: nothing refers to it.\<close>

definition active :: "sched \<Rightarrow> nat \<Rightarrow> bool" where
  "active s h \<longleftrightarrow> occ (nt s) (msgs s) (RunTask h) = 0 \<and> occ (nt s) (msgs s) (ResumeYield h) = 0 \<and>
     h < length (tasks s) \<and> tasks s ! h = None \<and> wrapper s h = W_Await \<and> frame s h \<noteq> Co_Gone"

definition live_inv :: "sched \<Rightarrow> bool" where
  "live_inv s \<longleftrightarrow> shape_ok s \<and> count_ok s \<and> (\<forall>i. task_ok s i)"

definition shut_inv :: "sched \<Rightarrow> bool" where
  "shut_inv s \<longleftrightarrow> phase s = Running \<and> 0 < nt s \<and> nt s \<le> 256 \<and> desc s = DescClosed \<and> stops s = 1 \<and> alive_tasks s = 0 \<and>
     (\<forall>i. frame s i = Co_Gone) \<and> channels s 0 = ChanPut \<and> msgs s 0 = [] \<and> (\<forall>c\<ge>nt s. msgs s c = []) \<and>
     (\<forall>c. 0 < c \<longrightarrow> c < nt s \<longrightarrow>
        \<not> exited s c \<and> msgs s c = [GetChannel c, ThreadExit c] \<or>
        \<not> exited s c \<and> channels s c = ChanOpen \<and> msgs s c = [ThreadExit c] \<or>
        exited s c \<and> channels s c = ChanPut \<and> msgs s c = [])"

definition sched_inv :: "sched \<Rightarrow> bool" where
  "sched_inv s \<longleftrightarrow> (case phase s of Setup \<Rightarrow> setup_inv s | Running \<Rightarrow> live_inv s \<or> shut_inv s | Stopped \<Rightarrow> True)"

lemma sched_inv_init: "sched_inv sched_boot"
  by (simp add: sched_inv_def setup_inv_def setup_ok_def sched_boot_def INT32_MAX_def zeros_def)

lemma setup_add_task: "setup_inv s \<Longrightarrow> int (length (tasks s)) < INT32_MAX \<Longrightarrow> setup_inv (add_task s)"
  by (auto simp: setup_inv_def setup_ok_def add_task_def less_Suc_eq)

section \<open>Steps of running tasks\<close>

lemma shape_okD:
  assumes "shape_ok s"
  shows "static_ok s" "m \<in> set (msgs s c) \<Longrightarrow> c < nt s" "m \<in> set (msgs s c) \<Longrightarrow> msg_ok (nt s) c m"
    "c < nt s \<Longrightarrow> chan_ok c (channels s c) (msgs s c)"
  using assms by (auto simp: shape_ok_def)

lemma static_okD:
  assumes "static_ok s"
  shows "phase s = Running" "0 < nt s" "main_thread s = Some 0" "c < nt s \<Longrightarrow> threads s c = Some c"
    "\<not> exited s c" "desc s = DescOpen" "stops s = 0" "nt s \<le> 256"
  using assms by (auto simp: static_ok_def)

lemma shape_okI:
  assumes "static_ok s" "\<And>c m. m \<in> set (msgs s c) \<Longrightarrow> c < nt s \<and> msg_ok (nt s) c m"
    "\<And>c. c < nt s \<Longrightarrow> chan_ok c (channels s c) (msgs s c)"
  shows "shape_ok s"
  using assms by (auto simp: shape_ok_def)

text \<open>A state that differs in the queue of \<open>c\<close> only, as far as the shape is concerned.\<close>

definition same_shape :: "sched \<Rightarrow> sched \<Rightarrow> bool" where
  "same_shape s s' \<longleftrightarrow> phase s' = phase s \<and> num_threads s' = num_threads s \<and> main_thread s' = main_thread s \<and>
     threads s' = threads s \<and> exited s' = exited s \<and> desc s' = desc s \<and> stops s' = stops s \<and> channels s' = channels s"

lemma same_shape_nt: "same_shape s s' \<Longrightarrow> nt s' = nt s"
  by (simp add: same_shape_def nt_def)

lemma same_shape_static: "same_shape s s' \<Longrightarrow> static_ok s \<Longrightarrow> static_ok s'"
  by (simp add: static_ok_def same_shape_def nt_def)

lemma shape_cong:
  assumes "shape_ok s" "same_shape s s'" "msgs s' = msgs s"
  shows "shape_ok s'"
  using shape_okD [OF assms(1)] same_shape_static [OF assms(2)] assms(3) same_shape_nt [OF assms(2)] assms(2)
  by (intro shape_okI) (auto simp: same_shape_def)

lemma shape_send:
  assumes "shape_ok s" "same_shape s s'" "msgs s' = (msgs s)(c := msgs s c @ [m])" "c < nt s"
    "msg_ok (nt s) c m" "\<forall>k. m \<noteq> GetChannel k"
  shows "shape_ok s'"
proof (rule shape_okI)
  note d = shape_okD [OF assms(1)] and e = same_shape_nt [OF assms(2)]
  show "static_ok s'" by (rule same_shape_static [OF assms(2) d(1)])
  show "m' \<in> set (msgs s' c') \<Longrightarrow> c' < nt s' \<and> msg_ok (nt s') c' m'" for c' m'
    using d(2,3) assms(3-5) e by (auto split: if_splits)
  fix c' assume "c' < nt s'"
  with d(4) e have "chan_ok c' (channels s c') (msgs s c')" by simp
  then show "chan_ok c' (channels s' c') (msgs s' c')"
    using assms(2,3,6) by (auto simp: chan_ok_def same_shape_def)
qed

lemma shape_pop:
  assumes "shape_ok s" "msgs s c = m # r" "\<forall>k. m \<noteq> GetChannel k"
    and "same_shape s s'" "msgs s' = (msgs s)(c := r)"
  shows "c < nt s" "channels s c = ChanOpen" "shape_ok s'"
proof -
  note d = shape_okD [OF assms(1)] and e = same_shape_nt [OF assms(4)]
  show c: "c < nt s" by (rule d(2) [of m]) (simp add: assms(2))
  from d(4) [OF c] assms(2,3) show "channels s c = ChanOpen" by (auto simp: chan_ok_def)
  show "shape_ok s'"
  proof (rule shape_okI)
    show "static_ok s'" by (rule same_shape_static [OF assms(4) d(1)])
    show "m' \<in> set (msgs s' c') \<Longrightarrow> c' < nt s' \<and> msg_ok (nt s') c' m'" for c' m'
      using d(2,3) [of m' c'] assms(2,5) e by (auto split: if_splits)
    fix c' assume "c' < nt s'"
    with d(4) e have "chan_ok c' (channels s c') (msgs s c')" by simp
    then show "chan_ok c' (channels s' c') (msgs s' c')"
      using assms(2,3,4,5) by (auto simp: chan_ok_def same_shape_def)
  qed
qed

lemma task_ok_cong:
  assumes "task_ok s i" "nt s' = nt s" "frame s' i = frame s i" "wrapper s' i = wrapper s i"
    "length (tasks s') = length (tasks s)" "i < length (tasks s) \<Longrightarrow> tasks s' ! i = tasks s ! i"
    "set (wrapper_tasks s) \<subseteq> set (wrapper_tasks s')"
    "occ (nt s) (msgs s') (RunTask i) = occ (nt s) (msgs s) (RunTask i)"
    "occ (nt s) (msgs s') (ResumeYield i) = occ (nt s) (msgs s) (ResumeYield i)"
  shows "task_ok s' i"
proof -
  have "task_rel i a b p t f w k \<Longrightarrow> (p \<Longrightarrow> t' = t) \<Longrightarrow> (k \<Longrightarrow> k') \<Longrightarrow> task_rel i a b p t' f w k'" for a b p t t' f w k k'
    by (auto simp: task_rel_def)
  from this [OF assms(1) [unfolded task_ok_def] assms(6), of "i \<in> set (wrapper_tasks s')"] subsetD [OF assms(7)]
  have "task_rel i (occ (nt s) (msgs s) (RunTask i)) (occ (nt s) (msgs s) (ResumeYield i))
     (i < length (tasks s)) (tasks s' ! i) (frame s i) (wrapper s i) (i \<in> set (wrapper_tasks s'))" by blast
  then show ?thesis by (simp only: task_ok_def assms(2,3,4,5,8,9))
qed

lemma unfinished_upd:
  "unfinished (s\<lparr>frame := (frame s)(h := x)\<rparr>) = (if x = Co_Gone then unfinished s - {h} else insert h (unfinished s))"
  by (auto simp: unfinished_def)

lemma unfinished_frame: "frame s' = frame s \<Longrightarrow> unfinished s' = unfinished s"
  by (simp add: unfinished_def)

lemma card_unfinished: "finite (unfinished s) \<Longrightarrow> h \<in> unfinished s \<Longrightarrow>
    card (unfinished s) = Suc (card (unfinished s - {h}))"
  by (rule card.remove)

text \<open>
  The state in which task \<open>h\<close> is about to be resumed on core \<open>c\<close>: everything but \<open>h\<close> is in order.
\<close>

definition mid_inv :: "nat \<Rightarrow> nat \<Rightarrow> sched \<Rightarrow> bool" where
  "mid_inv c h s \<longleftrightarrow> shape_ok s \<and> count_ok s \<and> c < nt s \<and> active s h \<and> (\<forall>i. i \<noteq> h \<longrightarrow> task_ok s i)"

text \<open>What \<open>resume_task\<close> leaves: \<open>live_inv\<close>, once the wrapper of \<open>h\<close> is kept if it still waits.\<close>

definition done_inv :: "nat \<Rightarrow> sched \<Rightarrow> bool" where
  "done_inv h s \<longleftrightarrow> shape_ok s \<and> count_ok s \<and> (\<forall>i. i \<noteq> h \<longrightarrow> task_ok s i) \<and>
     task_ok (s\<lparr>wrapper_tasks := wrapper_tasks s @ [h]\<rparr>) h \<and> frame s h \<noteq> Co_New"

lemma task_ok_kept:
  assumes "task_ok (s\<lparr>wrapper_tasks := wt\<rparr>) h" "wrapper s h = W_Await \<Longrightarrow> h \<in> set (wrapper_tasks s)"
  shows "task_ok s h"
  using assms by (auto simp: task_ok_def task_rel_def nt_def)

lemma done_live: "done_inv h s \<Longrightarrow> h \<in> set (wrapper_tasks s) \<or> wrapper s h \<noteq> W_Await \<Longrightarrow> live_inv s"
  unfolding live_inv_def
proof (intro conjI allI)
  assume a: "done_inv h s" "h \<in> set (wrapper_tasks s) \<or> wrapper s h \<noteq> W_Await"
  then show "shape_ok s" "count_ok s" by (auto simp: done_inv_def)
  show "task_ok s i" for i
  proof (cases "i = h")
    case True
    show ?thesis unfolding True by (rule task_ok_kept) (use a in \<open>auto simp: done_inv_def\<close>)
  qed (use a in \<open>auto simp: done_inv_def\<close>)
qed

lemma resume_yields:
  assumes "mid_inv c h s"
  shows "\<exists>s'. resume_task c h Yields eff s = Next s' \<and> done_inv h s' \<and> wrapper s' = wrapper s \<and> wrapper_tasks s' = wrapper_tasks s \<and> nt s' = nt s"
proof -
  from assms have m: "shape_ok s" "count_ok s" "c < nt s" "active s h" "\<And>i. i \<noteq> h \<Longrightarrow> task_ok s i"
    by (auto simp: mid_inv_def)
  let ?s = "s\<lparr>mem := rcu_offline c (eff (mem s)), frame := (frame s)(h := Co_Yield),
    msgs := (msgs s)(c := msgs s c @ [ResumeYield h])\<rparr>"
  have nt: "nt ?s = nt s" by (simp add: nt_def)
  note o = occ_send [OF m(3), of "msgs s" "ResumeYield h"]
  have run: "resume_task c h Yields eff s = Next ?s"
    using static_okD(5) [OF shape_okD(1) [OF m(1)], of c]
    by (simp add: resume_task_def yield_await_suspend_def spdk_thread_send_msg_def Let_def)
  have "shape_ok ?s" by (rule shape_send [OF m(1) _ _ m(3), of _ "ResumeYield h"]) (simp_all add: same_shape_def)
  moreover have "unfinished ?s = unfinished s" using m(4) by (auto simp: unfinished_def active_def)
  then have "count_ok ?s" using m(2) o [of TaskDone] nt by (simp add: count_ok_def)
  moreover have "task_ok ?s i" if "i \<noteq> h" for i
    by (rule task_ok_cong [OF m(5) [OF that] nt]) (use that o [of "RunTask i"] o [of "ResumeYield i"] in simp_all)
  moreover have "task_ok (?s\<lparr>wrapper_tasks := wrapper_tasks ?s @ [h]\<rparr>) h"
    using m(4) o [of "RunTask h"] o [of "ResumeYield h"] nt by (simp add: task_ok_def task_rel_def active_def nt_def)
  ultimately have "done_inv h ?s" by (simp add: done_inv_def)
  with run nt show ?thesis by auto
qed

lemma resume_suspends:
  assumes "mid_inv c h s"
  shows "\<exists>s'. resume_task c h Suspends eff s = Next s' \<and> done_inv h s' \<and> wrapper s' = wrapper s \<and> wrapper_tasks s' = wrapper_tasks s \<and> nt s' = nt s"
proof -
  from assms have m: "shape_ok s" "count_ok s" "active s h" "\<And>i. i \<noteq> h \<Longrightarrow> task_ok s i"
    by (auto simp: mid_inv_def)
  let ?s = "s\<lparr>mem := eff (mem s), frame := (frame s)(h := Co_Wait)\<rparr>"
  have nt: "nt ?s = nt s" by (simp add: nt_def)
  have run: "resume_task c h Suspends eff s = Next ?s" by (simp add: resume_task_def Let_def)
  have "shape_ok ?s" by (rule shape_cong [OF m(1)]) (simp_all add: same_shape_def)
  moreover have "unfinished ?s = unfinished s" using m(3) by (auto simp: unfinished_def active_def)
  then have "count_ok ?s" using m(2) nt by (simp add: count_ok_def)
  moreover have "task_ok ?s i" if "i \<noteq> h" for i
    by (rule task_ok_cong [OF m(4) [OF that] nt]) (use that in simp_all)
  moreover have "task_ok (?s\<lparr>wrapper_tasks := wrapper_tasks ?s @ [h]\<rparr>) h"
    using m(3) nt by (simp add: task_ok_def task_rel_def active_def nt_def)
  ultimately have "done_inv h ?s" by (simp add: done_inv_def)
  with run nt show ?thesis by auto
qed

lemma resume_finishes:
  assumes "mid_inv c h s"
  shows "\<exists>s'. resume_task c h Finishes eff s = Next s' \<and> done_inv h s' \<and> wrapper s' = (wrapper s)(h := W_Done) \<and> wrapper_tasks s' = wrapper_tasks s \<and> nt s' = nt s"
proof -
  from assms have m: "shape_ok s" "count_ok s" "active s h" "\<And>i. i \<noteq> h \<Longrightarrow> task_ok s i"
    by (auto simp: mid_inv_def)
  note st = static_okD [OF shape_okD(1) [OF m(1)]]
  let ?s = "s\<lparr>mem := rcu_offline c (eff (mem s)), frame := (frame s)(h := Co_Gone),
    wrapper := (wrapper s)(h := W_Done), msgs := (msgs s)(0 := msgs s 0 @ [TaskDone])\<rparr>"
  have nt: "nt ?s = nt s" by (simp add: nt_def)
  note o = occ_send [OF st(2), of "msgs s" TaskDone]
  have run: "resume_task c h Finishes eff s = Next ?s"
    using st(3) st(5) [of 0] m(3)
    by (simp add: resume_task_def task_run_rest_def spdk_thread_send_msg_def Let_def active_def)
  have "shape_ok ?s" by (rule shape_send [OF m(1) _ _ st(2), of _ TaskDone]) (simp_all add: same_shape_def)
  moreover have u: "unfinished ?s = unfinished s - {h}" "h \<in> unfinished s"
    using m(3) by (auto simp: unfinished_def active_def)
  then have "count_ok ?s"
    using m(2) o [of TaskDone] nt card_unfinished [of s h] by (simp add: count_ok_def)
  moreover have "task_ok ?s i" if "i \<noteq> h" for i
    by (rule task_ok_cong [OF m(4) [OF that] nt]) (use that o [of "RunTask i"] o [of "ResumeYield i"] in simp_all)
  moreover have "task_ok (?s\<lparr>wrapper_tasks := wrapper_tasks ?s @ [h]\<rparr>) h"
    using m(3) nt o [of "RunTask h"] o [of "ResumeYield h"] by (simp add: task_ok_def task_rel_def active_def nt_def)
  ultimately have "done_inv h ?s" by (simp add: done_inv_def)
  with run nt show ?thesis by auto
qed

lemma resume_ok:
  assumes "mid_inv c h s"
  shows "\<exists>s'. resume_task c h a eff s = Next s' \<and> done_inv h s' \<and> wrapper_tasks s' = wrapper_tasks s \<and>
    (wrapper s' h = W_Done \<or> wrapper s' h = W_Await) \<and> nt s' = nt s"
proof -
  have w: "wrapper s h = W_Await" using assms by (simp add: mid_inv_def active_def)
  show ?thesis
  proof (cases a)
    case Yields
    with resume_yields [OF assms, of eff] w show ?thesis by fastforce
  next
    case Suspends
    with resume_suspends [OF assms, of eff] w show ?thesis by fastforce
  next
    case Finishes
    with resume_finishes [OF assms, of eff] show ?thesis by fastforce
  qed
qed

lemma live_invD:
  assumes "live_inv s"
  shows "shape_ok s" "count_ok s" "task_ok s i"
  using assms by (auto simp: live_inv_def)

lemma task_okD:
  assumes "task_ok s i"
  shows "occ (nt s) (msgs s) (RunTask i) = (if frame s i = Co_New then 1 else 0)"
    "occ (nt s) (msgs s) (ResumeYield i) = (if frame s i = Co_Yield then 1 else 0)"
    "frame s i \<noteq> Co_Gone \<Longrightarrow> i < length (tasks s)"
    "i < length (tasks s) \<Longrightarrow> tasks s ! i = (if frame s i = Co_New then Some i else None)"
    "wrapper s i = W_Await \<longleftrightarrow> frame s i = Co_Yield \<or> frame s i = Co_Wait"
    "wrapper s i = W_Await \<Longrightarrow> i \<in> set (wrapper_tasks s)"
  using assms by (auto simp: task_ok_def task_rel_def not_le split: if_splits)

text \<open>A task that waits in an awaiter other than \<open>yield\<close>.\<close>

lemma live_wake:
  assumes "live_inv s" "frame s h = Co_Wait" "c < nt s"
  shows "\<exists>s'. resume_task c h a eff s = Next s' \<and> live_inv s'"
proof -
  note d = live_invD [OF assms(1)] and t = task_okD [OF live_invD(3) [OF assms(1), of h]]
  have "active s h" using t assms(2) by (simp add: active_def)
  with d assms(3) have "mid_inv c h s" by (simp add: mid_inv_def)
  from resume_ok [OF this, of a eff] obtain s' where
    "resume_task c h a eff s = Next s'" "done_inv h s'" "wrapper_tasks s' = wrapper_tasks s" by blast
  moreover have "h \<in> set (wrapper_tasks s)" using t(5,6) assms(2) by simp
  ultimately show ?thesis using done_live by metis
qed

lemma live_yield:
  assumes "live_inv s" "msgs s c = ResumeYield h # r"
  shows "\<exists>s'. service_thread_run_yield c h a eff (s\<lparr>msgs := (msgs s)(c := r)\<rparr>) = Next s' \<and> live_inv s'"
proof -
  let ?s = "s\<lparr>msgs := (msgs s)(c := r)\<rparr>"
  note d = live_invD [OF assms(1)] and t = task_okD [OF live_invD(3) [OF assms(1), of h]]
  have sh: "c < nt s" "shape_ok ?s"
    using shape_pop [OF d(1) assms(2), of ?s] by (simp_all add: same_shape_def)
  have nt: "nt ?s = nt s" by (simp add: nt_def)
  note o = occ_pop [of c "nt s" "msgs s", OF sh(1) assms(2)]
  have "0 < occ (nt s) (msgs s) (ResumeYield h)" by (rule occ_pos [OF sh(1)]) (simp add: assms(2))
  then have f: "frame s h = Co_Yield" using t(2) by (simp split: if_splits)
  have "active ?s h" using t f o [of "RunTask h"] o [of "ResumeYield h"] nt by (simp add: active_def)
  moreover have "count_ok ?s" using d(2) o [of TaskDone] nt by (simp add: count_ok_def unfinished_def)
  moreover have "task_ok ?s i" if "i \<noteq> h" for i
    by (rule task_ok_cong [OF d(3) nt]) (use that o [of "RunTask i"] o [of "ResumeYield i"] in simp_all)
  ultimately have "mid_inv c h ?s" using sh nt by (simp add: mid_inv_def)
  from resume_ok [OF this, of a eff] obtain s' where
    "resume_task c h a eff ?s = Next s'" "done_inv h s'" "wrapper_tasks s' = wrapper_tasks s" by auto
  moreover have "h \<in> set (wrapper_tasks s)" using t(5,6) f by simp
  ultimately show ?thesis using done_live f by (auto simp: service_thread_run_yield_def)
qed

lemma live_run:
  assumes "live_inv s" "msgs s c = RunTask i # r"
  shows "\<exists>s'. service_thread_run c i a eff (s\<lparr>msgs := (msgs s)(c := r)\<rparr>) = Next s' \<and> live_inv s'"
proof -
  let ?s = "s\<lparr>msgs := (msgs s)(c := r), tasks := (tasks s)[i := None], wrapper := (wrapper s)(i := W_Await)\<rparr>"
  note d = live_invD [OF assms(1)] and t = task_okD [OF live_invD(3) [OF assms(1), of i]]
  have sh: "c < nt s" "shape_ok ?s"
    using shape_pop [OF d(1) assms(2), of ?s] by (simp_all add: same_shape_def)
  have nt: "nt ?s = nt s" by (simp add: nt_def)
  note o = occ_pop [of c "nt s" "msgs s", OF sh(1) assms(2)]
  have "0 < occ (nt s) (msgs s) (RunTask i)" by (rule occ_pos [OF sh(1)]) (simp add: assms(2))
  then have f: "frame s i = Co_New" using t(1) by (simp split: if_splits)
  then have l: "i < length (tasks s)" "tasks s ! i = Some i" using t(3,4) by simp_all
  have "active ?s i" using t f l o [of "RunTask i"] o [of "ResumeYield i"] nt by (simp add: active_def)
  moreover have "count_ok ?s" using d(2) o [of TaskDone] nt by (simp add: count_ok_def unfinished_def)
  moreover have "task_ok ?s j" if "j \<noteq> i" for j
    by (rule task_ok_cong [OF d(3) nt]) (use that o [of "RunTask j"] o [of "ResumeYield j"] in simp_all)
  ultimately have "mid_inv c i ?s" using sh nt by (simp add: mid_inv_def)
  from resume_ok [OF this, of a eff] obtain s1 where s1: "resume_task c i a eff ?s = Next s1" "done_inv i s1"
    "wrapper s1 i = W_Done \<or> wrapper s1 i = W_Await" by auto
  have run: "task_run c i a eff (s\<lparr>msgs := (msgs s)(c := r)\<rparr>) = Next s1"
    using s1(1) f l by (simp add: task_run_def)
  show ?thesis
  proof (cases "wrapper s1 i = W_Done")
    case True
    let ?s1 = "s1\<lparr>wrapper := (wrapper s1)(i := W_None)\<rparr>"
    have ok: "live_inv s1" by (rule done_live [OF s1(2)]) (simp add: True)
    have nt1: "nt ?s1 = nt s1" by (simp add: nt_def)
    have "shape_ok ?s1" by (rule shape_cong [OF live_invD(1) [OF ok]]) (simp_all add: same_shape_def)
    moreover have "count_ok ?s1" using live_invD(2) [OF ok] nt1 by (simp add: count_ok_def unfinished_def)
    moreover have "task_ok ?s1 j" for j
    proof (cases "j = i")
      case True
      with live_invD(3) [OF ok, of i] \<open>wrapper s1 i = W_Done\<close> nt1 show ?thesis
        by (auto simp: task_ok_def task_rel_def)
    next
      case False
      then show ?thesis by (intro task_ok_cong [OF live_invD(3) [OF ok] nt1]) simp_all
    qed
    ultimately have "live_inv ?s1" by (simp add: live_inv_def)
    with run True show ?thesis by (simp add: service_thread_run_def)
  next
    case False
    let ?s1 = "s1\<lparr>wrapper_tasks := wrapper_tasks s1 @ [i]\<rparr>"
    have nt1: "nt ?s1 = nt s1" by (simp add: nt_def)
    have d1: "shape_ok s1" "count_ok s1" "\<And>j. j \<noteq> i \<Longrightarrow> task_ok s1 j" "task_ok ?s1 i"
      using s1(2) by (auto simp: done_inv_def)
    have "shape_ok ?s1" by (rule shape_cong [OF d1(1)]) (simp_all add: same_shape_def)
    moreover have "count_ok ?s1" using d1(2) nt1 by (simp add: count_ok_def unfinished_def)
    moreover have "task_ok ?s1 j" for j
    proof (cases "j = i")
      case False
      then show ?thesis by (intro task_ok_cong [OF d1(3) nt1]) auto
    qed (simp add: d1(4))
    ultimately have "live_inv ?s1" by (simp add: live_inv_def)
    with run False show ?thesis by (simp add: service_thread_run_def)
  qed
qed

section \<open>Channels and shutdown\<close>

lemma live_channel:
  assumes "live_inv s" "msgs s c = GetChannel k # r"
  shows "\<exists>s'. thread_init_get_channel k (s\<lparr>msgs := (msgs s)(c := r)\<rparr>) = Next s' \<and> live_inv s'"
proof -
  note d = live_invD [OF assms(1)]
  have c: "c < nt s" "k = c" using shape_okD(2,3) [OF d(1), of "GetChannel k" c] assms(2) by simp_all
  let ?s = "s\<lparr>msgs := (msgs s)(c := r), channels := (channels s)(c := ChanOpen)\<rparr>"
  note st = static_okD [OF shape_okD(1) [OF d(1)]]
  have nt: "nt ?s = nt s" by (simp add: nt_def)
  have run: "thread_init_get_channel k (s\<lparr>msgs := (msgs s)(c := r)\<rparr>) = Next ?s"
    using c st(6,8) by (simp add: thread_init_get_channel_def get_io_channel_def)
  note o = occ_pop [of c "nt s" "msgs s", OF c(1) assms(2)]
  have "GetChannel c \<notin> set r" using shape_okD(4) [OF d(1) c(1)] assms(2) c(2) by (auto simp: chan_ok_def)
  moreover have "static_ok ?s" using shape_okD(1) [OF d(1)] nt by (simp add: static_ok_def)
  ultimately have "shape_ok ?s"
    using shape_okD(2-4) [OF d(1)] assms(2) c nt
    by (intro shape_okI) (auto simp: chan_ok_def split: if_splits)
  moreover have "count_ok ?s" using d(2) nt o [of TaskDone] by (simp add: count_ok_def unfinished_def)
  moreover have "task_ok ?s i" for i
    by (rule task_ok_cong [OF d(3) nt]) (use o [of "RunTask i"] o [of "ResumeYield i"] in simp_all)
  ultimately show ?thesis using run by (auto simp: live_inv_def)
qed

text \<open>When nothing but requests for channels is queued, \<open>service_exit\<close> starts the shutdown.\<close>

lemma service_exit_shut:
  assumes "shape_ok s" "alive_tasks s = 0" "\<And>i. frame s i = Co_Gone"
    and only: "\<And>c m. m \<in> set (msgs s c) \<Longrightarrow> \<exists>k. m = GetChannel k"
  shows "\<exists>s'. service_exit s = Next s' \<and> shut_inv s'"
proof -
  note d = shape_okD [OF assms(1)] and st = static_okD [OF shape_okD(1) [OF assms(1)]]
  have q: "msgs s c = [] \<and> channels s c = ChanOpen \<or> c \<noteq> 0 \<and> msgs s c = [GetChannel c]" if c: "c < nt s" for c
  proof (cases "msgs s c")
    case Nil
    with d(4) [OF c] show ?thesis by (auto simp: chan_ok_def)
  next
    case (Cons m r)
    have g: "m' = GetChannel c \<and> c \<noteq> 0" if "m' \<in> set (msgs s c)" for m'
      using only [OF that] d(3) [OF that] by auto
    from d(4) [OF c] g Cons have "GetChannel c \<notin> set r" by (auto simp: chan_ok_def)
    with g Cons have "r = []" by (cases r) auto
    with g Cons show ?thesis by auto
  qed
  have ch: "channels s 0 = ChanOpen" "msgs s 0 = []" using q [OF st(2)] by auto
  let ?s = "(exiting (nt s) s)\<lparr>desc := DescClosed, stops := Suc (stops s)\<rparr>"
  have run: "service_exit s = Next ?s"
    using service_exit_exiting [of s] ch st(4,5) by (simp add: nt_def)
  have nt: "nt ?s = nt s" by (simp add: nt_def exiting_def)
  have out: "msgs s c = []" if "nt s \<le> c" for c
  proof (rule ccontr)
    assume "msgs s c \<noteq> []"
    then have "hd (msgs s c) \<in> set (msgs s c)" by simp
    from d(2) [OF this] that show False by simp
  qed
  have "\<not> exited ?s c \<and> msgs ?s c = [GetChannel c, ThreadExit c] \<or>
      \<not> exited ?s c \<and> channels ?s c = ChanOpen \<and> msgs ?s c = [ThreadExit c]" if "0 < c" "c < nt s" for c
    using q [OF that(2)] that st(2,5) by (auto simp: exiting_def)
  moreover have "msgs ?s 0 = []" "channels ?s 0 = ChanPut" "phase ?s = Running" "alive_tasks ?s = 0" "stops ?s = 1"
    "\<forall>i. frame ?s i = Co_Gone" "\<forall>c\<ge>nt s. msgs ?s c = []"
    using st(1,2,7) ch assms(2,3) out by (auto simp: exiting_def)
  ultimately have "shut_inv ?s" using st(2,8) unfolding shut_inv_def nt by auto
  with run show ?thesis by blast
qed

lemma occ_only:
  assumes "\<And>i. occ (nt s) (msgs s) (RunTask i) = 0" "\<And>i. occ (nt s) (msgs s) (ResumeYield i) = 0"
    "occ (nt s) (msgs s) TaskDone = 0" "shape_ok s" "m \<in> set (msgs s c)"
  shows "\<exists>k. m = GetChannel k"
proof -
  have c: "c < nt s" by (rule shape_okD(2) [OF assms(4,5)])
  from assms(1-3) c assms(5) shape_okD(3) [OF assms(4,5)] show ?thesis
    by (cases m) (auto simp: occ_0)
qed

lemma live_task_done:
  assumes "live_inv s" "msgs s c = TaskDone # r"
  shows "\<exists>s'. task_done (s\<lparr>msgs := (msgs s)(c := r)\<rparr>) = Next s' \<and> (live_inv s' \<or> shut_inv s')"
proof -
  let ?s = "s\<lparr>msgs := (msgs s)(c := r), alive_tasks := alive_tasks s - 1\<rparr>"
  note d = live_invD [OF assms(1)]
  have sh: "c < nt s" "shape_ok ?s"
    using shape_pop [OF d(1) assms(2), of ?s] by (simp_all add: same_shape_def)
  have nt: "nt ?s = nt s" by (simp add: nt_def)
  note o = occ_pop [of c "nt s" "msgs s", OF sh(1) assms(2)]
  have p: "0 < occ (nt s) (msgs s) TaskDone" by (rule occ_pos [OF sh(1)]) (simp add: assms(2))
  have t: "task_ok ?s i" for i
    by (rule task_ok_cong [OF d(3) nt]) (use o [of "RunTask i"] o [of "ResumeYield i"] in simp_all)
  have u: "unfinished ?s = unfinished s" by (simp add: unfinished_def)
  show ?thesis
  proof (cases "alive_tasks s = 1")
    case False
    then have "count_ok ?s" using d(2) o [of TaskDone] p nt u by (auto simp: count_ok_def)
    with sh t have "live_inv ?s" by (simp add: live_inv_def)
    with False show ?thesis by (auto simp: task_done_def Let_def)
  next
    case True
    with d(2) have "finite (unfinished s)" "int (card (unfinished s) + occ (nt s) (msgs s) TaskDone) = 1"
      by (simp_all add: count_ok_def)
    with p have z: "unfinished s = {}" "occ (nt s) (msgs s) TaskDone = 1"
      by (simp_all flip: card_0_eq)
    then have g: "frame s i = Co_Gone" for i by (auto simp: unfinished_def)
    have "\<exists>s'. service_exit ?s = Next s' \<and> shut_inv s'"
    proof (rule service_exit_shut [OF sh(2)])
      show "\<exists>k. m = GetChannel k" if "m \<in> set (msgs ?s c')" for c' m
        by (rule occ_only [OF _ _ _ sh(2) that])
          (use task_okD(1,2) [OF t] g o [of TaskDone] z nt in simp_all)
    qed (use True g in simp_all)
    with True show ?thesis by (auto simp: task_done_def Let_def)
  qed
qed

text \<open>During the shutdown, a core that has no channel yet finds the device closed.\<close>

lemma shut_poll:
  assumes "shut_inv s" "msgs s c = m # r"
  shows "m = GetChannel c \<and> handle_msg c m a eff (s\<lparr>msgs := (msgs s)(c := r)\<rparr>) = Fault UseAfterFree \<or>
    m = ThreadExit c \<and> (\<exists>s'. handle_msg c m a eff (s\<lparr>msgs := (msgs s)(c := r)\<rparr>) = Next s' \<and> shut_inv s')"
proof -
  have c: "0 < c" "c < nt s" using assms by (auto simp: shut_inv_def intro: gr0I leI)
  have s: "desc s = DescClosed" using assms(1) by (simp add: shut_inv_def)
  from assms(1) c consider "msgs s c = [GetChannel c, ThreadExit c]" |
    "\<not> exited s c" "channels s c = ChanOpen" "msgs s c = [ThreadExit c]" | "msgs s c = []"
    unfolding shut_inv_def by blast
  then show ?thesis
  proof cases
    case 1
    with assms(2) s show ?thesis by (auto simp: thread_init_get_channel_def get_io_channel_def)
  next
    case 2
    with assms(2) have m: "m = ThreadExit c" "r = []" by simp_all
    let ?s = "s\<lparr>msgs := (msgs s)(c := []), channels := (channels s)(c := ChanPut), exited := (exited s)(c := True)\<rparr>"
    have nt: "nt ?s = nt s" by (simp add: nt_def)
    have "shut_inv ?s" using assms(1) c unfolding shut_inv_def nt by auto
    moreover have "handle_msg c m a eff (s\<lparr>msgs := (msgs s)(c := r)\<rparr>) = Next ?s"
      using m 2(2) by (simp add: thread_exit_def put_io_channel_def)
    ultimately show ?thesis using m by blast
  qed (use assms(2) in simp)
qed

section \<open>From the setup to running tasks\<close>

lemma count_list_distinct: "distinct xs \<Longrightarrow> count_list xs x = (if x \<in> set xs then 1 else 0)"
  by (induction xs) auto

lemma count_share: "count_list (map RunTask (share n k j)) (RunTask i) = (if i < j \<and> i mod n = k then 1 else 0)"
  using count_list_distinct [of "map RunTask (share n k j)" "RunTask i"]
  by (auto simp: share_def distinct_map inj_on_def)

text \<open>The state after \<open>scheduler_init\<close> has distributed the tasks.\<close>

definition started :: "sched \<Rightarrow> sched" where
  "started s = distributed (nt s) (length (tasks s)) (created (nt s) (s\<lparr>desc := DescOpen\<rparr>))"

lemma started_simps:
  assumes "setup_ok s" "0 < nt s"
  shows "msgs (started s) k = first_msg (nt s) k @ (if k < nt s then map RunTask (share (nt s) k (length (tasks s))) else [])"
    "alive_tasks (started s) = int (length (tasks s))" "tasks (started s) = tasks s" "frame (started s) = frame s"
    "wrapper (started s) = wrapper s" "wrapper_tasks (started s) = wrapper_tasks s" "nt (started s) = nt s"
    "main_thread (started s) = Some 0" "channels (started s) = (channels s)(0 := ChanOpen)"
    "k < nt s \<Longrightarrow> threads (started s) k = Some k" "desc (started s) = DescOpen" "phase (started s) = phase s"
    "exited (started s) = exited s" "stops (started s) = stops s" "num_threads (started s) = num_threads s"
  using assms by (auto simp: started_def distributed_def created_def nt_def)

lemma scheduler_init_started:
  assumes "setup_ok s" "0 < nt s"
  shows "scheduler_init False True 0 [0..<nt s] s =
    (if tasks s = [] then service_exit (started s) else Next (started s))"
proof -
  from assms have i: "\<And>k. \<not> exited s k" "\<And>k. msgs s k = []" "nt s \<le> 256" "alive_tasks s = 0"
    "int (length (tasks s)) \<le> INT32_MAX" by (auto simp: setup_ok_def nt_def)
  let ?o = "s\<lparr>desc := DescOpen\<rparr>"
  let ?c = "created (nt s) ?o"
  have "create_threads 0 [0..<nt s] (created 0 ?o) = Next ?c"
    by (rule create_threads_created) (use i in simp_all)
  moreover have "created 0 ?o = ?o" by (simp add: created_def)
  moreover have "distributed (nt s) 0 ?c = ?c"
  proof -
    have "(\<lambda>k. msgs ?c k @ (if k < nt s then map RunTask (share (nt s) k 0) else [])) = msgs ?c"
      by (auto simp: share_def)
    then show ?thesis using i(4) by (simp add: distributed_def created_def)
  qed
  moreover have "distribute [0..<length (tasks s)] (distributed (nt s) 0 ?c) = Next (started s)"
    unfolding started_def
    by (rule distribute_distributed) (use assms i in \<open>auto simp: created_def nt_def\<close>)
  moreover have "tasks ?c = tasks s" by (simp add: created_def)
  ultimately show ?thesis
    using started_simps(3) [OF assms] by (simp add: scheduler_init_def open_device_def get_bdev_def)
qed

lemma started_shape:
  assumes "setup_ok s" "0 < nt s" "phase s = Running"
  shows "shape_ok (started s)"
proof -
  note ss = started_simps [OF assms(1,2)]
  have "static_ok (started s)" using ss assms by (auto simp: static_ok_def setup_ok_def nt_def)
  then show ?thesis
    using ss(7) assms(2) by (intro shape_okI) (auto simp: ss(1,9) first_msg_def share_def chan_ok_def split: if_splits)
qed

lemma started_occ:
  assumes "setup_ok s" "0 < nt s"
  shows "occ (nt s) (msgs (started s)) (RunTask i) = (if i < length (tasks s) then 1 else 0)"
    "occ (nt s) (msgs (started s)) (ResumeYield i) = 0" "occ (nt s) (msgs (started s)) TaskDone = 0"
proof -
  note ss = started_simps(1) [OF assms]
  have "count_list (msgs (started s) c) (RunTask i) =
      (if c = i mod nt s then (if i < length (tasks s) then 1 else 0) else 0)" if "c < nt s" for c
    using that by (auto simp: ss count_share first_msg_def)
  then have "occ (nt s) (msgs (started s)) (RunTask i) =
      (\<Sum>c<nt s. if c = i mod nt s then (if i < length (tasks s) then 1 else 0) else 0)"
    unfolding occ_def by (intro sum.cong) auto
  also have "\<dots> = (if i < length (tasks s) then 1 else 0)" using assms(2) by (simp add: sum.delta)
  finally show "occ (nt s) (msgs (started s)) (RunTask i) = (if i < length (tasks s) then 1 else 0)" .
  show "occ (nt s) (msgs (started s)) (ResumeYield i) = 0" "occ (nt s) (msgs (started s)) TaskDone = 0"
    unfolding occ_0 by (auto simp: ss first_msg_def)
qed

lemma started_inv:
  assumes "setup_ok s" "0 < nt s" "phase s = Running"
  shows "if tasks s = [] then \<exists>s'. service_exit (started s) = Next s' \<and> shut_inv s' else live_inv (started s)"
proof -
  note ss = started_simps [OF assms(1,2)] and o = started_occ [OF assms(1,2)]
    and sh = started_shape [OF assms]
  have f: "tasks s = map Some [0..<length (tasks s)]" "\<And>i. frame s i = (if i < length (tasks s) then Co_New else Co_Gone)"
    "\<And>i. wrapper s i = W_None" using assms(1) by (auto simp: setup_ok_def)
  have t: "tasks s ! i = Some i" if "i < length (tasks s)" for i
    using that by (subst f(1)) simp
  show ?thesis
  proof (cases "tasks s = []")
    case True
    have "\<exists>s'. service_exit (started s) = Next s' \<and> shut_inv s'"
    proof (rule service_exit_shut [OF sh])
      show "\<exists>k. m = GetChannel k" if "m \<in> set (msgs (started s) c)" for c m
        by (rule occ_only [OF _ _ _ sh that]) (use o ss(7) True in simp_all)
    qed (use ss True f in simp_all)
    with True show ?thesis by simp
  next
    case False
    have u: "unfinished (started s) = {..<length (tasks s)}"
      using ss(4) f(2) by (auto simp: unfinished_def)
    have "count_ok (started s)" using False u ss(2,7) o(3) by (simp add: count_ok_def)
    moreover have "task_ok (started s) i" for i
      using o ss t f(2,3) by (simp add: task_ok_def task_rel_def)
    ultimately have "live_inv (started s)" using sh by (simp add: live_inv_def)
    with False show ?thesis by simp
  qed
qed

lemma strcpy_at_ok: "k + length src + 1 \<le> length dest \<Longrightarrow> \<exists>b. strcpy_at dest k src = Next b"
  by (simp add: strcpy_at_def)

lemma execute_inv:
  assumes "setup_inv s" "0 < num_threads s" "length cpus \<le> 13"
  shows "\<exists>s'. execute cpus False True 0 s = Next s' \<and> (live_inv s' \<or> shut_inv s')"
proof -
  obtain b where b: "strcpy_at (cpumask s) 2 cpus = Next b"
    using strcpy_at_ok [of 2 cpus "cpumask s"] assms(1,3) by (auto simp: setup_inv_def)
  let ?s = "s\<lparr>cpumask := b, phase := Running\<rparr>"
  have s: "setup_ok ?s" "0 < nt ?s" "phase ?s = Running"
    using assms by (simp_all add: setup_inv_def setup_ok_def nt_def)
  from scheduler_init_started [OF s(1,2)] started_inv [OF s] b show ?thesis
    by (auto simp: execute_def nt_def split: if_splits)
qed

section \<open>Every step\<close>

lemma live_running: "live_inv s \<Longrightarrow> phase s = Running \<and> stops s = 0 \<and> nt s = nat (num_threads s) \<and> desc s = DescOpen"
  by (auto simp: live_inv_def shape_ok_def static_ok_def nt_def)

lemma shut_running: "shut_inv s \<Longrightarrow> phase s = Running \<and> stops s = 1 \<and> alive_tasks s = 0"
  by (simp add: shut_inv_def)

lemma shut_queue:
  assumes "shut_inv s"
  shows "msgs s c = [] \<and> (c < nt s \<longrightarrow> channels s c = ChanPut \<and> (0 < c \<longrightarrow> exited s c)) \<or>
    msgs s c = [GetChannel c, ThreadExit c] \<or> msgs s c = [ThreadExit c]"
proof (cases "0 < c \<and> c < nt s")
  case True
  with assms show ?thesis unfolding shut_inv_def by blast
next
  case False
  with assms show ?thesis by (auto simp: shut_inv_def not_less)
qed

lemma shut_msgs: "shut_inv s \<Longrightarrow> m \<in> set (msgs s c) \<Longrightarrow> m = GetChannel c \<or> m = ThreadExit c"
  using shut_queue [of s c] by auto

lemma sched_inv_running: "live_inv s \<or> shut_inv s \<Longrightarrow> sched_inv s"
  using live_running shut_running by (auto simp: sched_inv_def)

lemma sched_inv_cases:
  assumes "sched_inv s"
  obtains "phase s = Setup" "setup_inv s" | "phase s = Running" "live_inv s" | "phase s = Running" "shut_inv s"
    | "phase s = Stopped"
  using assms by (cases "phase s") (auto simp: sched_inv_def)

lemma live_poll:
  assumes "live_inv s" "msgs s c = m # r"
  shows "\<exists>s'. handle_msg c m a eff (s\<lparr>msgs := (msgs s)(c := r)\<rparr>) = Next s' \<and> (live_inv s' \<or> shut_inv s')"
proof (cases m)
  case (ThreadExit k)
  with shape_okD(3) [OF live_invD(1) [OF assms(1)], of m c] assms(2) show ?thesis by simp
qed (use live_channel [OF assms(1)] live_run [OF assms(1)] live_yield [OF assms(1)] live_task_done [OF assms(1)]
    assms(2) in \<open>fastforce+\<close>)

text \<open>What can happen in a state that satisfies the invariant.\<close>

lemma sched_step_cases:
  assumes "sched_inv s"
  shows "sched_exec True 0 e s = Blocked \<or> (\<exists>s'. sched_exec True 0 e s = Next s' \<and> sched_inv s') \<or>
    sched_exec True 0 e s = Fault UseAfterFree \<and> shut_inv s \<and>
      (\<exists>c a eff r. e = Poll c a eff \<and> msgs s c = GetChannel c # r)"
proof (cases e)
  case (InitService n config bdev_name)
  show ?thesis
  proof (cases "phase s = Setup \<and> 0 < n \<and> n \<le> 256")
    case True
    with assms have "sched_inv ((init_service n config bdev_name s)\<lparr>phase := Setup\<rparr>)"
      by (simp add: sched_inv_def setup_inv_def setup_ok_def init_service_def)
    with True InitService show ?thesis by simp
  next
    case False
    with InitService show ?thesis by (cases "phase s") auto
  qed
next
  case AddTask
  show ?thesis
  proof (cases "phase s = Setup \<and> int (length (tasks s)) < INT32_MAX")
    case True
    with assms have "setup_inv (add_task s)" by (intro setup_add_task) (simp_all add: sched_inv_def)
    then have "sched_inv (add_task s)" by (simp add: sched_inv_def setup_inv_def)
    with True AddTask show ?thesis by simp
  next
    case False
    with AddTask show ?thesis by (cases "phase s") auto
  qed
next
  case (Run cpus ok)
  show ?thesis
  proof (cases "phase s = Setup \<and> 0 < num_threads s \<and> length cpus \<le> 13 \<and> ok")
    case True
    with assms have "setup_inv s" by (simp add: sched_inv_def)
    from execute_inv [OF this, of cpus] True Run sched_inv_running show ?thesis by auto
  next
    case False
    with Run show ?thesis by (cases "phase s") auto
  qed
next
  case (Poll c a eff)
  show ?thesis
  proof (cases "phase s = Running \<and> msgs s c \<noteq> []")
    case False
    with Poll show ?thesis by (cases "msgs s c") auto
  next
    case True
    then obtain m r where m: "msgs s c = m # r" by (cases "msgs s c") auto
    from True assms have "live_inv s \<or> shut_inv s" by (simp add: sched_inv_def)
    then show ?thesis
    proof
      assume "live_inv s"
      from live_poll [OF this m, of a eff] Poll m True sched_inv_running show ?thesis by auto
    next
      assume "shut_inv s"
      from this shut_poll [OF this m, of a eff] Poll m True sched_inv_running show ?thesis by auto
    qed
  qed
next
  case (Wake c h a eff)
  show ?thesis
  proof (cases "phase s = Running \<and> int c < num_threads s \<and> \<not> exited s c \<and> frame s h = Co_Wait")
    case False
    with Wake show ?thesis by auto
  next
    case True
    with assms have "live_inv s" by (auto simp: sched_inv_def shut_inv_def)
    moreover from True have "c < nt s" by (simp add: nt_def zless_nat_eq_int_zless)
    ultimately obtain s' where "resume_task c h a eff s = Next s'" "live_inv s'" using live_wake True by blast
    with True Wake sched_inv_running show ?thesis by auto
  qed
next
  case RunReturns
  then show ?thesis by (auto simp: sched_inv_def)
qed

interpretation scheduler: invariant_machine sched_boot "sched_exec True 0" sched_inv
proof
  show "sched_inv sched_boot" by (rule sched_inv_init)
  show "sched_inv s \<Longrightarrow> sched_exec True 0 e s = Next s' \<Longrightarrow> sched_inv s'" for s e s'
    using sched_step_cases [of s e] by auto
qed

section \<open>Properties\<close>

text \<open>A run of two tasks on two reactors.\<close>

definition sched_demo :: "sched_event list" where
  "sched_demo = [InitService 2 ''c'' ''b'', AddTask, AddTask, Run ''3'' True, Poll 0 Yields id]"

lemma sched_demo_run:
  "\<exists>s. run (sched_exec True 0) sched_demo sched_boot = Next s \<and> phase s = Running \<and> length (tasks s) = 2 \<and>
     msgs s 0 = [ResumeYield 0] \<and> msgs s 1 = [GetChannel 1, RunTask 1] \<and> frame s 0 = Co_Yield \<and> frame s 1 = Co_New \<and>
     stops s = 0 \<and> alive_tasks s = 2"
  by (simp add: sched_demo_def sched_defs sched_boot_def strcpy_at_def zeros_def INT32_MAX_def rcu_offline_def
      put_def rcu_init_def numeral_2_eq_2 del: bind_outcome_Next)



text \<open>
  Property C15 (the service ends exactly when its tasks have). \<open>alive_tasks\<close> is the number of
  unfinished tasks plus the notices the main thread has not handled; \<open>service_exit\<close> has run (once)
  just when that number is 0, and then no task is left.
\<close>
theorem sched_ends_when_done:
  assumes "reach (sched_exec True 0) sched_boot s" and "phase s = Running"
  shows "alive_tasks s = int (card (unfinished s) + occ (nt s) (msgs s) TaskDone) \<and>
    stops s = (if alive_tasks s = 0 then 1 else 0) \<and> desc s = (if alive_tasks s = 0 then DescClosed else DescOpen)"
proof -
  from scheduler.reach_inv [OF assms(1)] assms(2) consider "live_inv s" | "shut_inv s" by (auto simp: sched_inv_def)
  then show ?thesis
  proof cases
    case 1
    with live_running [OF 1] live_invD(2) [OF 1] show ?thesis by (simp add: count_ok_def)
  next
    case 2
    then have "unfinished s = {}" "occ (nt s) (msgs s) TaskDone = 0"
      using shut_msgs [OF 2] by (auto simp: occ_0 shut_inv_def unfinished_def)
    with 2 show ?thesis by (simp add: shut_inv_def)
  qed
qed

theorem sched_ends_when_done_witness:
  "\<exists>s. run (sched_exec True 0) sched_demo sched_boot = Next s \<and>
     card (unfinished s) + occ (nt s) (msgs s) TaskDone = 2"
proof -
  obtain s where s: "run (sched_exec True 0) sched_demo sched_boot = Next s" "phase s = Running" "alive_tasks s = 2"
    using sched_demo_run by blast
  from sched_ends_when_done [OF run_reach [OF reach_init s(1)] s(2)] s show ?thesis by auto
qed

text \<open>What \<open>run\<close> has put into the queues, and that the tasks are still all to be started.\<close>

lemma execute_started:
  assumes inv: "setup_inv s" and "0 < num_threads s" "tasks s \<noteq> []" "length cpus \<le> 13"
  obtains b where "execute cpus False True 0 s = Next (started (s\<lparr>cpumask := b, phase := Running\<rparr>))"
    "setup_ok (s\<lparr>cpumask := b, phase := Running\<rparr>)" "0 < nt (s\<lparr>cpumask := b, phase := Running\<rparr>)"
proof -
  obtain b where b: "strcpy_at (cpumask s) 2 cpus = Next b"
    using strcpy_at_ok [of 2 cpus "cpumask s"] inv assms(4) by (auto simp: setup_inv_def)
  let ?s = "s\<lparr>cpumask := b, phase := Running\<rparr>"
  have s: "setup_ok ?s" "0 < nt ?s" using inv assms(2) by (simp_all add: setup_inv_def setup_ok_def nt_def)
  have "execute cpus False True 0 s = Next (started ?s)"
    using scheduler_init_started [OF s] b assms by (simp add: execute_def nt_def)
  with s that show thesis by blast
qed

lemma execute_queues:
  assumes inv: "setup_inv s" and "0 < num_threads s" "tasks s \<noteq> []" "length cpus \<le> 13"
  obtains s' where "execute cpus False True 0 s = Next s'" "alive_tasks s' = int (length (tasks s))"
    "\<And>k. k < nt s \<Longrightarrow> msgs s' k = (if k = 0 then [] else [GetChannel k]) @
      map RunTask (filter (\<lambda>i. i mod nt s = k) [0..<length (tasks s)])"
    "nt s' = nt s" "frame s' = frame s" "stops s' = stops s" "phase s' = Running"
proof -
  obtain b where b: "execute cpus False True 0 s = Next (started (s\<lparr>cpumask := b, phase := Running\<rparr>))"
    "setup_ok (s\<lparr>cpumask := b, phase := Running\<rparr>)" "0 < nt (s\<lparr>cpumask := b, phase := Running\<rparr>)"
    by (rule execute_started [OF assms])
  have nt: "nt (s\<lparr>cpumask := b, phase := Running\<rparr>) = nt s" by (simp add: nt_def)
  show thesis
    by (rule that [OF b(1)]) (use started_simps [OF b(2,3)] nt in \<open>simp_all add: first_msg_def share_def\<close>)
qed

text \<open>
  Also shown (round robin). \<open>run\<close> queues for every reactor but the main one the request for its
  I/O channel, and behind it, in order, the tasks whose number is the core modulo the number of
  threads.
\<close>
theorem sched_round_robin:
  assumes "reach (sched_exec True 0) sched_boot s" and "phase s = Setup" and "0 < num_threads s"
    and "tasks s \<noteq> []" and "length cpus \<le> 13" and "k < nt s"
  shows "\<exists>s'. sched_exec True 0 (Run cpus True) s = Next s' \<and> alive_tasks s' = int (length (tasks s)) \<and>
    msgs s' k = (if k = 0 then [] else [GetChannel k]) @
      map RunTask (filter (\<lambda>i. i mod nt s = k) [0..<length (tasks s)])"
proof -
  have inv: "setup_inv s" using scheduler.reach_inv [OF assms(1)] assms(2) by (simp add: sched_inv_def)
  obtain s' where "execute cpus False True 0 s = Next s'" "alive_tasks s' = int (length (tasks s))"
    "\<And>k. k < nt s \<Longrightarrow> msgs s' k = (if k = 0 then [] else [GetChannel k]) @
      map RunTask (filter (\<lambda>i. i mod nt s = k) [0..<length (tasks s)])"
    by (rule execute_queues [OF inv assms(3-5)]) (rule that)
  with assms show ?thesis by auto
qed

theorem sched_round_robin_witness:
  "\<exists>s s'. run (sched_exec True 0) [InitService 2 ''c'' ''b'', AddTask, AddTask, AddTask] sched_boot = Next s \<and>
     sched_exec True 0 (Run ''3'' True) s = Next s' \<and> msgs s' 1 = [GetChannel 1, RunTask 1]"
proof -
  obtain s where s: "run (sched_exec True 0) [InitService 2 ''c'' ''b'', AddTask, AddTask, AddTask] sched_boot = Next s"
    "phase s = Setup" "num_threads s = 2" "length (tasks s) = 3"
    by (simp add: sched_defs sched_boot_def INT32_MAX_def del: bind_outcome_Next)
  have n: "nt s = 2" using s(3) by (simp add: nt_def)
  from s(4) have "tasks s \<noteq> []" by auto
  with sched_round_robin [OF run_reach [OF reach_init s(1)] s(2), of "''3''" 1] s n
  obtain s' where "sched_exec True 0 (Run ''3'' True) s = Next s'"
    "msgs s' 1 = [GetChannel 1] @ map RunTask (filter (\<lambda>i. i mod 2 = 1) [0..<3])" by auto
  then have "sched_exec True 0 (Run ''3'' True) s = Next s'" "msgs s' 1 = [GetChannel 1, RunTask 1]"
    by (simp_all add: upt_rec numeral_3_eq_3)
  with s(1) show ?thesis by blast
qed


text \<open>The failure happens when a service with two threads has no task.\<close>

definition sched_empty :: "sched_event list" where
  "sched_empty = [InitService 2 ''c'' ''b'', Run ''3'' True]"

lemma sched_empty_run:
  "\<exists>s. run (sched_exec True 0) sched_empty sched_boot = Next s \<and> sched_exec True 0 (Poll 1 Yields id) s = Fault UseAfterFree"
  by (simp add: sched_empty_def sched_defs sched_boot_def strcpy_at_def zeros_def INT32_MAX_def rcu_init_def
      numeral_2_eq_2 del: bind_outcome_Next)


text \<open>
  Also shown (\<open>run\<close> with tasks). \<open>run\<close> with a task and \<open>run_all\<close> do what \<open>add_task\<close>, called for each
  task, and \<open>run\<close> do, so that everything shown of a service holds of one started by them; like
  \<open>run\<close>, \<open>run_all\<close> counts its tasks and those added before.
\<close>
theorem run_all_adds_and_runs:
  assumes "reach (sched_exec True 0) sched_boot s" and "phase s = Setup" and "0 < num_threads s"
    and "int (length (tasks s) + k) \<le> INT32_MAX" and "0 < length (tasks s) + k" and "length cpus \<le> 13"
  shows "run (sched_exec True 0) (replicate k AddTask @ [Run cpus True]) s = run_all k cpus False True 0 s \<and>
    run_task cpus False True 0 s = run_all 1 cpus False True 0 s \<and>
    (\<exists>s'. run_all k cpus False True 0 s = Next s' \<and> reach (sched_exec True 0) sched_boot s' \<and>
      alive_tasks s' = int (length (tasks s) + k))"
proof -
  have "run_task cpus False True 0 s = run_all 1 cpus False True 0 s" by (simp add: run_task_def)
  moreover from assms have "run (sched_exec True 0) (replicate k AddTask @ [Run cpus True]) s = run_all k cpus False True 0 s \<and>
      (\<exists>s'. run_all k cpus False True 0 s = Next s' \<and> reach (sched_exec True 0) sched_boot s' \<and>
        alive_tasks s' = int (length (tasks s) + k))"
  proof (induction k arbitrary: s)
    case 0
    have inv: "setup_inv s" using scheduler.reach_inv [OF 0(1)] 0(2) by (simp add: sched_inv_def)
    have e: "sched_exec True 0 (Run cpus True) s = execute cpus False True 0 s" using 0 by simp
    have "tasks s \<noteq> []" using 0(5) by auto
    then obtain s' where s': "execute cpus False True 0 s = Next s'" "alive_tasks s' = int (length (tasks s))"
      using execute_queues [OF inv 0(3) _ 0(6)] by blast
    with reach_step [OF 0(1)] e have "reach (sched_exec True 0) sched_boot s'" by metis
    with s' e show ?case by simp
  next
    case (Suc k)
    have a: "sched_exec True 0 AddTask s = Next (add_task s)" using Suc.prems by simp
    have "reach (sched_exec True 0) sched_boot (add_task s)" using reach_step [OF Suc.prems(1) a] .
    with Suc.IH [of "add_task s"] Suc.prems a show ?case by (simp add: add_task_def del: sched_exec.simps)
  qed
  ultimately show ?thesis by blast
qed

theorem run_all_adds_and_runs_witness:
  "\<exists>s s'. run (sched_exec True 0) [InitService 2 ''c'' ''b'', AddTask] sched_boot = Next s \<and>
     run_all 2 ''3'' False True 0 s = Next s' \<and> alive_tasks s' = 3"
proof -
  obtain s where s: "run (sched_exec True 0) [InitService 2 ''c'' ''b'', AddTask] sched_boot = Next s"
    "phase s = Setup" "num_threads s = 2" "length (tasks s) = 1"
    by (simp add: sched_defs sched_boot_def INT32_MAX_def del: bind_outcome_Next)
  from run_all_adds_and_runs [OF run_reach [OF reach_init s(1)] s(2), of 2 "''3''"] s(3,4)
  obtain s' where "run_all 2 ''3'' False True 0 s = Next s'" "alive_tasks s' = 3" by (auto simp: INT32_MAX_def)
  with s(1) show ?thesis by blast
qed

text \<open>
  Also shown (a service without work uses the closed device). With two threads and no task, the
  second reactor asks for its channel after the device is closed.
\<close>
theorem sched_early_exit_faults:
  "run (sched_exec True 0) (sched_empty @ [Poll 1 a eff]) sched_boot = Fault UseAfterFree"
  by (simp add: sched_empty_def sched_defs sched_boot_def strcpy_at_def zeros_def INT32_MAX_def rcu_init_def
      numeral_2_eq_2 del: bind_outcome_Next)

text \<open>
  Also shown (a second run awaits the old tasks). \<open>tasks\<close> is never emptied: after one run with one
  task, the next one fails on the handle that was moved out.
\<close>
theorem sched_second_run_faults:
  "run (sched_exec False 0) [InitService 1 ''c'' ''b'', AddTask, Run ''1'' True, Poll 0 Finishes id, Poll 0 Yields id,
     RunReturns, InitService 1 ''c'' ''b'', Run ''1'' True, Poll 0 a eff] sched_boot = Fault NullDeref"
  by (simp add: sched_defs sched_boot_def strcpy_at_def zeros_def INT32_MAX_def rcu_init_def
      numeral_2_eq_2 del: bind_outcome_Next)

text \<open>
  Also shown (a coroutine that leaves its reactor puts it offline). After a task has yielded or
  finished, the core it ran on reads \<open>DONE\<close> as its RCU version, whatever the task did to the memory,
  and its next read-side section publishes a version again.
\<close>
theorem leaving_goes_offline:
  assumes "resume_task c h a eff s = Next s'" and "a \<noteq> Suspends"
  shows "view_version (buf (mem s') c) (versions (mem s') c) = DONE \<and> fst (read_lock_enter c (mem s')) = R_Load"
  using assms by (cases a)
    (auto simp: resume_task_def yield_await_suspend_def task_run_rest_def spdk_thread_send_msg_def Let_def
      rcu_offline_def put_def view_version_append read_lock_enter_def split: if_splits option.splits)

theorem leaving_goes_offline_witness:
  "\<exists>s'. resume_task 0 0 Yields id (add_task sched_boot) = Next s' \<and> fst (read_lock_enter 0 (mem s')) = R_Load"
proof -
  obtain s' where "resume_task 0 0 Yields id (add_task sched_boot) = Next s'"
    by (simp add: resume_task_def yield_await_suspend_def spdk_thread_send_msg_def Let_def add_task_def sched_boot_def)
  with leaving_goes_offline [OF this] show ?thesis by auto
qed

text \<open>
  Property C35 (names survive the fixed buffers). \<open>init_service\<close> keeps both names, as C strings,
  up to the 63 and 255 characters that fit, and always terminates them.
\<close>
theorem init_service_names:
  assumes "length (device_name s) = 64" and "length (json_file s) = 256" and "NUL \<notin> set bdev_name"
    and "NUL \<notin> set config"
  shows "c_string (device_name (init_service n config bdev_name s)) = take 63 bdev_name \<and>
    c_string (json_file (init_service n config bdev_name s)) = take 255 config \<and>
    length (device_name (init_service n config bdev_name s)) = 64 \<and>
    length (json_file (init_service n config bdev_name s)) = 256"
  using strncpy_string [of "device_name s" 63 bdev_name] strncpy_string [of "json_file s" 255 config] assms
  by (simp add: init_service_def)

theorem init_service_names_witness:
  "c_string (device_name (init_service 1 ''bdev.json'' ''Malloc0'' sched_boot)) = ''Malloc0''"
  using init_service_names [of sched_boot "''Malloc0''" "''bdev.json''" 1]
  by (simp add: sched_boot_def zeros_def NUL_def)

text \<open>
  Also shown (the mask overflows its buffer). \<open>cpumask\<close> holds 16 characters: \<open>execute\<close> writes past
  its end as soon as the mask has more than 13 hexadecimal digits, that is for 53 threads or more.
\<close>
theorem execute_mask_overflow:
  assumes "length (cpumask s) = 16"
  shows "13 < length cpus \<Longrightarrow> execute cpus ndebug ok main s = Fault OutOfBounds"
  using assms by (simp add: execute_def strcpy_at_def)

theorem execute_mask_overflow_witness:
  "execute ''1fffffffffffff'' False True 0 sched_boot = Fault OutOfBounds"
  by (rule execute_mask_overflow) (simp_all add: sched_boot_def zeros_def)

text \<open>
  Also shown (the device is opened inside an assertion). Compiled with \<open>NDEBUG\<close>, \<open>scheduler_init\<close>
  never opens the device and dereferences the null descriptor.
\<close>
theorem scheduler_init_ndebug:
  assumes "desc s = DescNull"
  shows "scheduler_init True ok main cores s = Fault NullDeref"
  using assms by (simp add: scheduler_init_def open_device_def get_bdev_def)

theorem scheduler_init_ndebug_witness: "scheduler_init True True 0 [0] sched_boot = Fault NullDeref"
  by (rule scheduler_init_ndebug) (simp add: sched_boot_def)

text \<open>
  Also shown (a complete shutdown). When \<open>run\<close> returns, every task is done, every channel has been
  given back, and every thread but the main one has exited.
\<close>
theorem sched_shutdown_complete:
  assumes "reach (sched_exec True 0) sched_boot s" and "sched_exec True 0 RunReturns s = Next s'" and "c < nt s"
  shows "channels s' c = ChanPut \<and> (0 < c \<longrightarrow> exited s c) \<and> (\<forall>i. frame s' i = Co_Gone) \<and> desc s' = DescClosed"
proof -
  from assms(2) have r: "phase s = Running" "0 < stops s" "msgs s c = []"
    "s' = s\<lparr>phase := Stopped, exited := (\<lambda>_. False), stops := 0\<rparr>"
    using assms(3) by (auto simp: list_all_iff nt_def split: if_splits)
  with scheduler.reach_inv [OF assms(1)] have "shut_inv s" using live_running by (auto simp: sched_inv_def)
  then have "channels s c = ChanPut" "0 < c \<Longrightarrow> exited s c" "\<And>i. frame s i = Co_Gone" "desc s = DescClosed"
    using r(3) assms(3) shut_queue [of s c] by (auto simp: shut_inv_def)
  with r(4) show ?thesis by simp
qed

definition sched_one :: "sched_event list" where
  "sched_one = [InitService 1 ''c'' ''b'', AddTask, Run ''1'' True, Poll 0 Finishes id, Poll 0 Yields id]"

lemma sched_one_run:
  "\<exists>s. run (sched_exec True 0) sched_one sched_boot = Next s \<and> phase s = Running \<and> num_threads s = 1 \<and>
     stops s = 1 \<and> msgs s 0 = []"
  by (simp add: sched_one_def sched_defs sched_boot_def strcpy_at_def zeros_def INT32_MAX_def rcu_offline_def
      put_def rcu_init_def numeral_2_eq_2 del: bind_outcome_Next)

theorem sched_shutdown_complete_witness:
  "\<exists>s s'. run (sched_exec True 0) sched_one sched_boot = Next s \<and>
     sched_exec True 0 RunReturns s = Next s' \<and> channels s' 0 = ChanPut"
proof -
  obtain s where s: "run (sched_exec True 0) sched_one sched_boot = Next s" "phase s = Running"
    "num_threads s = 1" "stops s = 1" "msgs s 0 = []" using sched_one_run by blast
  have n: "nt s = 1" using s(3) by (simp add: nt_def)
  obtain s' where r: "sched_exec True 0 RunReturns s = Next s'" using s by simp
  from sched_shutdown_complete [OF run_reach [OF reach_init s(1)] r, of 0] n have "channels s' 0 = ChanPut" by simp
  with s(1) r show ?thesis by blast
qed

end
