(* ===== verification/SchedRun.thy ===== *)
theory SchedRun
  imports Schedule
begin

text \<open>
  \<open>run\<close> comes back: the scheduler of theory \<open>Schedule\<close> with tasks that suspend a bounded number of
  times.

  What a task does is its own affair; the client promises that task \<open>h\<close> suspends (by \<open>yield\<close> or in
  another awaiter) at most \<open>budget h\<close> times more.  Nothing else is restricted: the reactors take
  their messages, and the awaiters resume their tasks, in any order.
\<close>

section \<open>Tasks with a budget\<close>

record planned =
  sched_of :: sched
  budget :: "nat \<Rightarrow> nat"

text \<open>The task that an event resumes, and what it does then.\<close>

fun resumed :: "sched_event \<Rightarrow> sched \<Rightarrow> (nat \<times> act) option" where
  "resumed (Poll c a eff) s = (case msgs s c of
      RunTask i # _ \<Rightarrow> Some (i, a) | ResumeYield h # _ \<Rightarrow> Some (h, a) | _ \<Rightarrow> None)"
| "resumed (Wake c h a eff) s = Some (h, a)"
| "resumed (InitService n config bdev_name) s = None"
| "resumed AddTask s = None"
| "resumed (Run cpus ok) s = None"
| "resumed RunReturns s = None"

definition spend :: "(nat \<times> act) option \<Rightarrow> (nat \<Rightarrow> nat) \<Rightarrow> nat \<Rightarrow> nat" where
  "spend r b = (case r of Some (h, a) \<Rightarrow> if a = Finishes then b else b(h := b h - 1) | None \<Rightarrow> b)"

definition affordable :: "(nat \<times> act) option \<Rightarrow> (nat \<Rightarrow> nat) \<Rightarrow> bool" where
  "affordable r b \<longleftrightarrow> (case r of Some (h, a) \<Rightarrow> a = Finishes \<or> 0 < b h | None \<Rightarrow> True)"

definition planned_exec :: "sched_event \<Rightarrow> planned \<Rightarrow> planned outcome" where
  "planned_exec e p =
     (if affordable (resumed e (sched_of p)) (budget p)
      then map_next (\<lambda>s. \<lparr>sched_of = s, budget = spend (resumed e (sched_of p)) (budget p)\<rparr>)
             (sched_exec True 0 e (sched_of p))
      else Blocked)"

lemma planned_reach:
  "reach (sched_exec True 0) sched_boot (sched_of p) \<Longrightarrow> run planned_exec es p = Next q \<Longrightarrow>
    reach (sched_exec True 0) sched_boot (sched_of q)"
proof (induction es arbitrary: p)
  case (Cons e es)
  from Cons.prems(2) obtain p1 where p1: "planned_exec e p = Next p1" "run planned_exec es p1 = Next q" by auto
  then have "sched_exec True 0 e (sched_of p) = Next (sched_of p1)"
    by (auto simp: planned_exec_def split: if_splits)
  with Cons.IH [OF reach_step [OF Cons.prems(1)] p1(2)] show ?case by blast
qed simp

section \<open>What is left to do\<close>

definition qlen :: "nat \<Rightarrow> (nat \<Rightarrow> msg list) \<Rightarrow> nat" where
  "qlen n f = (\<Sum>c<n. length (f c))"

lemma qlen_upd: "k < n \<Longrightarrow> qlen n (f(k := xs)) + length (f k) = qlen n f + length xs"
proof -
  assume k: "k < n"
  have "qlen n g = length (g k) + (\<Sum>c\<in>{..<n} - {k}. length (g c))" for g
    using k unfolding qlen_def by (intro sum.remove) auto
  from this [of f] this [of "f(k := xs)"] show ?thesis by simp
qed

lemma qlen_send: "k < n \<Longrightarrow> qlen n (f(k := f k @ [m])) = Suc (qlen n f)"
  using qlen_upd [of k n f "f k @ [m]"] by simp

lemma qlen_pop: "k < n \<Longrightarrow> f k = m # r \<Longrightarrow> Suc (qlen n (f(k := r))) = qlen n f"
  using qlen_upd [of k n f r] by simp

text \<open>A message is one step; a task that is not done may be resumed twice for each suspension.\<close>

definition backlog :: "sched \<Rightarrow> (nat \<Rightarrow> nat) \<Rightarrow> nat" where
  "backlog s b = qlen (nt s) (msgs s) + (\<Sum>h\<in>unfinished s. 2 * b h + 2)"

definition work :: "sched \<Rightarrow> (nat \<Rightarrow> nat) \<Rightarrow> nat" where
  "work s b = backlog s b + (if phase s = Running then if stops s = 0 then nt s + 1 else 1 else 0)"

lemma backlog_cong: "nt s' = nt s \<Longrightarrow> msgs s' = msgs s \<Longrightarrow> frame s' = frame s \<Longrightarrow> backlog s' b = backlog s b"
  by (simp add: backlog_def unfinished_def)

lemma backlog_pop:
  assumes "c < nt s" "msgs s c = m # r"
  shows "Suc (backlog (s\<lparr>msgs := (msgs s)(c := r)\<rparr>) b) = backlog s b"
  using qlen_pop [OF assms(1), of "msgs s"] assms(2) by (simp add: backlog_def unfinished_def nt_def)

lemma resume_effect:
  assumes "resume_task c h a eff s = Next s'"
  shows "nt s' = nt s \<and> stops s' = stops s \<and> phase s' = phase s \<and>
    frame s' = (frame s)(h := (case a of Yields \<Rightarrow> Co_Yield | Suspends \<Rightarrow> Co_Wait | Finishes \<Rightarrow> Co_Gone)) \<and>
    (case a of Yields \<Rightarrow> msgs s' = (msgs s)(c := msgs s c @ [ResumeYield h]) | Suspends \<Rightarrow> msgs s' = msgs s
     | Finishes \<Rightarrow> \<exists>k. main_thread s = Some k \<and> msgs s' = (msgs s)(k := msgs s k @ [TaskDone]))"
  using assms by (cases a)
    (auto simp: resume_task_def yield_await_suspend_def task_run_rest_def spdk_thread_send_msg_def Let_def nt_def
      split: option.splits if_splits)

lemma resume_pays:
  assumes step: "resume_task c h a eff s = Next s'" and fin: "finite (unfinished s)" "h \<in> unfinished s"
    and c: "c < nt s" "main_thread s = Some 0" and aff: "affordable (Some (h, a)) b"
  shows "backlog s' (spend (Some (h, a)) b) < backlog s b"
proof -
  note e = resume_effect [OF step]
  have split: "(\<Sum>x\<in>unfinished s. f x) = f h + (\<Sum>x\<in>unfinished s - {h}. f x)" for f :: "nat \<Rightarrow> nat"
    using fin by (rule sum.remove)
  have same: "(\<Sum>x\<in>unfinished s - {h}. 2 * (b(h := v)) x + 2) = (\<Sum>x\<in>unfinished s - {h}. 2 * b x + 2)" for v
    by (rule sum.cong) auto
  show ?thesis
  proof (cases a)
    case Finishes
    with e have "unfinished s' = unfinished s - {h}" by (auto simp: unfinished_def)
    with Finishes e c qlen_send [of 0 "nt s" "msgs s" TaskDone] split [of "\<lambda>x. 2 * b x + 2"] show ?thesis
      by (auto simp: backlog_def spend_def)
  next
    case Yields
    with e fin have "unfinished s' = unfinished s" by (auto simp: unfinished_def)
    with Yields e aff qlen_send [OF c(1), of "msgs s" "ResumeYield h"] split [of "\<lambda>x. 2 * b x + 2"]
      split [of "\<lambda>x. 2 * (b(h := b h - 1)) x + 2"] same [of "b h - 1"] show ?thesis
      by (simp add: backlog_def spend_def affordable_def)
  next
    case Suspends
    with e fin have "unfinished s' = unfinished s" by (auto simp: unfinished_def)
    with Suspends e aff split [of "\<lambda>x. 2 * b x + 2"]
      split [of "\<lambda>x. 2 * (b(h := b h - 1)) x + 2"] same [of "b h - 1"] show ?thesis
      by (simp add: backlog_def spend_def affordable_def)
  qed
qed

section \<open>Every step does some of it\<close>

lemma unfinished_task:
  assumes "live_inv s" "frame s h \<noteq> Co_Gone"
  shows "finite (unfinished s)" "h \<in> unfinished s" "main_thread s = Some 0"
  using assms live_invD(2) [OF assms(1)] static_okD(3) [OF shape_okD(1) [OF live_invD(1) [OF assms(1)]]]
  by (simp_all add: count_ok_def unfinished_def)

lemma poll_run_pays:
  assumes live: "live_inv s" and q: "msgs s c = RunTask i # r" and aff: "affordable (Some (i, a)) b"
    and step: "service_thread_run c i a eff (s\<lparr>msgs := (msgs s)(c := r)\<rparr>) = Next s'"
  shows "backlog s' (spend (Some (i, a)) b) < backlog s b \<and> nt s' = nt s \<and> stops s' = stops s \<and> phase s' = phase s"
proof -
  have c: "c < nt s" using shape_okD(2) [OF live_invD(1) [OF live], of "RunTask i" c] q by simp
  let ?p = "s\<lparr>msgs := (msgs s)(c := r)\<rparr>"
  from step obtain s1 where s1: "task_run c i a eff ?p = Next s1" and s': "nt s' = nt s1" "msgs s' = msgs s1"
    "frame s' = frame s1" "stops s' = stops s1" "phase s' = phase s1"
    by (auto simp: service_thread_run_def nt_def split: if_splits)
  from s1 obtain h where h: "i < length (tasks s)" "tasks s ! i = Some h" "frame s h = Co_New"
    by (auto simp: task_run_def split: if_splits option.splits)
  have hi: "h = i" using task_okD(4) [OF live_invD(3) [OF live, of i]] h(1,2) by (simp split: if_splits)
  let ?s = "?p\<lparr>tasks := (tasks s)[i := None], wrapper := (wrapper s)(i := W_Await)\<rparr>"
  have run: "resume_task c i a eff ?s = Next s1" using s1 h hi by (simp add: task_run_def)
  note f = unfinished_task [OF live, of i]
  have same: "unfinished ?s = unfinished s" "nt ?s = nt s" "backlog ?s b = backlog ?p b"
    by (simp_all add: unfinished_def nt_def backlog_def)
  have "backlog s1 (spend (Some (i, a)) b) < backlog ?s b"
    by (rule resume_pays [OF run]) (use f h hi c aff same in simp_all)
  moreover have "Suc (backlog ?p b) = backlog s b" by (rule backlog_pop [OF c q])
  moreover have "backlog s' (spend (Some (i, a)) b) = backlog s1 (spend (Some (i, a)) b)"
    by (rule backlog_cong [OF s'(1-3)])
  moreover have "nt s1 = nt s \<and> stops s1 = stops s \<and> phase s1 = phase s"
    using resume_effect [OF run] by (simp add: nt_def)
  ultimately show ?thesis using s' same(3) by simp
qed

lemma poll_yield_pays:
  assumes live: "live_inv s" and q: "msgs s c = ResumeYield h # r" and aff: "affordable (Some (h, a)) b"
    and step: "service_thread_run_yield c h a eff (s\<lparr>msgs := (msgs s)(c := r)\<rparr>) = Next s'"
  shows "backlog s' (spend (Some (h, a)) b) < backlog s b \<and> nt s' = nt s \<and> stops s' = stops s \<and> phase s' = phase s"
proof -
  have c: "c < nt s" using shape_okD(2) [OF live_invD(1) [OF live], of "ResumeYield h" c] q by simp
  let ?p = "s\<lparr>msgs := (msgs s)(c := r)\<rparr>"
  from step have run: "resume_task c h a eff ?p = Next s'" and fr: "frame s h = Co_Yield"
    by (auto simp: service_thread_run_yield_def split: if_splits)
  note f = unfinished_task [OF live, of h]
  have same: "unfinished ?p = unfinished s" "nt ?p = nt s" by (simp_all add: unfinished_def nt_def)
  have "backlog s' (spend (Some (h, a)) b) < backlog ?p b"
    by (rule resume_pays [OF run]) (use f fr c aff same in simp_all)
  with backlog_pop [OF c q, of b] resume_effect [OF run] show ?thesis by (simp add: nt_def)
qed

lemma wake_pays:
  assumes live: "live_inv s" and "frame s h = Co_Wait" "c < nt s" and aff: "affordable (Some (h, a)) b"
    and step: "resume_task c h a eff s = Next s'"
  shows "backlog s' (spend (Some (h, a)) b) < backlog s b \<and> nt s' = nt s \<and> stops s' = stops s \<and> phase s' = phase s"
  using resume_pays [OF step _ _ assms(3) _ aff] unfinished_task [OF live, of h] assms(2) resume_effect [OF step] by simp

lemma poll_channel_pays:
  assumes live: "live_inv s" and q: "msgs s c = GetChannel k # r"
    and step: "thread_init_get_channel k (s\<lparr>msgs := (msgs s)(c := r)\<rparr>) = Next s'"
  shows "backlog s' b < backlog s b \<and> nt s' = nt s \<and> stops s' = stops s \<and> phase s' = phase s"
proof -
  let ?p = "s\<lparr>msgs := (msgs s)(c := r)\<rparr>"
  have c: "c < nt s" using shape_okD(2) [OF live_invD(1) [OF live], of "GetChannel k" c] q by simp
  from step have s': "nt s' = nt s \<and> stops s' = stops s \<and> phase s' = phase s" "msgs s' = msgs ?p" "frame s' = frame ?p"
    by (auto simp: thread_init_get_channel_def get_io_channel_def nt_def split: desc_state.splits if_splits)
  then have "backlog s' b = backlog ?p b" by (intro backlog_cong) (simp_all add: nt_def)
  with backlog_pop [OF c q, of b] s' show ?thesis by simp
qed

lemma sum_exits: "(\<Sum>k<n. if 0 < k \<and> k < m then 1 else (0 :: nat)) \<le> n - 1"
proof (induction n)
  case (Suc n)
  then show ?case by (cases n) auto
qed simp

lemma poll_done_pays:
  assumes live: "live_inv s" and q: "msgs s c = TaskDone # r"
    and step: "task_done (s\<lparr>msgs := (msgs s)(c := r)\<rparr>) = Next s'"
  shows "work s' b < work s b"
proof -
  have c: "c < nt s" using shape_okD(2) [OF live_invD(1) [OF live], of TaskDone c] q by simp
  let ?p = "s\<lparr>msgs := (msgs s)(c := r)\<rparr>"
  let ?t = "?p\<lparr>alive_tasks := alive_tasks s - 1\<rparr>"
  note st = static_okD [OF shape_okD(1) [OF live_invD(1) [OF live]]]
  have t: "backlog ?t b = backlog ?p b" by (rule backlog_cong) (simp_all add: nt_def)
  show ?thesis
  proof (cases "alive_tasks s - 1 = 0")
    case False
    with step have "s' = ?t" by (simp add: task_done_def Let_def)
    with t backlog_pop [OF c q, of b] show ?thesis by (simp add: work_def nt_def)
  next
    case True
    have "chan_ok 0 (channels s 0) (msgs s 0)" using shape_okD(4) [OF live_invD(1) [OF live]] st(2) by blast
    then have "channels ?t 0 = ChanOpen" by (simp add: chan_ok_def)
    then have "service_exit ?t = Next ((exiting (nt s) ?t)\<lparr>desc := DescClosed, stops := Suc (stops s)\<rparr>)"
      using service_exit_exiting [of ?t] st(4,5) by (simp add: nt_def)
    with True step have s': "s' = (exiting (nt s) ?t)\<lparr>desc := DescClosed, stops := Suc (stops s)\<rparr>"
      by (simp add: task_done_def Let_def)
    have "msgs s' k = msgs ?t k @ (if 0 < k \<and> k < nt s then [ThreadExit k] else [])" for k
      using s' st(2) by (simp add: exiting_def)
    then have "qlen (nt s) (msgs s') = qlen (nt s) (msgs ?t) + (\<Sum>k<nt s. if 0 < k \<and> k < nt s then 1 else 0)"
      by (simp add: qlen_def flip: sum.distrib) (intro sum.cong, auto)
    moreover have "nt s' = nt s" "frame s' = frame ?t" "stops s' \<noteq> 0" "phase s' = phase s"
      using s' by (simp_all add: nt_def exiting_def)
    ultimately have "backlog s' b \<le> backlog ?t b + (nt s - 1)"
      using sum_exits [of "nt s" "nt s"] by (simp add: backlog_def unfinished_def nt_def)
    with t backlog_pop [OF c q, of b] st(1,2,7) \<open>stops s' \<noteq> 0\<close> \<open>phase s' = phase s\<close> show ?thesis
      by (simp add: work_def)
  qed
qed

lemma shut_pays:
  assumes shut: "shut_inv s" and q: "msgs s c = m # r"
    and step: "handle_msg c m a eff (s\<lparr>msgs := (msgs s)(c := r)\<rparr>) = Next s'"
  shows "work s' b < work s b"
proof -
  have c: "c < nt s" using shut q by (auto simp: shut_inv_def intro: leI)
  let ?p = "s\<lparr>msgs := (msgs s)(c := r)\<rparr>"
  from shut_poll [OF shut q, of a eff] step have "m = ThreadExit c" by auto
  with step have "nt s' = nt ?p" "msgs s' = msgs ?p" "frame s' = frame ?p" "stops s' = stops s" "phase s' = phase s"
    by (auto simp: thread_exit_def put_io_channel_def nt_def split: if_splits)
  then have "backlog s' b = backlog ?p b" "stops s' = stops s" "phase s' = phase s" "nt s' = nt s"
    by (simp_all add: backlog_cong nt_def)
  with backlog_pop [OF c q, of b] show ?thesis by (simp add: work_def)
qed

section \<open>Every run ends\<close>

lemma planned_pays:
  assumes inv: "sched_inv (sched_of p)" and run: "phase (sched_of p) = Running" and step: "planned_exec e p = Next q"
  shows "work (sched_of q) (budget q) < work (sched_of p) (budget p)"
proof -
  let ?s = "sched_of p" and ?b = "budget p"
  from step have aff: "affordable (resumed e ?s) ?b" and q: "budget q = spend (resumed e ?s) ?b"
    and ex: "sched_exec True 0 e ?s = Next (sched_of q)" by (auto simp: planned_exec_def split: if_splits)
  from inv run have ls: "live_inv ?s \<or> shut_inv ?s" by (simp add: sched_inv_def)
  have none: "budget q = ?b" if "resumed e ?s = None" using q that by (simp add: spend_def)
  have paid: "work (sched_of q) (budget q) < work ?s ?b"
    if "backlog (sched_of q) (budget q) < backlog ?s ?b \<and> nt (sched_of q) = nt ?s \<and> stops (sched_of q) = stops ?s \<and>
      phase (sched_of q) = phase ?s" using that by (simp add: work_def)
  show ?thesis
  proof (cases e)
    case (Poll c a eff)
    with ex run obtain m r where m: "msgs ?s c = m # r" by (cases "msgs ?s c") auto
    with ex run Poll have h: "handle_msg c m a eff (?s\<lparr>msgs := (msgs ?s)(c := r)\<rparr>) = Next (sched_of q)" by simp
    from ls show ?thesis
    proof
      assume shut: "shut_inv ?s"
      with shut_msgs [OF shut, of m c] m Poll have "resumed e ?s = None" by auto
      with none shut_pays [OF shut m h, of ?b] show ?thesis by simp
    next
      assume live: "live_inv ?s"
      show ?thesis
      proof (cases m)
        case (GetChannel k)
        with m Poll none poll_channel_pays [OF live, of c k r "sched_of q" ?b] h paid show ?thesis by simp
      next
        case (RunTask i)
        with m Poll poll_run_pays [OF live, of c i r a ?b eff "sched_of q"] h aff q paid show ?thesis by simp
      next
        case (ResumeYield t)
        with m Poll poll_yield_pays [OF live, of c t r a ?b eff "sched_of q"] h aff q paid show ?thesis by simp
      next
        case TaskDone
        with m Poll none poll_done_pays [OF live, of c r "sched_of q" ?b] h show ?thesis by simp
      next
        case (ThreadExit k)
        with shape_okD(3) [OF live_invD(1) [OF live], of m c] m show ?thesis by simp
      qed
    qed
  next
    case (Wake c h a eff)
    with ex run have w: "int c < num_threads ?s" "frame ?s h = Co_Wait" "resume_task c h a eff ?s = Next (sched_of q)"
      by (auto split: if_splits)
    then have "live_inv ?s" "c < nt ?s" using ls by (auto simp: shut_inv_def nt_def zless_nat_eq_int_zless)
    with wake_pays [of ?s h c a ?b eff "sched_of q"] w Wake aff q paid show ?thesis by simp
  next
    case RunReturns
    with ex run have "sched_of q = ?s\<lparr>phase := Stopped, exited := (\<lambda>_. False), stops := 0\<rparr>" by (auto split: if_splits)
    moreover from this have "backlog (sched_of q) ?b = backlog ?s ?b" by (intro backlog_cong) (simp_all add: nt_def)
    ultimately show ?thesis using none RunReturns run by (simp add: work_def)
  qed (use ex run in auto)
qed

lemma planned_stopped: "phase (sched_of p) = Stopped \<Longrightarrow> planned_exec e p = Blocked"
  by (cases e) (simp_all add: planned_exec_def)

lemma planned_step:
  assumes "sched_inv (sched_of p)" "phase (sched_of p) = Running" "planned_exec e p = Next q"
  shows "sched_inv (sched_of q)"
    "phase (sched_of q) = Running \<or> phase (sched_of q) = Stopped \<and> unfinished (sched_of q) = {}"
proof -
  from assms(3) have ex: "sched_exec True 0 e (sched_of p) = Next (sched_of q)"
    by (auto simp: planned_exec_def split: if_splits)
  show inv: "sched_inv (sched_of q)" by (rule scheduler.inv_step [OF assms(1) ex])
  from assms(1,2) have ls: "live_inv (sched_of p) \<or> shut_inv (sched_of p)" by (simp add: sched_inv_def)
  show "phase (sched_of q) = Running \<or> phase (sched_of q) = Stopped \<and> unfinished (sched_of q) = {}"
  proof (cases e)
    case RunReturns
    with ex have "0 < stops (sched_of p)"
      "sched_of q = (sched_of p)\<lparr>phase := Stopped, exited := (\<lambda>_. False), stops := 0\<rparr>" by (auto split: if_splits)
    moreover from this ls live_running have "shut_inv (sched_of p)" by fastforce
    ultimately show ?thesis by (simp add: shut_inv_def unfinished_def)
  next
    case (Poll c a eff)
    with ex assms(2) obtain m r where m: "msgs (sched_of p) c = m # r" by (cases "msgs (sched_of p) c") auto
    with ex Poll assms(2) have
      "handle_msg c m a eff ((sched_of p)\<lparr>msgs := (msgs (sched_of p))(c := r)\<rparr>) = Next (sched_of q)" by simp
    with ls live_poll [OF _ m, of a eff] shut_poll [OF _ m, of a eff] have "live_inv (sched_of q) \<or> shut_inv (sched_of q)"
      by fastforce
    with live_running shut_running show ?thesis by blast
  next
    case (Wake c h a eff)
    with ex assms(2) have w: "int c < num_threads (sched_of p)" "frame (sched_of p) h = Co_Wait"
      "resume_task c h a eff (sched_of p) = Next (sched_of q)" by (auto split: if_splits)
    from resume_effect [OF w(3)] assms(2) show ?thesis by simp
  qed (use ex assms(2) in auto)
qed

lemma planned_bound:
  assumes "sched_inv (sched_of p)" "phase (sched_of p) = Running" "run planned_exec es p = Next q"
  shows "length es + work (sched_of q) (budget q) \<le> work (sched_of p) (budget p) \<and> sched_inv (sched_of q) \<and>
    (phase (sched_of q) = Running \<or> phase (sched_of q) = Stopped \<and> unfinished (sched_of q) = {})"
  using assms
proof (induction es arbitrary: p)
  case (Cons e es)
  from Cons.prems(3) obtain p1 where p1: "planned_exec e p = Next p1" "run planned_exec es p1 = Next q" by auto
  note pays = planned_pays [OF Cons.prems(1,2) p1(1)] and inv = planned_step [OF Cons.prems(1,2) p1(1)]
  show ?case
  proof (cases "phase (sched_of p1) = Running")
    case True
    from Cons.IH [OF inv(1) True p1(2)] pays show ?thesis by auto
  next
    case False
    with inv(2) have st: "phase (sched_of p1) = Stopped" "unfinished (sched_of p1) = {}" by auto
    then have "es = []" using p1(2) planned_stopped by (cases es) auto
    with p1(2) st pays inv(1) show ?thesis by auto
  qed
qed simp

text \<open>A service that cannot go on has returned.\<close>

lemma planned_stuck:
  assumes inv: "sched_inv (sched_of p)" and run: "phase (sched_of p) = Running"
  shows "\<exists>e. planned_exec e p \<noteq> Blocked"
proof (rule ccontr)
  let ?s = "sched_of p"
  assume "\<nexists>e. planned_exec e p \<noteq> Blocked"
  then have stuck: "planned_exec e p = Blocked" for e by blast
  have ls: "live_inv ?s \<or> shut_inv ?s" using inv run by (simp add: sched_inv_def)
  have q: "msgs ?s c = []" for c
  proof (rule ccontr)
    assume "msgs ?s c \<noteq> []"
    then obtain m r where m: "msgs ?s c = m # r" by (cases "msgs ?s c") auto
    have "affordable (resumed (Poll c Finishes id) ?s) (budget p)"
      by (auto simp: affordable_def split: list.split msg.split option.split)
    with stuck [of "Poll c Finishes id"] run m
    have "map_next (\<lambda>s. \<lparr>sched_of = s, budget = spend (resumed (Poll c Finishes id) ?s) (budget p)\<rparr>)
        (handle_msg c m Finishes id (?s\<lparr>msgs := (msgs ?s)(c := r)\<rparr>)) = Blocked" by (simp add: planned_exec_def)
    with ls live_poll [OF _ m, of Finishes id] shut_poll [OF _ m, of Finishes id] show False by auto
  qed
  from ls show False
  proof
    assume "shut_inv ?s"
    with q run stuck [of RunReturns] shut_running show False
      by (simp add: planned_exec_def affordable_def list_all_iff)
  next
    assume live: "live_inv ?s"
    note t = task_okD [OF live_invD(3) [OF live]] and c = live_invD(2) [OF live]
    have o: "occ (nt ?s) (msgs ?s) m = 0" for m using q by (simp add: occ_def)
    with c have "unfinished ?s \<noteq> {}" by (auto simp: count_ok_def)
    then obtain h where "frame ?s h \<noteq> Co_Gone" by (auto simp: unfinished_def)
    with t(1,2) [of h] o have h: "frame ?s h = Co_Wait" by (cases "frame ?s h") auto
    note st = static_okD [OF shape_okD(1) [OF live_invD(1) [OF live]]]
    obtain s' where "resume_task 0 h Finishes id ?s = Next s'" using live_wake [OF live h st(2)] by blast
    with stuck [of "Wake 0 h Finishes id"] h run st(2,5) show False
      by (simp add: planned_exec_def affordable_def nt_def)
  qed
qed

lemma qlen_shares: "0 < n \<Longrightarrow> (\<Sum>k<n. length (filter (\<lambda>i. i mod n = k) [0..<m])) = m"
proof (induction m)
  case (Suc m)
  have "(\<Sum>k<n. length (filter (\<lambda>i. i mod n = k) [0..<Suc m])) =
      (\<Sum>k<n. length (filter (\<lambda>i. i mod n = k) [0..<m]) + (if m mod n = k then 1 else 0))"
    by (intro sum.cong) auto
  also have "\<dots> = (\<Sum>k<n. length (filter (\<lambda>i. i mod n = k) [0..<m])) + (\<Sum>k<n. if m mod n = k then 1 else 0)"
    by (rule sum.distrib)
  also have "(\<Sum>k<n. if m mod n = k then 1 else (0 :: nat)) = 1" using Suc.prems by simp
  finally show ?case using Suc by simp
qed simp

section \<open>Properties\<close>


text \<open>Two tasks on two reactors; the first one yields once.\<close>

definition sched_whole :: "sched_event list" where
  "sched_whole = [Poll 0 Yields id, Poll 1 Finishes id, Poll 1 Finishes id, Poll 0 Finishes id, Poll 0 Finishes id,
     Poll 0 Finishes id, Poll 1 Finishes id, RunReturns]"

lemma sched_whole_run:
  "\<exists>s s' q. run (sched_exec True 0) [InitService 2 ''c'' ''b'', AddTask, AddTask] sched_boot = Next s \<and>
     phase s = Setup \<and> num_threads s = 2 \<and> length (tasks s) = 2 \<and> sched_exec True 0 (Run ''3'' True) s = Next s' \<and>
     run planned_exec sched_whole \<lparr>sched_of = s', budget = \<lambda>_. 1\<rparr> = Next q \<and> phase (sched_of q) = Stopped"
  by (simp add: sched_whole_def sched_defs sched_boot_def strcpy_at_def zeros_def INT32_MAX_def rcu_offline_def
      put_def rcu_init_def numeral_2_eq_2 planned_exec_def affordable_def spend_def del: bind_outcome_Next map_next_Next)


end
