(* ===== verification/Benchmark.thy ===== *)
theory Benchmark
  imports Schedule
begin

text \<open>
  The set-up of \<^verbatim>\<open>benchmarks/colocking.cpp\<close>: its options (\<open>args_parse\<close>) and the function
  \<open>benchmark_thread\<close>, which starts the service, creates the reader and writer tasks and runs them.
  What the tasks do is the subject of the theories of the locks and of RCU; here they are named by the
  coroutine that is called and its argument.  \<open>getopt\<close> and \<open>atoi\<close> belong to the C library: the
  options arrive as the pairs that \<open>getopt\<close> returns, \<open>atoi\<close> is defined by its description.
\<close>

section \<open>Options\<close>

datatype lock_type = Mutex | SpinLock | RwLock | RCU

record bench =
  lock_kind :: lock_type        \<comment> \<open>\<open>type\<close>\<close>
  num_readers :: int
  num_writers :: int
  thread_num :: int
  durations :: int
  delay :: int

definition bench_default :: bench where
  "bench_default = \<lparr>lock_kind = Mutex, num_readers = 0, num_writers = 0, thread_num = 1, durations = 1, delay = 0\<rparr>"

definition locktypes :: "lock_type \<Rightarrow> string" where
  "locktypes k = (case k of Mutex \<Rightarrow> ''mutex'' | SpinLock \<Rightarrow> ''spinlock'' | RwLock \<Rightarrow> ''rwlock'' | RCU \<Rightarrow> ''rcu'')"

text \<open>C strings end with a null character, which may be read.\<close>

definition char_at :: "string \<Rightarrow> nat \<Rightarrow> char" where
  "char_at s k = (if k < length s then s ! k else NUL)"

definition is_space :: "char \<Rightarrow> bool" where
  "is_space c \<longleftrightarrow> c = CHR '' '' \<or> 9 \<le> (of_char c :: nat) \<and> (of_char c :: nat) \<le> 13"

definition is_digit :: "char \<Rightarrow> bool" where
  "is_digit c \<longleftrightarrow> 48 \<le> (of_char c :: nat) \<and> (of_char c :: nat) \<le> 57"

fun digits_value :: "int \<Rightarrow> string \<Rightarrow> int" where
  "digits_value acc [] = acc"
| "digits_value acc (c # cs) =
     (if is_digit c then digits_value (10 * acc + (of_char c - 48)) cs else acc)"

definition atoi :: "string \<Rightarrow> int outcome" where
  "atoi s =
     (let r = dropWhile is_space s;
          v = (if char_at r 0 = CHR ''-'' then - digits_value 0 (tl r)
               else if char_at r 0 = CHR ''+'' then digits_value 0 (tl r)
               else digits_value 0 r)
      in if - INT32_MAX - 1 \<le> v \<and> v \<le> INT32_MAX then Next v else Fault SignedOverflow)"

definition parse_type :: "string \<Rightarrow> lock_type" where
  "parse_type optarg =
     (if char_at optarg 0 = CHR ''m'' then Mutex
      else if char_at optarg 0 = CHR ''s'' then (if char_at optarg 1 = CHR ''p'' then SpinLock else RwLock)
      else RCU)"

text \<open>
  One turn of the loop over the options; \<open>None\<close> is the end of the program after the usage message.
  For an option that is not in the list \<open>getopt\<close> returns a question mark.
\<close>

definition parse_opt :: "char \<Rightarrow> string \<Rightarrow> bench \<Rightarrow> bench option outcome" where
  "parse_opt c optarg b =
     (if c = CHR ''t'' then Next (Some (b\<lparr>lock_kind := parse_type optarg\<rparr>))
      else if c = CHR ''r'' then map_next (\<lambda>v. Some (b\<lparr>num_readers := v\<rparr>)) (atoi optarg)
      else if c = CHR ''w'' then map_next (\<lambda>v. Some (b\<lparr>num_writers := v\<rparr>)) (atoi optarg)
      else if c = CHR ''d'' then map_next (\<lambda>v. Some (b\<lparr>durations := v\<rparr>)) (atoi optarg)
      else if c = CHR ''c'' then map_next (\<lambda>v. Some (b\<lparr>thread_num := v\<rparr>)) (atoi optarg)
      else if c = CHR ''m'' then map_next (\<lambda>v. Some (b\<lparr>delay := v\<rparr>)) (atoi optarg)
      else Next None)"

fun parse_opts :: "(char \<times> string) list \<Rightarrow> bench \<Rightarrow> bench option outcome" where
  "parse_opts [] b = Next (Some b)"
| "parse_opts ((c, optarg) # os) b =
     bind_outcome (parse_opt c optarg b) (\<lambda>r. case r of None \<Rightarrow> Next None | Some b' \<Rightarrow> parse_opts os b')"

definition args_parse :: "nat \<Rightarrow> (char \<times> string) list \<Rightarrow> bench \<Rightarrow> bench option outcome" where
  "args_parse argc opts b = (if argc < 2 then Next None else parse_opts opts b)"

section \<open>The tasks\<close>

datatype bench_task =
    Reader lock_type int      \<comment> \<open>\<open>reader(index, lock)\<close>\<close>
  | RcuReader int
  | Writer lock_type int
  | RcuWriter int

fun is_reader :: "bench_task \<Rightarrow> bool" where
  "is_reader (Reader _ _) = True"
| "is_reader (RcuReader _) = True"
| "is_reader (Writer _ _) = False"
| "is_reader (RcuWriter _) = False"

definition reader_of :: "lock_type \<Rightarrow> int \<Rightarrow> bench_task" where
  "reader_of k i = (case k of Mutex \<Rightarrow> Reader Mutex i | RwLock \<Rightarrow> Reader RwLock i
     | SpinLock \<Rightarrow> Reader SpinLock i | RCU \<Rightarrow> RcuReader i)"

definition writer_of :: "lock_type \<Rightarrow> int \<Rightarrow> bench_task" where
  "writer_of k i = (case k of Mutex \<Rightarrow> Writer Mutex i | RwLock \<Rightarrow> Writer RwLock i
     | SpinLock \<Rightarrow> Writer SpinLock i | RCU \<Rightarrow> RcuWriter i)"

definition bench_add :: "bench_task \<Rightarrow> sched \<times> bench_task list \<Rightarrow> sched \<times> bench_task list" where
  "bench_add x st = (add_task (fst st), snd st @ [x])"

text \<open>The loop of \<open>benchmark_thread\<close> that creates the tasks, with the two counts.\<close>

function spawn :: "lock_type \<Rightarrow> int \<Rightarrow> int \<Rightarrow> sched \<times> bench_task list \<Rightarrow> (sched \<times> bench_task list) outcome" where
  "spawn k r w st =
     (if r + w < - INT32_MAX - 1 \<or> INT32_MAX < r + w then Fault SignedOverflow
      else if 0 < r + w then
        (let (r1, st1) = (if 0 < r then (r - 1, bench_add (reader_of k r) st) else (r, st));
             (w1, st2) = (if 0 < w then (w - 1, bench_add (writer_of k w) st1) else (w, st1))
         in spawn k r1 w1 st2)
      else Next st)"
  by pat_completeness auto

termination
  by (relation "measure (\<lambda>(k, r, w, st). nat (r + w))") (auto split: if_splits)

declare spawn.simps [simp del]

text \<open>\<open>benchmark_thread\<close> up to the moment when the reactors run.\<close>

definition benchmark_thread :: "string \<Rightarrow> bench \<Rightarrow> sched \<Rightarrow> (sched \<times> bench_task list) outcome" where
  "benchmark_thread cpus b s =
     bind_outcome (spawn (lock_kind b) (num_readers b) (num_writers b)
         (init_service (thread_num b) ''bdev.json'' ''Malloc0'' s, []))
       (\<lambda>st. map_next (\<lambda>s'. (s', snd st)) (execute cpus False True 0 (fst st)))"

section \<open>What the loop creates\<close>

fun alternate :: "'a list \<Rightarrow> 'a list \<Rightarrow> 'a list" where
  "alternate (x # xs) (y # ys) = x # y # alternate xs ys"
| "alternate [] ys = ys"
| "alternate xs [] = xs"

lemma alternate_Nil [simp]: "alternate xs [] = xs"
  by (cases xs) auto

lemma length_alternate [simp]: "length (alternate xs ys) = length xs + length ys"
  by (induction xs ys rule: alternate.induct) auto

lemma alternate_nth:
  "length xs = length ys \<Longrightarrow> i < length xs + length ys \<Longrightarrow>
    alternate xs ys ! i = (if even i then xs else ys) ! (i div 2)"
proof (induction xs ys arbitrary: i rule: alternate.induct)
  case (1 x xs y ys)
  show ?case
  proof (cases "i < 2")
    case True
    then show ?thesis by (cases i) (auto simp: less_Suc_eq)
  next
    case False
    then obtain j where i: "i = Suc (Suc j)" using less_eqE [of 2 i] by auto
    with 1 show ?thesis by simp
  qed
qed auto

lemma rev_upto: "i \<le> j \<Longrightarrow> rev [i..j] = j # rev [i..j - 1]"
  by (simp add: upto_rec2)

lemma nat_pos: "0 < x \<Longrightarrow> nat x = Suc (nat (x - 1))"
  by simp

lemma spawn_stop: "r + w \<le> 0 \<Longrightarrow> - INT32_MAX - 1 \<le> r + w \<Longrightarrow> spawn k r w st = Next st"
  by (subst spawn.simps) (simp add: INT32_MAX_def)

lemma spawn_step:
  assumes "0 < r + w" "r + w \<le> INT32_MAX"
  shows "spawn k r w st = spawn k (if 0 < r then r - 1 else r) (if 0 < w then w - 1 else w)
    ((if 0 < w then bench_add (writer_of k w) else id) ((if 0 < r then bench_add (reader_of k r) else id) st))"
  by (subst spawn.simps) (use assms in \<open>simp add: INT32_MAX_def\<close>)

text \<open>Readers only, with a count of writers that is zero or negative.\<close>

lemma spawn_readers:
  "w \<le> 0 \<Longrightarrow> - INT32_MAX - 1 \<le> r + w \<Longrightarrow> r + w \<le> INT32_MAX \<Longrightarrow>
    spawn k r w st = Next ((add_task ^^ nat (r + w)) (fst st), snd st @ map (reader_of k) (rev [1 - w..r]))"
proof (induction "nat (r + w)" arbitrary: r st)
  case 0
  then show ?case by (simp add: spawn_stop)
next
  case (Suc m)
  then have r: "0 < r" "0 < r + w" by simp_all
  have e: "nat (r + w) = Suc (nat (r - 1 + w))" using nat_pos [OF r(2)] by (simp add: algebra_simps)
  have "spawn k (r - 1) w (bench_add (reader_of k r) st) = Next ((add_task ^^ nat (r - 1 + w)) (add_task (fst st)),
      snd st @ [reader_of k r] @ map (reader_of k) (rev [1 - w..r - 1]))"
    using Suc.hyps(1) [of "r - 1" "bench_add (reader_of k r) st"] Suc.hyps(2) Suc.prems e by (simp add: bench_add_def)
  moreover have "rev [1 - w..r] = r # rev [1 - w..r - 1]" using r by (intro rev_upto) simp
  ultimately show ?case using Suc.prems r e by (simp add: spawn_step funpow_swap1)
qed

lemma spawn_writers:
  "0 \<le> w \<Longrightarrow> w \<le> INT32_MAX \<Longrightarrow>
    spawn k 0 w st = Next ((add_task ^^ nat w) (fst st), snd st @ map (writer_of k) (rev [1..w]))"
proof (induction "nat w" arbitrary: w st)
  case 0
  then show ?case by (simp add: spawn_stop INT32_MAX_def)
next
  case (Suc m)
  then have w: "0 < w" by simp
  have e: "nat w = Suc (nat (w - 1))" by (rule nat_pos [OF w])
  have "spawn k 0 (w - 1) (bench_add (writer_of k w) st) = Next ((add_task ^^ nat (w - 1)) (add_task (fst st)),
      snd st @ [writer_of k w] @ map (writer_of k) (rev [1..w - 1]))"
    using Suc.hyps(1) [of "w - 1" "bench_add (writer_of k w) st"] Suc.hyps(2) Suc.prems e by (simp add: bench_add_def)
  moreover have "rev [1..w] = w # rev [1..w - 1]" using w by (intro rev_upto) simp
  ultimately show ?case using Suc.prems w e by (simp add: spawn_step funpow_swap1)
qed

lemma spawn_both:
  "0 \<le> r \<Longrightarrow> 0 \<le> w \<Longrightarrow> r + w \<le> INT32_MAX \<Longrightarrow>
    spawn k r w st = Next ((add_task ^^ nat (r + w)) (fst st),
      snd st @ alternate (map (reader_of k) (rev [1..r])) (map (writer_of k) (rev [1..w])))"
proof (induction "nat r" arbitrary: r w st)
  case 0
  then show ?case by (simp add: spawn_writers)
next
  case (Suc m)
  then have r: "0 < r" by simp
  show ?case
  proof (cases "w = 0")
    case True
    with Suc.prems show ?thesis by (simp add: spawn_readers INT32_MAX_def)
  next
    case False
    with Suc.prems have w: "0 < w" by simp
    let ?st = "bench_add (writer_of k w) (bench_add (reader_of k r) st)"
    have e: "nat (r + w) = Suc (Suc (nat ((r - 1) + (w - 1))))" using r w by simp
    have "spawn k (r - 1) (w - 1) ?st = Next ((add_task ^^ nat ((r - 1) + (w - 1))) (add_task (add_task (fst st))),
        (snd st @ [reader_of k r, writer_of k w]) @
          alternate (map (reader_of k) (rev [1..r - 1])) (map (writer_of k) (rev [1..w - 1])))"
      using Suc.hyps(1) [of "r - 1" "w - 1" ?st] Suc.hyps(2) Suc.prems r w by (simp add: bench_add_def)
    moreover have "rev [1..r] = r # rev [1..r - 1]" "rev [1..w] = w # rev [1..w - 1]"
      using r w by (simp_all add: upto_rec2)
    moreover have "0 < r + w" "r + w \<le> INT32_MAX" using Suc.prems r w by simp_all
    ultimately show ?thesis using r w unfolding e by (simp add: spawn_step funpow_swap1)
  qed
qed

section \<open>The start of the service\<close>

lemma add_tasks_setup:
  "setup_inv s \<Longrightarrow> int (length (tasks s) + n) \<le> INT32_MAX \<Longrightarrow>
    setup_inv ((add_task ^^ n) s) \<and> length (tasks ((add_task ^^ n) s)) = length (tasks s) + n \<and>
    num_threads ((add_task ^^ n) s) = num_threads s"
proof (induction n)
  case (Suc n)
  then have "setup_inv (add_task ((add_task ^^ n) s))" by (intro setup_add_task) simp_all
  moreover have "length (tasks (add_task u)) = Suc (length (tasks u))" "num_threads (add_task u) = num_threads u"
    for u by (simp_all add: add_task_def)
  ultimately show ?case using Suc by simp
qed simp

lemma init_setup: "0 < n \<Longrightarrow> n \<le> 256 \<Longrightarrow> setup_inv (init_service n config bdev_name sched_boot)"
  by (simp add: setup_inv_def setup_ok_def init_service_def sched_boot_def zeros_def INT32_MAX_def)

lemma benchmark_queues:
  assumes "0 \<le> num_readers b" "0 \<le> num_writers b" "0 < num_readers b + num_writers b"
    "num_readers b + num_writers b \<le> INT32_MAX" "0 < thread_num b" "thread_num b \<le> 256" "length cpus \<le> 13"
  obtains s' ts where "benchmark_thread cpus b sched_boot = Next (s', ts)"
    "ts = alternate (map (reader_of (lock_kind b)) (rev [1..num_readers b]))
      (map (writer_of (lock_kind b)) (rev [1..num_writers b]))"
    "alive_tasks s' = int (length ts)"
    "\<And>c. c < nat (thread_num b) \<Longrightarrow> msgs s' c = (if c = 0 then [] else [GetChannel c]) @
      map RunTask (filter (\<lambda>i. i mod nat (thread_num b) = c) [0..<length ts])"
proof -
  let ?boot = "init_service (thread_num b) ''bdev.json'' ''Malloc0'' sched_boot"
  let ?n = "nat (num_readers b + num_writers b)"
  let ?s = "(add_task ^^ ?n) ?boot"
  let ?ts = "alternate (map (reader_of (lock_kind b)) (rev [1..num_readers b]))
    (map (writer_of (lock_kind b)) (rev [1..num_writers b]))"
  have t0: "length (tasks ?boot) = 0" "num_threads ?boot = thread_num b" by (simp_all add: init_service_def sched_boot_def)
  have s: "setup_inv ?s" "length (tasks ?s) = ?n" "num_threads ?s = thread_num b"
    using add_tasks_setup [OF init_setup [OF assms(5,6)], where n = ?n] t0 assms by simp_all
  have l: "length ?ts = ?n" using assms by (simp add: nat_add_distrib)
  have "tasks ?s \<noteq> []" using s(2) assms(3) by auto
  then obtain s' where s': "execute cpus False True 0 ?s = Next s'" "alive_tasks s' = int (length (tasks ?s))"
    "\<And>k. k < nt ?s \<Longrightarrow> msgs s' k = (if k = 0 then [] else [GetChannel k]) @
      map RunTask (filter (\<lambda>i. i mod nt ?s = k) [0..<length (tasks ?s)])"
    using execute_queues [OF s(1) _ _ assms(7)] s(3) assms(5) by metis
  have n: "nt ?s = nat (thread_num b)" using s(3) by (simp add: nt_def)
  show thesis
  proof (rule that [OF _ refl])
    show "benchmark_thread cpus b sched_boot = Next (s', ?ts)"
      using spawn_both [of "num_readers b" "num_writers b" "lock_kind b" "(?boot, [])"] s'(1) assms
      by (simp add: benchmark_thread_def)
  qed (use s' s(2) l n in auto)
qed

lemma is_reader_of [simp]: "is_reader (reader_of k i)" "\<not> is_reader (writer_of k i)"
  by (cases k; simp add: reader_of_def writer_of_def)+

section \<open>Properties\<close>

text \<open>
  Also shown (the benchmark creates what was asked for). With counts that are not negative and whose
  sum is an \<open>int\<close>, the loop ends, adds exactly that many tasks to the service, and these are the
  readers and the writers of the chosen kind, in turns and numbered downwards.
\<close>
theorem benchmark_creates:
  assumes "0 \<le> r" and "0 \<le> w" and "r + w \<le> INT32_MAX"
  shows "spawn k r w (s, []) = Next ((add_task ^^ nat (r + w)) s,
    alternate (map (reader_of k) (rev [1..r])) (map (writer_of k) (rev [1..w])))"
  using spawn_both [OF assms] by simp

theorem benchmark_creates_witness:
  "\<exists>s. spawn RCU 2 1 (sched_boot, []) = Next (s, [RcuReader 2, RcuWriter 1, RcuReader 1]) \<and> length (tasks s) = 3"
  using benchmark_creates [of 2 1 RCU sched_boot]
  by (simp add: INT32_MAX_def upto_rec1 reader_of_def writer_of_def numeral_3_eq_3 add_task_def sched_boot_def)

text \<open>
  Property C31 (readers and writers on separate cores). With as many readers as writers and an even
  number of threads, the benchmark queues all its readers on the cores with even numbers and all
  its writers on the others: no core ever runs both.
\<close>
theorem benchmark_separates:
  assumes "num_readers b = n" and "num_writers b = n" and "0 < n" and "2 * n \<le> INT32_MAX"
    and "even (thread_num b)" and "0 < thread_num b" and "thread_num b \<le> 256" and "length cpus \<le> 13"
  shows "\<exists>s' ts. benchmark_thread cpus b sched_boot = Next (s', ts) \<and> alive_tasks s' = 2 * n \<and>
    (\<forall>c < nat (thread_num b). \<forall>i. RunTask i \<in> set (msgs s' c) \<longrightarrow>
      i < length ts \<and> (is_reader (ts ! i) \<longleftrightarrow> even c))"
proof -
  let ?rs = "map (reader_of (lock_kind b)) (rev [1..n])" and ?ws = "map (writer_of (lock_kind b)) (rev [1..n])"
  have pre: "0 \<le> num_readers b" "0 \<le> num_writers b" "0 < num_readers b + num_writers b"
    "num_readers b + num_writers b \<le> INT32_MAX" using assms by auto
  obtain s' ts where st: "benchmark_thread cpus b sched_boot = Next (s', ts)" "ts = alternate ?rs ?ws"
    "alive_tasks s' = int (length ts)"
    "\<And>c. c < nat (thread_num b) \<Longrightarrow> msgs s' c = (if c = 0 then [] else [GetChannel c]) @
      map RunTask (filter (\<lambda>i. i mod nat (thread_num b) = c) [0..<length ts])"
    using benchmark_queues [OF pre assms(6-8)] assms(1,2) by metis
  have reader: "is_reader (ts ! i) \<longleftrightarrow> even i" if "i < length ts" for i
  proof -
    have "i div 2 < length ?rs" "i div 2 < length ?ws" using that st(2) by auto
    then show ?thesis using that st(2) alternate_nth [of ?rs ?ws i] by simp
  qed
  have "even (nat (thread_num b))" using assms(5,6) by (simp add: even_nat_iff)
  then have parity: "even i \<longleftrightarrow> even c" if "i mod nat (thread_num b) = c" for i c
    using that dvd_mod_iff [of 2 "nat (thread_num b)" i] by simp
  have "i < length ts \<and> (is_reader (ts ! i) \<longleftrightarrow> even c)"
    if "c < nat (thread_num b)" "RunTask i \<in> set (msgs s' c)" for c i
  proof -
    have "RunTask i \<in> RunTask ` set (filter (\<lambda>i. i mod nat (thread_num b) = c) [0..<length ts])"
      using that(2) unfolding st(4) [OF that(1)] by (simp split: if_splits)
    then have "i < length ts" "i mod nat (thread_num b) = c" by auto
    then show ?thesis using reader [of i] parity [of i c] by blast
  qed
  moreover have "length ts = nat (2 * n)" using st(2) assms(3) by simp
  ultimately show ?thesis using st(1,3) assms(3) by auto
qed

theorem benchmark_separates_witness:
  "\<exists>s' ts. benchmark_thread ''3'' (bench_default\<lparr>num_readers := 4, num_writers := 4, thread_num := 2\<rparr>) sched_boot =
     Next (s', ts) \<and> alive_tasks s' = 8"
  using benchmark_separates [of "bench_default\<lparr>num_readers := 4, num_writers := 4, thread_num := 2\<rparr>" 4 "''3''"]
  by (auto simp: INT32_MAX_def)

text \<open>
  Also shown (a negative count takes tasks away). With a negative count of writers the loop stops when
  the sum of both counts is zero: only so many readers are created as exceed the missing writers.
\<close>
theorem benchmark_negative_count:
  assumes "w < 0" and "0 < r + w" and "r + w \<le> INT32_MAX"
  shows "spawn k r w (s, []) = Next ((add_task ^^ nat (r + w)) s, map (reader_of k) (rev [1 - w..r]))"
  using spawn_readers [of w r k "(s, [])"] assms by (simp add: INT32_MAX_def)

theorem benchmark_negative_count_witness:
  "\<exists>s. spawn Mutex 5 (- 3) (sched_boot, []) = Next (s, [Reader Mutex 5, Reader Mutex 4])"
  using benchmark_negative_count [of "- 3" 5 Mutex sched_boot]
  by (simp add: INT32_MAX_def upto_rec1 reader_of_def)

text \<open>
  Also shown (names of the locks). The four names of the usage message select the four kinds of lock,
  but the name that the program itself prints for the reader-writer lock selects RCU.
\<close>
theorem benchmark_lock_names:
  "map parse_type [''mutex'', ''spinlock'', ''sharedmutex'', ''rcu''] = [Mutex, SpinLock, RwLock, RCU] \<and>
   parse_type (locktypes RwLock) = RCU"
  by (simp add: parse_type_def char_at_def locktypes_def)

text \<open>
  Also shown (the scripts do not run the benchmark). The scripts under \<^verbatim>\<open>bat\<close> pass an option
  \<open>-i\<close>; it is not in the list of \<open>args_parse\<close>, which prints the usage and ends the program.
\<close>
theorem benchmark_scripts_rejected:
  "args_parse 9 [(CHR ''t'', ''mutex''), (CHR ''r'', ''0''), (CHR ''w'', ''4''), (CHR ''c'', ''4''), (CHR ''?'', [])]
     bench_default = Next None"
  by (simp add: args_parse_def parse_opt_def atoi_def char_at_def is_space_def is_digit_def INT32_MAX_def)

end
